(* ===== verification/Broker_Prelude.thy ===== *)
theory Broker_Prelude
  imports Main "HOL-Library.Word" "HOL-Library.AList" "HOL-Library.List_Lexorder"
begin

text \<open>
  Shared vocabulary of the development: the machine types of the Go sources, the result type
  that carries Go errors, big-endian integers as \<^verbatim>\<open>encoding/binary\<close> writes them, slices of a
  byte buffer and what reading or writing outside them does, the CRC-32 of \<^verbatim>\<open>hash/crc32\<close>,
  the decimal file names of segments, UTF-8 validity, and the binary search \<^verbatim>\<open>sort.Search\<close>.
  These are the parts of Go's standard library that the broker's own code computes with.
\<close>

unbundle bit_operations_syntax

section \<open>Types\<close>

type_synonym byte = "8 word"
type_synonym bytes = "byte list"
type_synonym gostring = "byte list"
type_synonym u32 = "32 word"
type_synonym u64 = "64 word"

text \<open>
  A Go \<^verbatim>\<open>int64\<close> whose wrap-around or sign matters (timestamps, durations, positions read from
  a file) is a \<open>64 word\<close> read by \<open>sint\<close>. File sizes and positions inside a file are \<open>nat\<close>:
  no file reaches \<open>2 ^ 63\<close> bytes. Configuration limits are \<open>int\<close>.
\<close>

type_synonym i64 = "64 word"

named_theorems go_result \<open>inversion of results that carry a Go error\<close>
named_theorems go_at \<open>reading a field that is present in a buffer\<close>
named_theorems go_len \<open>lengths of encodings\<close>

section \<open>Errors\<close>

text \<open>
  The sentinel errors of the sources keep their names. An error built with \<^verbatim>\<open>fmt.Errorf\<close>
  and no sentinel is one constructor per message; \<open>GoPanic\<close> is a run-time panic (a slice
  bound out of range).
\<close>

datatype err =
    ErrCorruptBatch | ErrUnsupportedVersion | ErrMalformedMagic
  | ErrStoreClosed | ErrOffsetOutOfRange | ErrBatchTooLarge | ErrStoreCorrupt
  | ErrIndexOffsetOverflow
  | ErrEmptyBatch | ErrInvalidMaxBytes | ErrTruncatedHeader | ErrTruncatedPayload
  | ErrOffsetDiscontinuity | ErrIncompleteClosedSegment | ErrBadIndex
  | ErrOffsetStoreClosed | ErrOffsetStoreUnavailable | ErrCorruptOffsetLog | ErrInvalidArgument
  | ErrTopicExists | ErrTopicNotFound | ErrPartitionNotFound | ErrInvalidTopicName | ErrTooManyPartitions
  | ErrPartitionCount | ErrMalformedMetadata | ErrMetadataCorruption | ErrMissingPartition
  | EIO | ENOENT | EOF | EClosed | ErrShortWrite
  | GoPanic

primrec rbind :: "'e + 'a \<Rightarrow> ('a \<Rightarrow> 'e + 'b) \<Rightarrow> 'e + 'b" where
  "rbind (Inl e) f = Inl e"
| "rbind (Inr x) f = f x"

lemma rbind_Inr_iff [go_result]: "rbind m f = Inr y \<longleftrightarrow> (\<exists>x. m = Inr x \<and> f x = Inr y)"
  by (cases m) auto

lemma rbind_Inl_iff [go_result]:
  "rbind m f = Inl e \<longleftrightarrow> m = Inl e \<or> (\<exists>x. m = Inr x \<and> f x = Inl e)"
  by (cases m) auto

section \<open>Big-endian integers\<close>

text \<open>\<open>be_put n v\<close> is the \<open>n\<close> low bytes of \<open>v\<close>, most significant first.\<close>

fun be_put :: "nat \<Rightarrow> nat \<Rightarrow> bytes" where
  "be_put 0 v = []"
| "be_put (Suc n) v = be_put n (v div 256) @ [of_nat v]"

definition be_get :: "bytes \<Rightarrow> nat" where
  "be_get bs = foldl (\<lambda>a b. a * 256 + unat b) 0 bs"

lemma length_be_put [simp, go_len]: "length (be_put n v) = n"
  by (induction n arbitrary: v) auto

lemma be_get_Nil [simp]: "be_get [] = 0"
  by (simp add: be_get_def)

lemma be_get_snoc [simp]: "be_get (bs @ [b]) = be_get bs * 256 + unat b"
  by (simp add: be_get_def)

lemma unat_of_nat_byte [simp]: "unat (of_nat v :: byte) = v mod 256"
  by (simp add: unat_of_nat)

lemma unat_byte_less [simp]: "unat (b :: byte) < 256"
  using unsigned_less [of b, where 'a = nat] by simp

lemma be_get_be_put: "be_get (be_put n v) = v mod 256 ^ n"
proof (induction n arbitrary: v)
  case (Suc n)
  have "be_get (be_put (Suc n) v) = (v div 256 mod 256 ^ n) * 256 + v mod 256"
    by (simp add: Suc.IH)
  also have "\<dots> = v mod (256 * 256 ^ n)"
    by (simp only: mod_mult2_eq mult.commute)
  finally show ?case by simp
qed simp

lemma be_get_less: "be_get bs < 256 ^ length bs"
proof (induction bs rule: rev_induct)
  case (snoc b bs)
  have "be_get bs * 256 + unat b < (be_get bs + 1) * 256" by simp
  also have "\<dots> \<le> 256 ^ length bs * 256" using snoc.IH by (intro mult_right_mono) auto
  finally show ?case by (simp add: mult.commute)
qed simp

lemma be_put_be_get: "be_put (length bs) (be_get bs) = bs"
proof (induction bs rule: rev_induct)
  case (snoc b bs)
  have "(be_get bs * 256 + unat b) div 256 = be_get bs" by simp
  moreover have "(of_nat (be_get bs * 256 + unat b) :: byte) = b"
    by (rule word_unat_eq_iff [THEN iffD2]) (simp only: unat_of_nat_byte, simp)
  ultimately show ?case using snoc.IH by simp
qed simp

definition PutUint32 :: "u32 \<Rightarrow> bytes" where
  "PutUint32 v = be_put 4 (unat v)"

definition PutUint64 :: "u64 \<Rightarrow> bytes" where
  "PutUint64 v = be_put 8 (unat v)"

definition Uint32 :: "bytes \<Rightarrow> u32" where
  "Uint32 bs = of_nat (be_get bs)"

definition Uint64 :: "bytes \<Rightarrow> u64" where
  "Uint64 bs = of_nat (be_get bs)"

lemma length_PutUint32 [simp, go_len]: "length (PutUint32 v) = 4"
  by (simp add: PutUint32_def)

lemma length_PutUint64 [simp, go_len]: "length (PutUint64 v) = 8"
  by (simp add: PutUint64_def)

lemma Uint32_PutUint32 [simp]: "Uint32 (PutUint32 v) = v"
proof -
  have "unat v < 256 ^ 4" using unsigned_less [of v, where 'a = nat] by simp
  then show ?thesis by (simp add: Uint32_def PutUint32_def be_get_be_put)
qed

lemma Uint64_PutUint64 [simp]: "Uint64 (PutUint64 v) = v"
proof -
  have "unat v < 256 ^ 8" using unsigned_less [of v, where 'a = nat] by simp
  then show ?thesis by (simp add: Uint64_def PutUint64_def be_get_be_put)
qed

lemma PutUint32_Uint32:
  assumes "length bs = 4"
  shows "PutUint32 (Uint32 bs) = bs"
proof -
  have "be_get bs < 2 ^ 32" using be_get_less [of bs] assms by simp
  then have "unat (Uint32 bs) = be_get bs"
    by (simp add: Uint32_def unat_of_nat)
  then show ?thesis using be_put_be_get [of bs] assms by (simp add: PutUint32_def)
qed

lemma PutUint64_Uint64:
  assumes "length bs = 8"
  shows "PutUint64 (Uint64 bs) = bs"
proof -
  have "be_get bs < 2 ^ 64" using be_get_less [of bs] assms by simp
  then have "unat (Uint64 bs) = be_get bs"
    by (simp add: Uint64_def unat_of_nat)
  then show ?thesis using be_put_be_get [of bs] assms by (simp add: PutUint64_def)
qed

lemma unat_ucast_u64 [simp]: "unat (ucast (w :: u32) :: u64) = unat w"
proof -
  have "unat w < 2 ^ 64"
    using unsigned_less [of w, where 'a = nat] by (simp add: less_trans)
  then show ?thesis by (simp add: unsigned_ucast_eq take_bit_nat_eq_self)
qed

lemma u64_of_nat [simp]:
  assumes "a < 2 ^ 64" "b < 2 ^ 64"
  shows "(of_nat a :: u64) < of_nat b \<longleftrightarrow> a < b" "(of_nat a :: u64) \<le> of_nat b \<longleftrightarrow> a \<le> b"
  using assms by (simp_all add: word_of_nat_less_iff word_of_nat_less_eq_iff take_bit_nat_eq_self)

lemma unat_of_nat_u64 [simp]: "a < 2 ^ 64 \<Longrightarrow> unat (of_nat a :: u64) = a"
  by (simp add: take_bit_nat_eq_self unsigned_of_nat)

lemma unat_add_u64: "unat (w :: u64) + n < 2 ^ 64 \<Longrightarrow> unat (w + of_nat n) = unat w + n"
  by (simp add: unat_word_ariths unat_of_nat take_bit_nat_eq_self)

lemma sint_of_int_u64: "- (2 ^ 63) \<le> k \<Longrightarrow> k < 2 ^ 63 \<Longrightarrow> sint (word_of_int k :: u64) = k"
  by (simp add: signed_of_int signed_take_bit_int_eq_self)

lemma sint_range_u64: "- (2 ^ 63) \<le> sint (w :: u64)" "sint (w :: u64) < 2 ^ 63"
  using sint_greater_eq [of w] sint_less [of w] by simp_all

lemma sint_uminus_u64: "- (2 ^ 63) < sint (w :: u64) \<Longrightarrow> sint (- w) = - sint w"
  using sint_of_int_u64 [of "- sint w"] sint_range_u64 [of w] by simp

lemma u64_less: "unat (w :: u64) < 2 ^ 64"
  using unsigned_less [where 'a = nat and w = w] by simp

lemma sint_of_nat_u64: "n < 2 ^ 63 \<Longrightarrow> sint (of_nat n :: u64) = int n"
  by (simp add: signed_of_nat signed_take_bit_int_eq_self)

lemma sint_small: "unat (w :: u64) < 2 ^ 63 \<Longrightarrow> sint w = int (unat w)"
  using sint_of_nat_u64 [of "unat w"] by simp

lemma unat_ucast_u32: "unat (x :: u64) < 2 ^ 32 \<Longrightarrow> unat (ucast x :: u32) = unat x"
  by (simp add: unsigned_ucast_eq take_bit_nat_eq_self)

section \<open>Slices of a buffer\<close>

text \<open>
  \<open>gslice data a b\<close> is \<^verbatim>\<open>data[a:b]\<close> where that is in range. The buffers of the broker come from
  \<^verbatim>\<open>make\<close>, so their capacity is their length and a slice that ends beyond it panics.
\<close>

definition gslice :: "'a list \<Rightarrow> nat \<Rightarrow> nat \<Rightarrow> 'a list" where
  "gslice xs a b = take (b - a) (drop a xs)"

definition u32_at :: "bytes \<Rightarrow> nat \<Rightarrow> err + u32" where
  "u32_at data off =
     (if off + 4 \<le> length data then Inr (Uint32 (gslice data off (off + 4))) else Inl GoPanic)"

definition u64_at :: "bytes \<Rightarrow> nat \<Rightarrow> err + u64" where
  "u64_at data off =
     (if off + 8 \<le> length data then Inr (Uint64 (gslice data off (off + 8))) else Inl GoPanic)"

text \<open>\<open>sub_at data off xs\<close>: the bytes \<open>xs\<close> stand in \<open>data\<close> at position \<open>off\<close>.\<close>

definition sub_at :: "'a list \<Rightarrow> nat \<Rightarrow> 'a list \<Rightarrow> bool" where
  "sub_at data off xs \<longleftrightarrow> off + length xs \<le> length data \<and> take (length xs) (drop off data) = xs"

lemma sub_at_append:
  "sub_at data off (xs @ ys) \<longleftrightarrow> sub_at data off xs \<and> sub_at data (off + length xs) ys"
proof -
  have "take (length xs + length ys) (drop off data)
      = take (length xs) (drop off data) @ take (length ys) (drop (off + length xs) data)"
    by (simp add: take_add add.commute)
  then show ?thesis by (auto simp: sub_at_def append_eq_append_conv)
qed

lemma sub_at_Nil: "sub_at data off [] \<longleftrightarrow> off \<le> length data"
  by (simp add: sub_at_def)

lemma sub_at_bound: "sub_at data off xs \<Longrightarrow> off + length xs \<le> length data"
  by (simp add: sub_at_def)

lemma sub_at_gslice: "sub_at data off xs \<Longrightarrow> n = off + length xs \<Longrightarrow> gslice data off n = xs"
  by (simp add: sub_at_def gslice_def)

lemma gslice_take: "j \<le> n \<Longrightarrow> gslice (take n xs) i j = gslice xs i j"
  by (simp add: gslice_def drop_take min_def)

lemma sub_at_self: "sub_at xs 0 xs"
  by (simp add: sub_at_def)

lemma sub_at_mid: "sub_at (pre @ xs @ post) (length pre) xs"
  by (simp add: sub_at_def)

lemma u32_at_sub [go_at]: "sub_at data off (PutUint32 v) \<Longrightarrow> u32_at data off = Inr v"
  by (auto simp: u32_at_def dest: sub_at_bound) (simp add: sub_at_gslice)

lemma u64_at_sub [go_at]: "sub_at data off (PutUint64 v) \<Longrightarrow> u64_at data off = Inr v"
  by (auto simp: u64_at_def dest: sub_at_bound) (simp add: sub_at_gslice)

subsection \<open>Writing consecutive fields into a buffer\<close>

text \<open>
  \<open>write_chunks\<close> writes a list of fields one after the other at a moving offset, as the
  encoders do with \<^verbatim>\<open>buf[offset:offset+n]\<close>; a field that does not fit panics.
\<close>

definition blit :: "'a list \<Rightarrow> nat \<Rightarrow> 'a list \<Rightarrow> 'a list" where
  "blit buf off xs = take off buf @ xs @ drop (off + length xs) buf"

fun write_chunks :: "'a list list \<Rightarrow> 'a list \<Rightarrow> nat \<Rightarrow> err + 'a list \<times> nat" where
  "write_chunks [] buf off = Inr (buf, off)"
| "write_chunks (c # cs) buf off =
     (if off + length c \<le> length buf then write_chunks cs (blit buf off c) (off + length c)
      else Inl GoPanic)"

lemma length_blit [simp]: "off + length xs \<le> length buf \<Longrightarrow> length (blit buf off xs) = length buf"
  by (simp add: blit_def)

lemma blit_blit:
  assumes "off + length xs + length ys \<le> length buf"
  shows "blit (blit buf off xs) (off + length xs) ys = blit buf off (xs @ ys)"
  using assms by (cases xs) (auto simp: blit_def min_def ac_simps)

lemma blit_Nil [simp]: "blit buf off [] = buf"
  by (simp add: blit_def)

lemma blit_mid: "n = length a \<Longrightarrow> length xs = length b \<Longrightarrow> blit (a @ b @ c) n xs = a @ xs @ c"
  by (simp add: blit_def)

lemma write_chunks_eq:
  "off + length (concat cs) \<le> length buf \<Longrightarrow>
   write_chunks cs buf off = Inr (blit buf off (concat cs), off + length (concat cs))"
proof (induction cs arbitrary: buf off)
  case (Cons c cs)
  then have le: "off + length c + length (concat cs) \<le> length buf" by simp
  have "write_chunks (c # cs) buf off = write_chunks cs (blit buf off c) (off + length c)"
    using le by simp
  also have "\<dots> = Inr (blit (blit buf off c) (off + length c) (concat cs),
      off + length c + length (concat cs))"
    using le by (intro Cons.IH) simp
  also have "\<dots> = Inr (blit buf off (concat (c # cs)), off + length (concat (c # cs)))"
    using le by (simp add: blit_blit)
  finally show ?case .
qed simp

lemma blit_full: "off \<le> length buf \<Longrightarrow> off + length xs = length buf \<Longrightarrow> blit buf off xs = take off buf @ xs"
  by (simp add: blit_def)

section \<open>CRC-32 (IEEE)\<close>

text \<open>
  \<^verbatim>\<open>crc32.ChecksumIEEE\<close>: the reflected polynomial \<open>0xEDB88320\<close>, one bit at a time, over a state
  that starts at all ones and is complemented at the end.
\<close>

definition crc_shift :: "u32 \<Rightarrow> u32" where
  "crc_shift c = (if bit c 0 then drop_bit 1 c XOR 0xEDB88320 else drop_bit 1 c)"

definition crc_byte :: "u32 \<Rightarrow> byte \<Rightarrow> u32" where
  "crc_byte c b = (crc_shift ^^ 8) (c XOR ucast b)"

definition ChecksumIEEE :: "bytes \<Rightarrow> u32" where
  "ChecksumIEEE bs = NOT (foldl crc_byte (NOT 0) bs)"

text \<open>
  The polynomial has its top bit set, so the top bit of the shifted state tells which branch
  was taken: one shift loses nothing.
\<close>

lemma crc_shift_top: "bit (crc_shift c) 31 \<longleftrightarrow> bit c 0"
  by (auto simp: crc_shift_def bit_simps dest: bit_imp_le_length)

lemma xor_right_cancel: "a XOR k = b XOR k \<longleftrightarrow> a = (b :: 'a::len word)"
  by (metis xor.assoc xor_self_eq xor.right_neutral)

lemma crc_shift_inj: "crc_shift a = crc_shift b \<Longrightarrow> a = b"
proof -
  assume eq: "crc_shift a = crc_shift b"
  then have low: "bit a 0 \<longleftrightarrow> bit b 0" by (metis crc_shift_top)
  then have "drop_bit 1 a = drop_bit 1 b"
    using eq by (cases "bit b 0") (auto simp: crc_shift_def xor_right_cancel)
  then have "bit a (Suc n) \<longleftrightarrow> bit b (Suc n)" for n
    by (metis bit_drop_bit_eq comp_apply plus_1_eq_Suc)
  with low have "bit a n \<longleftrightarrow> bit b n" for n by (cases n) auto
  then show "a = b" by (simp add: bit_eq_iff)
qed

text \<open>
  Hence a step is injective in the state for a fixed byte and in the byte for a fixed state,
  and two inputs that differ in a single byte have different checksums.
\<close>

lemma crc_shift_pow_inj: "(crc_shift ^^ n) a = (crc_shift ^^ n) b \<Longrightarrow> a = b"
  by (induction n) (auto dest: crc_shift_inj)

lemma crc_byte_inj_state: "crc_byte a x = crc_byte b x \<Longrightarrow> a = b"
  by (auto simp: crc_byte_def xor_right_cancel dest: crc_shift_pow_inj)

lemma crc_byte_inj_byte: "crc_byte c x = crc_byte c y \<Longrightarrow> x = y"
proof -
  assume "crc_byte c x = crc_byte c y"
  then have "c XOR ucast x = c XOR ucast y"
    by (auto simp: crc_byte_def dest: crc_shift_pow_inj)
  then have "(ucast x :: u32) = ucast y"
    by (metis xor.commute xor_right_cancel)
  then have "(ucast (ucast x :: u32) :: byte) = ucast (ucast y :: u32)" by simp
  then show "x = y" by (simp add: ucast_up_ucast_id is_up)
qed

lemma foldl_crc_inj: "foldl crc_byte a xs = foldl crc_byte b xs \<Longrightarrow> a = b"
  by (induction xs arbitrary: a b) (auto dest: crc_byte_inj_state)

lemma ChecksumIEEE_detects_byte:
  assumes "x \<noteq> y"
  shows "ChecksumIEEE (pre @ x # post) \<noteq> ChecksumIEEE (pre @ y # post)"
proof
  assume "ChecksumIEEE (pre @ x # post) = ChecksumIEEE (pre @ y # post)"
  then have "foldl crc_byte (crc_byte (foldl crc_byte (NOT 0) pre) x) post
      = foldl crc_byte (crc_byte (foldl crc_byte (NOT 0) pre) y) post"
    by (simp add: ChecksumIEEE_def)
  then show False
    using assms by (blast dest: foldl_crc_inj crc_byte_inj_byte)
qed

text \<open>The checksum on natural numbers, which \<^verbatim>\<open>simp\<close> evaluates.\<close>

definition crc_shift_nat :: "nat \<Rightarrow> nat" where
  "crc_shift_nat n = (if odd n then (n div 2) XOR 0xEDB88320 else n div 2)"

definition crc_byte_nat :: "nat \<Rightarrow> nat \<Rightarrow> nat" where
  "crc_byte_nat c b = (crc_shift_nat ^^ 8) (c XOR b)"

lemma unat_crc_shift: "unat (crc_shift c) = crc_shift_nat (unat c)"
proof -
  have odd: "bit c 0 \<longleftrightarrow> odd (unat c)" using bit_unsigned_iff [of c 0, where 'a = nat] by (simp add: bit_0)
  have half: "unat (drop_bit 1 c) = unat c div 2"
    by (simp add: unat_div drop_bit_Suc)
  show ?thesis unfolding crc_shift_def crc_shift_nat_def odd by (simp only: if_distrib unsigned_xor_eq half unsigned_numeral) simp
qed

lemma unat_crc_byte: "unat (crc_byte c b) = crc_byte_nat (unat c) (unat b)"
proof -
  have "unat ((crc_shift ^^ k) x) = (crc_shift_nat ^^ k) (unat x)" for k x
    by (induction k) (simp_all add: unat_crc_shift)
  moreover have "unat (ucast b :: u32) = unat b" 
  proof -
    have "unat b < 2 ^ 32" by (rule less_le_trans [OF unat_byte_less]) simp
    then have "take_bit 32 (unat b) = unat b" by (rule take_bit_nat_eq_self)
    then show ?thesis by (simp add: unsigned_ucast_eq)
  qed
  ultimately show ?thesis by (simp add: crc_byte_def crc_byte_nat_def unsigned_xor_eq)
qed

lemma unat_ChecksumIEEE:
  "unat (ChecksumIEEE bs) = 2 ^ 32 - 1 - foldl crc_byte_nat (2 ^ 32 - 1) (map unat bs)"
proof -
  have "unat (foldl crc_byte c bs) = foldl crc_byte_nat (unat c) (map unat bs)" for c
    by (induction bs arbitrary: c) (simp_all add: unat_crc_byte)
  moreover have m1: "unat (- 1 :: u32) = 2 ^ 32 - 1" by (simp add: unsigned_minus_1_eq_mask mask_eq_exp_minus_1)
  moreover have "unat (NOT w) = 2 ^ 32 - 1 - unat w" for w :: u32
  proof -
    have n: "NOT w = - 1 - w" by (simp add: not_eq_complement)
    have "unat (- 1 - w) = unat (- 1 :: u32) - unat w" by (rule unat_sub) (rule word_order.extremum)
    then show ?thesis unfolding n m1 .
  qed
  ultimately show ?thesis by (simp add: ChecksumIEEE_def)
qed

section \<open>Decimal numerals in file names\<close>

text \<open>
  \<open>dec_put 20 n\<close> is \<^verbatim>\<open>fmt.Sprintf("%020d", n)\<close> for \<open>n < 10 ^ 20\<close>, which every \<^verbatim>\<open>uint64\<close> is, and
  \<open>ParseUint\<close> is \<^verbatim>\<open>strconv.ParseUint(s, 10, 64)\<close>.
\<close>

fun dec_put :: "nat \<Rightarrow> nat \<Rightarrow> gostring" where
  "dec_put 0 v = []"
| "dec_put (Suc n) v = dec_put n (v div 10) @ [of_nat (48 + v mod 10)]"

definition is_digit :: "byte \<Rightarrow> bool" where
  "is_digit b \<longleftrightarrow> 48 \<le> unat b \<and> unat b \<le> 57"

definition dec_get :: "gostring \<Rightarrow> nat" where
  "dec_get bs = foldl (\<lambda>a b. a * 10 + (unat b - 48)) 0 bs"

definition ParseUint :: "gostring \<Rightarrow> u64 option" where
  "ParseUint bs =
     (if bs \<noteq> [] \<and> list_all is_digit bs \<and> dec_get bs < 2 ^ 64 then Some (of_nat (dec_get bs))
      else None)"

lemma length_dec_put [simp]: "length (dec_put n v) = n"
  by (induction n arbitrary: v) auto

lemma unat_digit: "unat (of_nat (48 + v mod 10) :: byte) = 48 + v mod 10"
proof -
  have "v mod 10 < 10" by simp
  then have "48 + v mod 10 < 256" by linarith
  then show ?thesis by (simp only: unat_of_nat_byte mod_less)
qed

lemma dec_put_digits: "list_all is_digit (dec_put n v)"
proof (induction n arbitrary: v)
  case (Suc n)
  have "v mod 10 < 10" by simp
  then have "is_digit (of_nat (48 + v mod 10))"
    unfolding is_digit_def by (simp only: unat_digit) linarith
  with Suc show ?case by simp
qed simp

lemma dec_get_dec_put: "dec_get (dec_put n v) = v mod 10 ^ n"
proof (induction n arbitrary: v)
  case (Suc n)
  have "dec_get (dec_put (Suc n) v) = dec_get (dec_put n (v div 10)) * 10
      + (unat (of_nat (48 + v mod 10) :: byte) - 48)"
    unfolding dec_put.simps dec_get_def foldl_append by (simp only: foldl.simps)
  also have "\<dots> = (v div 10 mod 10 ^ n) * 10 + v mod 10"
    unfolding unat_digit Suc.IH by simp
  also have "\<dots> = v mod 10 ^ Suc n"
    by (simp only: power_Suc mod_mult2_eq mult.commute)
  finally show ?case .
qed (simp add: dec_get_def)

lemma ParseUint_dec_put: "ParseUint (dec_put 20 (unat (v :: u64))) = Some v"
proof -
  have lt: "unat v < 2 ^ 64" using unsigned_less [of v, where 'a = nat] by simp
  moreover have "(2 :: nat) ^ 64 < 10 ^ 20" by simp
  ultimately have "unat v < 10 ^ 20" by (rule less_trans)
  then have val: "dec_get (dec_put 20 (unat v)) = unat v"
    by (simp only: dec_get_dec_put mod_less)
  have ne: "dec_put 20 (unat v) \<noteq> []" by (metis length_dec_put list.size(3) zero_neq_numeral)
  show ?thesis
    unfolding ParseUint_def val by (rule trans [OF if_P]) (use ne lt dec_put_digits in blast, simp)
qed

lemma dec_put_dec_get: "list_all is_digit p \<Longrightarrow> dec_put (length p) (dec_get p) = p"
proof (induction p rule: rev_induct)
  case (snoc x p)
  let ?k = "unat x - 48"
  have x: "?k < 10" "48 + ?k = unat x" using snoc.prems by (auto simp: is_digit_def)
  have "dec_get (p @ [x]) = dec_get p * 10 + ?k" by (simp add: dec_get_def)
  then have "dec_get (p @ [x]) div 10 = dec_get p" "dec_get (p @ [x]) mod 10 = ?k" using x(1) by simp_all
  then have "dec_put (length (p @ [x])) (dec_get (p @ [x])) = dec_put (length p) (dec_get p) @ [of_nat (unat x)]"
    by (simp only: length_append_singleton dec_put.simps x(2))
  then show ?case using snoc by simp
qed simp

lemma ParseUint_inverse: "ParseUint p = Some v \<Longrightarrow> length p = 20 \<Longrightarrow> p = dec_put 20 (unat v)"
proof -
  assume v: "ParseUint p = Some v" and len: "length p = 20"
  then have digits: "list_all is_digit p" and "dec_get p < 2 ^ 64" "v = of_nat (dec_get p)"
    by (auto simp: ParseUint_def split: if_splits)
  then have "unat v = dec_get p" by (simp only: unat_of_nat_u64)
  then show ?thesis using dec_put_dec_get [OF digits] len by simp
qed

lemma dec_put_inj: "dec_put 20 (unat (a :: u64)) = dec_put 20 (unat b) \<Longrightarrow> a = b"
  by (metis ParseUint_dec_put option.inject)

section \<open>UTF-8 validity\<close>

text \<open>\<^verbatim>\<open>utf8.ValidString\<close>: shortest forms only, no surrogates, at most \<open>U+10FFFF\<close>.\<close>

definition in_range :: "nat \<Rightarrow> nat \<Rightarrow> byte \<Rightarrow> bool" where
  "in_range lo hi b \<longleftrightarrow> lo \<le> unat b \<and> unat b \<le> hi"

fun utf8_valid :: "gostring \<Rightarrow> bool" where
  "utf8_valid [] = True"
| "utf8_valid (a # as) =
     (if unat a < 128 then utf8_valid as
      else case as of
        [] \<Rightarrow> False
      | b # bs \<Rightarrow>
          if in_range 0xC2 0xDF a then in_range 0x80 0xBF b \<and> utf8_valid bs
          else case bs of
            [] \<Rightarrow> False
          | c # cs \<Rightarrow>
              if in_range 0xE0 0xEF a then
                in_range (if unat a = 0xE0 then 0xA0 else 0x80) (if unat a = 0xED then 0x9F else 0xBF) b
                \<and> in_range 0x80 0xBF c \<and> utf8_valid cs
              else case cs of
                [] \<Rightarrow> False
              | d # ds \<Rightarrow>
                  in_range 0xF0 0xF4 a
                  \<and> in_range (if unat a = 0xF0 then 0x90 else 0x80) (if unat a = 0xF4 then 0x8F else 0xBF) b
                  \<and> in_range 0x80 0xBF c \<and> in_range 0x80 0xBF d \<and> utf8_valid ds)"

lemma utf8_valid_ascii: "list_all (\<lambda>b. unat b < 128) bs \<Longrightarrow> utf8_valid bs"
  by (induction bs) auto

section \<open>Binary search\<close>

text \<open>\<^verbatim>\<open>sort.Search(n, f)\<close> is \<open>sort_search f 0 n\<close>.\<close>

function sort_search :: "(nat \<Rightarrow> bool) \<Rightarrow> nat \<Rightarrow> nat \<Rightarrow> nat" where
  "sort_search f i j =
     (if i < j then
        let h = (i + j) div 2 in
        if \<not> f h then sort_search f (h + 1) j else sort_search f i h
      else i)"
  by pat_completeness auto
termination
  by (relation "measure (\<lambda>(f, i, j). j - i)") (auto simp: Let_def)

declare sort_search.simps [simp del]

lemma sort_search_done: "\<not> i < j \<Longrightarrow> sort_search f i j = i"
  by (subst sort_search.simps) simp

lemma sort_search_step:
  "i < j \<Longrightarrow> h = (i + j) div 2 \<Longrightarrow>
   sort_search f i j = (if f h then sort_search f i h else sort_search f (h + 1) j)"
  by (subst sort_search.simps) (simp add: Let_def)

lemma sort_search_bounds: "i \<le> j \<Longrightarrow> i \<le> sort_search f i j \<and> sort_search f i j \<le> j"
proof (induction f i j rule: sort_search.induct)
  case (1 f i j)
  show ?case
  proof (cases "i < j")
    case True
    define h where "h = (i + j) div 2"
    have h: "i \<le> h" "h < j" "h + 1 \<le> j" using True by (auto simp: h_def)
    have "f h \<Longrightarrow> i \<le> sort_search f i h \<and> sort_search f i h \<le> h"
      using "1.IH"(2) [OF True h_def] h(1) by blast
    moreover have "\<not> f h \<Longrightarrow> h + 1 \<le> sort_search f (h + 1) j \<and> sort_search f (h + 1) j \<le> j"
      using "1.IH"(1) [OF True h_def] h(3) by blast
    ultimately show ?thesis
      unfolding sort_search_step [OF True h_def] using h by (cases "f h") auto
  next
    case False
    with "1.prems" show ?thesis by (simp add: sort_search_done)
  qed
qed

text \<open>For a predicate that never turns false again, the result is the first true index.\<close>

lemma sort_search_least:
  assumes "\<forall>a b. a \<le> b \<and> b < n \<and> f a \<longrightarrow> f b"
    and "i \<le> j" "j \<le> n"
    and "\<forall>k < i. \<not> f k" and "\<forall>k. j \<le> k \<and> k < n \<longrightarrow> f k"
  shows "(\<forall>k < sort_search f i j. \<not> f k) \<and> (\<forall>k. sort_search f i j \<le> k \<and> k < n \<longrightarrow> f k)"
  using assms
proof (induction f i j rule: sort_search.induct)
  case (1 f i j)
  note mono = "1.prems"(1) and jn = "1.prems"(3)
  show ?case
  proof (cases "i < j")
    case True
    define h where "h = (i + j) div 2"
    have h: "i \<le> h" "h < j" "h + 1 \<le> j" "h \<le> n" "h < n" using True jn by (auto simp: h_def)
    show ?thesis
    proof (cases "f h")
      case t: True
      then have nn: "\<not> \<not> f h" by simp
      have up: "\<forall>k. h \<le> k \<and> k < n \<longrightarrow> f k" using mono t by blast
      show ?thesis
        unfolding sort_search_step [OF True h_def] if_P [OF t]
        by (rule "1.IH"(2) [OF True h_def nn mono h(1) h(4) "1.prems"(4) up])
    next
      case nt: False
      have low: "\<forall>k < h + 1. \<not> f k"
      proof (intro allI impI)
        fix k assume "k < h + 1"
        then have "k \<le> h" by simp
        then show "\<not> f k" using mono nt h(5) by blast
      qed
      show ?thesis
        unfolding sort_search_step [OF True h_def] if_not_P [OF nt]
        by (rule "1.IH"(1) [OF True h_def nt mono h(3) jn low "1.prems"(5)])
    qed
  next
    case False
    then show ?thesis using "1.prems" unfolding sort_search_done [OF False] by auto
  qed
qed

lemma sort_search_first:
  assumes mono: "\<forall>a b. a \<le> b \<and> b < n \<and> f a \<longrightarrow> f b"
  shows "sort_search f 0 n \<le> n"
    and "k < sort_search f 0 n \<Longrightarrow> \<not> f k"
    and "sort_search f 0 n \<le> k \<Longrightarrow> k < n \<Longrightarrow> f k"
proof -
  have low: "\<forall>k < 0. \<not> f k" and high: "\<forall>k. n \<le> k \<and> k < n \<longrightarrow> f k" by auto
  note least = sort_search_least [OF mono le0 le_refl low high]
  show "sort_search f 0 n \<le> n" using sort_search_bounds [OF le0] by blast
  show "k < sort_search f 0 n \<Longrightarrow> \<not> f k" using least by blast
  show "sort_search f 0 n \<le> k \<Longrightarrow> k < n \<Longrightarrow> f k" using least by blast
qed

end
