(* ===== verification/Json.thy ===== *)
theory Json
  imports Broker_Prelude
begin

text \<open>
  The part of Go's \<^verbatim>\<open>encoding/json\<close> that the topic metadata uses: \<^verbatim>\<open>MarshalIndent\<close> with two blanks, and the
  reading of a text into a value. A text is split into tokens and the tokens are parsed; the limit on
  nesting and the treatment of escapes and of invalid UTF-8 are those of the package. The lemmas show
  that reading a printed value gives it back.
\<close>

section \<open>Text\<close>

definition str :: "string \<Rightarrow> gostring" where
  "str s = map of_char s"

lemma length_str [simp]: "length (str s) = length s"
  by (simp add: str_def)

text \<open>\<^verbatim>\<open>strconv.Itoa\<close> on natural numbers and \<^verbatim>\<open>strconv.ParseInt\<close>, \<^verbatim>\<open>strconv.ParseUint\<close> in base 10.\<close>

fun itoa :: "nat \<Rightarrow> gostring" where
  "itoa n = (if n < 10 then [of_nat (48 + n)] else itoa (n div 10) @ [of_nat (48 + n mod 10)])"

declare itoa.simps [simp del]

definition all_digits :: "gostring \<Rightarrow> bool" where
  "all_digits s \<longleftrightarrow> s \<noteq> [] \<and> list_all is_digit s"

definition ParseUint64 :: "gostring \<Rightarrow> u64 option" where
  "ParseUint64 s = (if all_digits s \<and> dec_get s < 2 ^ 64 then Some (of_nat (dec_get s)) else None)"

definition ParseInt64 :: "gostring \<Rightarrow> int option" where
  "ParseInt64 s =
     (if s \<noteq> [] \<and> hd s = 45 then
        if all_digits (tl s) \<and> dec_get (tl s) \<le> 2 ^ 63 then Some (- int (dec_get (tl s))) else None
      else if s \<noteq> [] \<and> hd s = 43 then
        if all_digits (tl s) \<and> dec_get (tl s) < 2 ^ 63 then Some (int (dec_get (tl s))) else None
      else if all_digits s \<and> dec_get s < 2 ^ 63 then Some (int (dec_get s)) else None)"

section \<open>Values and tokens\<close>

datatype json =
    JNull | JBool bool | JNum gostring | JStr gostring
  | JArr "json list" | JObj "(gostring \<times> json) list"

datatype token =
    TLBrace | TRBrace | TLBrack | TRBrack | TColon | TComma
  | TStr gostring | TNum gostring | TTrue | TFalse | TNull

section \<open>Printing\<close>

definition hex_digit :: "nat \<Rightarrow> byte" where
  "hex_digit n = of_nat (if n < 10 then 48 + n else 87 + n)"

text \<open>The length of the UTF-8 sequence a text starts with, 0 when it is invalid.\<close>

definition rune_length :: "bytes \<Rightarrow> nat" where
  "rune_length bs =
     (if bs \<noteq> [] \<and> utf8_valid (take 1 bs) then 1
      else if length bs \<ge> 2 \<and> utf8_valid (take 2 bs) then 2
      else if length bs \<ge> 3 \<and> utf8_valid (take 3 bs) then 3
      else if length bs \<ge> 4 \<and> utf8_valid (take 4 bs) then 4 else 0)"

definition html_safe :: "byte \<Rightarrow> bool" where
  "html_safe b \<longleftrightarrow> 32 \<le> unat b \<and> unat b < 128 \<and> b \<notin> {34, 38, 60, 62, 92}"

definition escape_byte :: "byte \<Rightarrow> bytes" where
  "escape_byte b =
     (if html_safe b then [b]
      else if b = 34 \<or> b = 92 then [92, b]
      else if b = 8 then [92, 98]
      else if b = 9 then [92, 116]
      else if b = 10 then [92, 110]
      else if b = 12 then [92, 102]
      else if b = 13 then [92, 114]
      else [92, 117, 48, 48, hex_digit (unat b div 16), hex_digit (unat b mod 16)])"

text \<open>The separators \<^verbatim>\<open>U+2028\<close> and \<^verbatim>\<open>U+2029\<close> are escaped too, and an invalid byte becomes the escape of \<^verbatim>\<open>U+FFFD\<close>.\<close>

function escape_string :: "gostring \<Rightarrow> bytes" where
  "escape_string [] = []"
| "escape_string (b # bs) =
     (if unat b < 128 then escape_byte b @ escape_string bs
      else
      let n = rune_length (b # bs) in
      if n = 0 then str [CHR 0x5C] @ str ''ufffd'' @ escape_string bs
      else if take 3 (b # bs) = [0xE2, 0x80, 0xA8] then str [CHR 0x5C] @ str ''u2028'' @ escape_string (drop 2 bs)
      else if take 3 (b # bs) = [0xE2, 0x80, 0xA9] then str [CHR 0x5C] @ str ''u2029'' @ escape_string (drop 2 bs)
      else take n (b # bs) @ escape_string (drop (n - 1) bs))"
  by pat_completeness auto
termination
  by (relation "measure length") auto

definition quote_string :: "gostring \<Rightarrow> bytes" where
  "quote_string s = 34 # escape_string s @ [34]"

definition indent :: "nat \<Rightarrow> bytes" where
  "indent l = 10 # replicate (2 * l) 32"

fun join_with :: "'a \<Rightarrow> 'a list list \<Rightarrow> 'a list" where
  "join_with c [] = []"
| "join_with c [x] = x"
| "join_with c (x # y # zs) = x @ [c] @ join_with c (y # zs)"

fun MarshalIndent :: "nat \<Rightarrow> json \<Rightarrow> bytes" where
  "MarshalIndent l JNull = str ''null''"
| "MarshalIndent l (JBool b) = (if b then str ''true'' else str ''false'')"
| "MarshalIndent l (JNum s) = s"
| "MarshalIndent l (JStr s) = quote_string s"
| "MarshalIndent l (JArr vs) =
     (if vs = [] then [91, 93]
      else [91] @ join_with 44 (map (\<lambda>v. indent (Suc l) @ MarshalIndent (Suc l) v) vs) @ indent l @ [93])"
| "MarshalIndent l (JObj ms) =
     (if ms = [] then [123, 125]
      else [123] @ join_with 44 (map (\<lambda>(k, v). indent (Suc l) @ quote_string k @ [58, 32] @ MarshalIndent (Suc l) v) ms)
        @ indent l @ [125])"

section \<open>Reading\<close>

definition is_space :: "byte \<Rightarrow> bool" where
  "is_space b \<longleftrightarrow> b \<in> {32, 9, 10, 13}"

definition hex_value :: "byte \<Rightarrow> nat option" where
  "hex_value b =
     (if in_range 48 57 b then Some (unat b - 48)
      else if in_range 97 102 b then Some (unat b - 87)
      else if in_range 65 70 b then Some (unat b - 55) else None)"

fun getu4 :: "bytes \<Rightarrow> nat option" where
  "getu4 (a # b # c # d # _) =
     (case (hex_value a, hex_value b, hex_value c, hex_value d) of
        (Some w, Some x, Some y, Some z) \<Rightarrow> Some (w * 4096 + x * 256 + y * 16 + z) | _ \<Rightarrow> None)"
| "getu4 _ = None"

definition getu4_escape :: "bytes \<Rightarrow> nat option" where
  "getu4_escape bs = (if take 2 bs = [92, 117] then getu4 (drop 2 bs) else None)"

definition encode_rune :: "nat \<Rightarrow> bytes" where
  "encode_rune r =
     (if r < 0x80 then [of_nat r]
      else if r < 0x800 then [of_nat (0xC0 + r div 64), of_nat (0x80 + r mod 64)]
      else if r < 0x10000 then [of_nat (0xE0 + r div 4096), of_nat (0x80 + r div 64 mod 64), of_nat (0x80 + r mod 64)]
      else [of_nat (0xF0 + r div 262144), of_nat (0x80 + r div 4096 mod 64), of_nat (0x80 + r div 64 mod 64),
            of_nat (0x80 + r mod 64)])"

definition unescape :: "byte \<Rightarrow> byte option" where
  "unescape b =
     (if b = 34 \<or> b = 92 \<or> b = 47 then Some b
      else if b = 98 then Some 8 else if b = 102 then Some 12 else if b = 110 then Some 10
      else if b = 114 then Some 13 else if b = 116 then Some 9 else None)"

definition emit :: "bytes \<Rightarrow> (gostring \<times> bytes) option \<Rightarrow> (gostring \<times> bytes) option" where
  "emit x m = map_option (\<lambda>(s, r). (x @ s, r)) m"

text \<open>A string after its opening quote: its content and the rest of the text.\<close>

function lex_string :: "bytes \<Rightarrow> (gostring \<times> bytes) option" where
  "lex_string [] = None"
| "lex_string (a # as) =
     (if a = 34 then Some ([], as)
      else if unat a < 32 then None
      else if a \<noteq> 92 then emit [a] (lex_string as)
      else if as = [] then None
      else
      let b = hd as; bs = tl as in
      case unescape b of
        Some c \<Rightarrow> emit [c] (lex_string bs)
      | None \<Rightarrow>
          if b \<noteq> 117 then None
          else
          (case getu4 bs of
             None \<Rightarrow> None
           | Some u \<Rightarrow>
               if 0xD800 \<le> u \<and> u < 0xE000 then
                 (case getu4_escape (drop 4 bs) of
                    Some v \<Rightarrow>
                      if u < 0xDC00 \<and> 0xDC00 \<le> v \<and> v < 0xE000
                      then emit (encode_rune (0x10000 + (u - 0xD800) * 1024 + (v - 0xDC00))) (lex_string (drop 10 bs))
                      else emit [0xEF, 0xBF, 0xBD] (lex_string (drop 4 bs))
                  | None \<Rightarrow> emit [0xEF, 0xBF, 0xBD] (lex_string (drop 4 bs)))
               else emit (encode_rune u) (lex_string (drop 4 bs))))"
  by pat_completeness auto
termination
  by (relation "measure length") auto

text \<open>Bytes that are not UTF-8 are read as \<^verbatim>\<open>U+FFFD\<close>.\<close>

function sanitize :: "bytes \<Rightarrow> gostring" where
  "sanitize [] = []"
| "sanitize (b # bs) =
     (let n = rune_length (b # bs) in
      if n = 0 then [0xEF, 0xBF, 0xBD] @ sanitize bs else take n (b # bs) @ sanitize (drop (n - 1) bs))"
  by pat_completeness auto
termination
  by (relation "measure length") auto

definition lex_exponent :: "gostring \<Rightarrow> bytes \<Rightarrow> (gostring \<times> bytes) option" where
  "lex_exponent lit bs =
     (if bs \<noteq> [] \<and> hd bs \<in> {101, 69} then
        let sgn = (if tl bs \<noteq> [] \<and> hd (tl bs) \<in> {43, 45} then [hd bs, hd (tl bs)] else [hd bs]);
            r = drop (length sgn) bs in
        if r \<noteq> [] \<and> is_digit (hd r) then Some (lit @ sgn @ takeWhile is_digit r, dropWhile is_digit r) else None
      else Some (lit, bs))"

definition lex_fraction :: "gostring \<Rightarrow> bytes \<Rightarrow> (gostring \<times> bytes) option" where
  "lex_fraction lit bs =
     (if bs \<noteq> [] \<and> hd bs = 46 then
        let r = tl bs in
        if r \<noteq> [] \<and> is_digit (hd r) then lex_exponent (lit @ [46] @ takeWhile is_digit r) (dropWhile is_digit r) else None
      else lex_exponent lit bs)"

definition lex_number :: "bytes \<Rightarrow> (gostring \<times> bytes) option" where
  "lex_number bs =
     (let sgn = (if bs \<noteq> [] \<and> hd bs = 45 then [45] else []); r = drop (length sgn) bs in
      if r = [] \<or> \<not> is_digit (hd r) then None
      else if hd r = 48 then lex_fraction (sgn @ [48]) (tl r)
      else lex_fraction (sgn @ takeWhile is_digit r) (dropWhile is_digit r))"

lemma emit_Some: "emit x m = Some (s, r) \<Longrightarrow> \<exists>t. m = Some (t, r)"
  by (auto simp: emit_def)

lemma lex_string_shorter: "lex_string bs = Some (s, r) \<Longrightarrow> length r < length bs"
proof (induction bs arbitrary: s r rule: length_induct)
  case (1 bs)
  show ?case
  proof (cases bs)
    case (Cons a as)
    define P where "P \<longleftrightarrow> r = as \<or> (\<exists>k t. lex_string (drop k as) = Some (t, r))"
    have P: "emit x (lex_string (drop k (tl as))) = Some (s, r) \<Longrightarrow> P" "emit x (lex_string (tl as)) = Some (s, r) \<Longrightarrow> P"
      "emit x (lex_string as) = Some (s, r) \<Longrightarrow> P" for x k
      unfolding P_def by (metis emit_Some drop_Suc drop0)+
    have P
      using 1(2) unfolding Cons lex_string.simps(2) Let_def
      by (auto split: if_splits option.splits intro: P simp: P_def [symmetric] simp del: lex_string.simps) (simp add: P_def)
    then show ?thesis unfolding P_def
    proof (elim disjE exE)
      fix k t assume "lex_string (drop k as) = Some (t, r)"
      moreover have "length (drop k as) < length bs" using Cons by simp
      ultimately show ?thesis using 1(1) by fastforce
    qed (simp add: Cons)
  qed (use 1(2) in simp)
qed

lemma lex_exponent_split: "lex_exponent lit bs = Some (s, r) \<Longrightarrow> s @ r = lit @ bs \<and> (lit \<noteq> [] \<longrightarrow> s \<noteq> [])"
  by (cases bs; cases "tl bs") (auto simp: lex_exponent_def Let_def split: if_splits)

lemma lex_fraction_split: "lex_fraction lit bs = Some (s, r) \<Longrightarrow> s @ r = lit @ bs \<and> (lit \<noteq> [] \<longrightarrow> s \<noteq> [])"
  by (cases bs) (auto simp: lex_fraction_def Let_def split: if_splits dest!: lex_exponent_split)

lemma lex_number_split:
  assumes "lex_number bs = Some (s, r)"
  shows "s @ r = bs \<and> s \<noteq> []"
proof -
  define sgn where "sgn = (if bs \<noteq> [] \<and> hd bs = 45 then [45] else [] :: bytes)"
  define q where "q = drop (length sgn) bs"
  have bs: "sgn @ q = bs" by (cases bs) (auto simp: sgn_def q_def)
  define h where "h = (if hd q = 48 then [48] else takeWhile is_digit q)"
  define t where "t = (if hd q = 48 then tl q else dropWhile is_digit q)"
  have q: "q \<noteq> []" "is_digit (hd q)" and l: "lex_fraction (sgn @ h) t = Some (s, r)"
    using assms unfolding lex_number_def Let_def sgn_def [symmetric] q_def [symmetric] h_def t_def by (auto split: if_splits)
  have "h @ t = q" "h \<noteq> []" using q by (cases q; auto simp: h_def t_def)+
  then show ?thesis using lex_fraction_split [OF l] bs by auto
qed

function tokenize :: "bytes \<Rightarrow> token list option" where
  "tokenize [] = Some []"
| "tokenize (a # as) =
     (if is_space a then tokenize as
      else if a = 123 then map_option ((#) TLBrace) (tokenize as)
      else if a = 125 then map_option ((#) TRBrace) (tokenize as)
      else if a = 91 then map_option ((#) TLBrack) (tokenize as)
      else if a = 93 then map_option ((#) TRBrack) (tokenize as)
      else if a = 58 then map_option ((#) TColon) (tokenize as)
      else if a = 44 then map_option ((#) TComma) (tokenize as)
      else if a = 34 then
        (case lex_string as of None \<Rightarrow> None | Some (s, r) \<Rightarrow> map_option ((#) (TStr (sanitize s))) (tokenize r))
      else if take 4 (a # as) = str ''true'' then map_option ((#) TTrue) (tokenize (drop 3 as))
      else if take 5 (a # as) = str ''false'' then map_option ((#) TFalse) (tokenize (drop 4 as))
      else if take 4 (a # as) = str ''null'' then map_option ((#) TNull) (tokenize (drop 3 as))
      else (case lex_number (a # as) of None \<Rightarrow> None | Some (s, r) \<Rightarrow> map_option ((#) (TNum s)) (tokenize r)))"
  by pat_completeness auto
termination
proof (relation "measure length", goal_cases)
  case (9 a as x s r)
  then show ?case using lex_string_shorter [of as s r] by simp
next
  case (13 a as x s r)
  then have "s @ r = a # as" "s \<noteq> []" using lex_number_split [of "a # as" s r] by auto
  then show ?case by (cases s) auto
qed auto

text \<open>
  \<open>n\<close> bounds the recursion; twice the number of tokens is enough, because at least every second call
  consumes one.
\<close>

fun parse_value :: "nat \<Rightarrow> token list \<Rightarrow> (json \<times> token list) option"
  and parse_members :: "nat \<Rightarrow> token list \<Rightarrow> ((gostring \<times> json) list \<times> token list) option"
  and parse_elements :: "nat \<Rightarrow> token list \<Rightarrow> (json list \<times> token list) option"
where
  "parse_value 0 ts = None"
| "parse_value (Suc n) ts =
     (case ts of
        TStr s # r \<Rightarrow> Some (JStr s, r)
      | TNum s # r \<Rightarrow> Some (JNum s, r)
      | TTrue # r \<Rightarrow> Some (JBool True, r)
      | TFalse # r \<Rightarrow> Some (JBool False, r)
      | TNull # r \<Rightarrow> Some (JNull, r)
      | TLBrace # TRBrace # r \<Rightarrow> Some (JObj [], r)
      | TLBrace # r \<Rightarrow> map_option (\<lambda>(ms, r). (JObj ms, r)) (parse_members n r)
      | TLBrack # TRBrack # r \<Rightarrow> Some (JArr [], r)
      | TLBrack # r \<Rightarrow> map_option (\<lambda>(vs, r). (JArr vs, r)) (parse_elements n r)
      | _ \<Rightarrow> None)"
| "parse_members 0 ts = None"
| "parse_members (Suc n) ts =
     (case ts of
        TStr k # TColon # r \<Rightarrow>
          (case parse_value n r of
             Some (v, TComma # r) \<Rightarrow> map_option (\<lambda>(ms, r). ((k, v) # ms, r)) (parse_members n r)
           | Some (v, TRBrace # r) \<Rightarrow> Some ([(k, v)], r)
           | _ \<Rightarrow> None)
      | _ \<Rightarrow> None)"
| "parse_elements 0 ts = None"
| "parse_elements (Suc n) ts =
     (case parse_value n ts of
        Some (v, TComma # r) \<Rightarrow> map_option (\<lambda>(vs, r). (v # vs, r)) (parse_elements n r)
      | Some (v, TRBrack # r) \<Rightarrow> Some ([v], r)
      | _ \<Rightarrow> None)"

text \<open>The deepest nesting of a token list; the package reads at most 10000 levels.\<close>

fun nesting :: "nat \<Rightarrow> token list \<Rightarrow> nat" where
  "nesting l [] = l"
| "nesting l (t # ts) =
     (if t \<in> {TLBrace, TLBrack} then max l (nesting (Suc l) ts)
      else if t \<in> {TRBrace, TRBrack} then max l (nesting (l - 1) ts)
      else nesting l ts)"

definition parse_json :: "bytes \<Rightarrow> json option" where
  "parse_json bs =
     (case tokenize bs of
        None \<Rightarrow> None
      | Some ts \<Rightarrow>
          if nesting 0 ts > 10000 then None
          else (case parse_value (2 * length ts) ts of Some (v, []) \<Rightarrow> Some v | _ \<Rightarrow> None))"

section \<open>Numbers read back\<close>

lemma itoa_small: "n < 10 \<Longrightarrow> itoa n = [of_nat (48 + n)]"
  by (subst itoa.simps) simp

lemma itoa_big: "\<not> n < 10 \<Longrightarrow> itoa n = itoa (n div 10) @ [of_nat (48 + n mod 10)]"
  by (subst itoa.simps) simp

lemma digit_byte: "d < 10 \<Longrightarrow> unat (of_nat (48 + d) :: byte) = 48 + d"
  using unat_digit [of d] by (metis mod_less)

lemma is_digit_byte: "d < 10 \<Longrightarrow> is_digit (of_nat (48 + d))"
  using digit_byte [of d] unfolding is_digit_def by simp

lemma itoa_digits: "all_digits (itoa n)"
proof (induction n rule: itoa.induct)
  case (1 n)
  show ?case
  proof (cases "n < 10")
    case True
    then show ?thesis using is_digit_byte [of n] by (simp add: itoa_small all_digits_def)
  next
    case False
    then show ?thesis using 1 is_digit_byte [of "n mod 10"] by (simp add: itoa_big all_digits_def)
  qed
qed

lemma dec_get_snoc: "dec_get (s @ [b]) = dec_get s * 10 + (unat b - 48)"
  by (simp add: dec_get_def)

lemma dec_get_itoa: "dec_get (itoa n) = n"
proof (induction n rule: itoa.induct)
  case (1 n)
  show ?case
  proof (cases "n < 10")
    case True
    then show ?thesis using digit_byte [of n] dec_get_snoc [of "[]"] by (simp add: itoa_small dec_get_def)
  next
    case False
    then show ?thesis using 1 digit_byte [of "n mod 10"] by (simp add: itoa_big dec_get_snoc)
  qed
qed

lemma itoa_head: "n \<noteq> 0 \<Longrightarrow> itoa n \<noteq> [] \<and> hd (itoa n) \<noteq> 48"
proof (induction n rule: itoa.induct)
  case (1 n)
  show ?case
  proof (cases "n < 10")
    case True
    have "(of_nat (48 + n) :: byte) \<noteq> 48"
    proof
      assume "(of_nat (48 + n) :: byte) = 48"
      then have "unat (of_nat (48 + n) :: byte) = unat (48 :: byte)" by (rule arg_cong)
      then show False using digit_byte [OF True] 1(2) by (simp del: of_nat_add)
    qed
    then show ?thesis using True by (simp add: itoa_small del: of_nat_add)
  next
    case False
    then have "n div 10 \<noteq> 0" by simp
    then show ?thesis using 1(1) [OF False] False by (simp add: itoa_big)
  qed
qed

lemma itoa_inj: "itoa m = itoa n \<Longrightarrow> m = n"
  by (metis dec_get_itoa)

lemma ParseUint64_itoa: "ParseUint64 (itoa (unat (w :: u64))) = Some w"
  using itoa_digits [of "unat w"] u64_less [of w] by (simp add: ParseUint64_def dec_get_itoa)

lemma ParseInt64_itoa:
  assumes "n < 2 ^ 63"
  shows "ParseInt64 (itoa n) = Some (int n)"
proof -
  have "is_digit (hd (itoa n))" "itoa n \<noteq> []" using itoa_digits [of n] by (auto simp: all_digits_def list_all_iff)
  moreover have "\<not> is_digit 45" "\<not> is_digit 43" by (simp_all add: is_digit_def)
  ultimately show ?thesis using itoa_digits [of n] assms by (auto simp: ParseInt64_def dec_get_itoa)
qed

section \<open>Printed values read back\<close>

text \<open>
  The values the broker prints: objects, numbers and strings of characters that need no escape.
\<close>

fun plain_json :: "json \<Rightarrow> bool" where
  "plain_json (JNum s) \<longleftrightarrow> (\<exists>n. s = itoa n)"
| "plain_json (JStr s) \<longleftrightarrow> list_all html_safe s"
| "plain_json (JObj ms) \<longleftrightarrow> (\<forall>(k, v) \<in> set ms. list_all html_safe k \<and> plain_json v)"
| "plain_json JNull \<longleftrightarrow> True"
| "plain_json _ \<longleftrightarrow> False"

fun json_tokens :: "json \<Rightarrow> token list" where
  "json_tokens JNull = [TNull]"
| "json_tokens (JBool b) = [if b then TTrue else TFalse]"
| "json_tokens (JNum s) = [TNum s]"
| "json_tokens (JStr s) = [TStr s]"
| "json_tokens (JArr vs) = [TLBrack] @ join_with TComma (map json_tokens vs) @ [TRBrack]"
| "json_tokens (JObj ms) = [TLBrace] @ join_with TComma (map (\<lambda>(k, v). [TStr k, TColon] @ json_tokens v) ms) @ [TRBrace]"

lemma html_safe_ascii: "html_safe b \<Longrightarrow> unat b < 128"
  by (simp add: html_safe_def)

lemma escape_string_plain: "list_all html_safe s \<Longrightarrow> escape_string s = s"
  by (induction s) (auto simp: html_safe_ascii escape_byte_def)

lemma lex_string_plain: "list_all html_safe s \<Longrightarrow> lex_string (s @ 34 # rest) = Some (s, rest)"
proof (induction s)
  case (Cons b s)
  then have "b \<noteq> 34" "\<not> unat b < 32" "b \<noteq> 92" by (auto simp: html_safe_def)
  then show ?case using Cons by (simp add: emit_def)
qed simp

lemma sanitize_plain: "list_all html_safe s \<Longrightarrow> sanitize s = s"
  by (induction s) (auto simp: rune_length_def html_safe_ascii)

lemma is_digitD: "is_digit b \<Longrightarrow> 48 \<le> unat b \<and> unat b \<le> 57"
  by (simp add: is_digit_def)

lemma digit_not_special: "is_digit b \<Longrightarrow> \<not> is_space b \<and> b \<notin> {123, 125, 91, 93, 58, 44, 34, 116, 102, 110, 45}"
  by (auto simp: is_space_def is_digit_def)

definition num_stop :: "bytes \<Rightarrow> bool" where
  "num_stop bs \<longleftrightarrow> (bs = [] \<or> \<not> is_digit (hd bs) \<and> hd bs \<notin> {46, 101, 69})"

lemma lex_number_itoa:
  assumes "num_stop rest"
  shows "lex_number (itoa n @ rest) = Some (itoa n, rest)"
proof -
  have D: "itoa n \<noteq> []" "list_all is_digit (itoa n)" using itoa_digits [of n] by (auto simp: all_digits_def)
  then have h: "is_digit (hd (itoa n @ rest))" by (cases "itoa n") auto
  then have h45: "hd (itoa n @ rest) \<noteq> 45" using digit_not_special by blast
  have fr: "lex_fraction lit rest = Some (lit, rest)" for lit
    using assms by (auto simp: lex_fraction_def lex_exponent_def num_stop_def)
  show ?thesis
  proof (cases "n = 0")
    case True
    then have "itoa n = [48]" by (simp add: itoa_small)
    then show ?thesis using fr h h45 by (simp add: lex_number_def)
  next
    case False
    have tw: "takeWhile is_digit (itoa n @ rest) = itoa n" "dropWhile is_digit (itoa n @ rest) = rest"
      using D(2) assms by (cases rest; simp add: num_stop_def list_all_iff)+
    have "hd (itoa n @ rest) \<noteq> 48" using itoa_head [OF False] by simp
    then show ?thesis using fr h h45 D(1) by (simp add: lex_number_def tw)
  qed
qed

lemma tokenize_number:
  assumes "num_stop rest" "tokenize rest = Some ts"
  shows "tokenize (itoa n @ rest) = Some (TNum (itoa n) # ts)"
proof -
  obtain d ds where i: "itoa n = d # ds" "is_digit d" using itoa_digits [of n] by (cases "itoa n") (auto simp: all_digits_def)
  note S = digit_not_special [OF i(2)]
  have "d # x \<noteq> str ''true''" "d # x \<noteq> str ''false''" "d # x \<noteq> str ''null''" for x
    using S by (simp_all add: str_def)
  then show ?thesis using lex_number_itoa [OF assms(1), of n] S assms(2) unfolding i(1) by simp
qed

lemma tokenize_string: "list_all html_safe s \<Longrightarrow> tokenize rest = Some ts \<Longrightarrow> tokenize (quote_string s @ rest) = Some (TStr s # ts)"
  by (simp add: quote_string_def escape_string_plain lex_string_plain sanitize_plain is_space_def)

lemma tokenize_spaces [simp]: "tokenize (replicate n 32 @ bs) = tokenize bs"
  by (induction n) (simp_all add: is_space_def)

lemma tokenize_indent [simp]: "tokenize (indent l @ bs) = tokenize bs"
  by (simp add: indent_def is_space_def)

lemma num_stop_simps [simp]: "num_stop (indent l @ bs)" "num_stop (44 # bs)" "num_stop (125 # bs)" "num_stop []"
  by (simp_all add: num_stop_def indent_def is_digit_def)

text \<open>A list of printed elements, from each of them.\<close>

lemma tokenize_join:
  assumes "\<forall>x \<in> set xs. \<forall>rest ts. num_stop rest \<longrightarrow> tokenize rest = Some ts \<longrightarrow> tokenize (f x @ rest) = Some (g x @ ts)"
    and "num_stop rest" "tokenize rest = Some ts"
  shows "tokenize (join_with 44 (map f xs) @ rest) = Some (join_with TComma (map g xs) @ ts)"
  using assms
proof (induction xs)
  case (Cons x xs)
  show ?case
  proof (cases xs)
    case Nil
    then show ?thesis using Cons.prems by simp
  next
    case (Cons y ys)
    then have "tokenize (join_with 44 (map f xs) @ rest) = Some (join_with TComma (map g xs) @ ts)"
      using Cons.IH Cons.prems by simp
    then have "tokenize (44 # join_with 44 (map f xs) @ rest) = Some (TComma # join_with TComma (map g xs) @ ts)"
      by (simp add: is_space_def)
    then show ?thesis using Cons Cons.prems(1) by simp
  qed
qed simp

lemma tokenize_print:
  assumes "plain_json j" "num_stop rest" "tokenize rest = Some ts"
  shows "tokenize (MarshalIndent l j @ rest) = Some (json_tokens j @ ts)"
  using assms
proof (induction j arbitrary: l rest ts)
  case (JObj ms)
  show ?case
  proof (cases "ms = []")
    case True
    then show ?thesis using JObj.prems by (simp add: is_space_def)
  next
    case False
    have el: "\<forall>x \<in> set ms. \<forall>rest ts. num_stop rest \<longrightarrow> tokenize rest = Some ts \<longrightarrow>
        tokenize ((case x of (k, v) \<Rightarrow> indent (Suc l) @ quote_string k @ [58, 32] @ MarshalIndent (Suc l) v) @ rest) =
        Some ((case x of (k, v) \<Rightarrow> [TStr k, TColon] @ json_tokens v) @ ts)"
    proof (intro ballI allI impI)
      fix x rest' ts' assume x: "x \<in> set ms" "num_stop rest'" "tokenize rest' = Some ts'"
      obtain k v where kv: "x = (k, v)" by fastforce
      have pl: "list_all html_safe k" "plain_json v" using JObj.prems(1) x(1) kv by auto
      have "tokenize (MarshalIndent (Suc l) v @ rest') = Some (json_tokens v @ ts')"
        using JObj.IH [of x v] x kv pl(2) by simp
      then have "tokenize ([58, 32] @ MarshalIndent (Suc l) v @ rest') = Some (TColon # json_tokens v @ ts')"
        by (simp add: is_space_def)
      from tokenize_string [OF pl(1) this]
      show "tokenize ((case x of (k, v) \<Rightarrow> indent (Suc l) @ quote_string k @ [58, 32] @ MarshalIndent (Suc l) v) @ rest') =
        Some ((case x of (k, v) \<Rightarrow> [TStr k, TColon] @ json_tokens v) @ ts')"
        by (simp add: kv)
    qed
    have "tokenize (indent l @ [125] @ rest) = Some (TRBrace # ts)" using JObj.prems(3) by (simp add: is_space_def)
    from tokenize_join [OF el num_stop_simps(1) this] False show ?thesis by (simp add: is_space_def)
  qed
next
  case (JNum s)
  then show ?case using tokenize_number by auto
qed (auto simp: tokenize_string str_def is_space_def)

text \<open>The tokens of a value parse to it.\<close>

lemma json_tokens_ne: "json_tokens j \<noteq> []"
  by (cases j) auto

lemma parse_join_members:
  assumes "ms \<noteq> []"
    and "\<forall>(k, v) \<in> set ms. \<forall>n rest. 2 * length (json_tokens v) \<le> n \<longrightarrow> parse_value n (json_tokens v @ rest) = Some (v, rest)"
    and "2 * length (join_with TComma (map (\<lambda>(k, v). [TStr k, TColon] @ json_tokens v) ms)) \<le> n"
  shows "parse_members n (join_with TComma (map (\<lambda>(k, v). [TStr k, TColon] @ json_tokens v) ms) @ TRBrace # rest) = Some (ms, rest)"
  using assms
proof (induction ms arbitrary: n)
  case (Cons m ms)
  obtain k v where m: "m = (k, v)" by fastforce
  have pv: "2 * length (json_tokens v) \<le> n \<Longrightarrow> parse_value n (json_tokens v @ r) = Some (v, r)" for n r
    using Cons.prems(2) m by auto
  show ?case
  proof (cases ms)
    case Nil
    then have "4 + 2 * length (json_tokens v) \<le> n" using Cons.prems(3) m by simp
    then obtain n' where n: "n = Suc n'" "2 * length (json_tokens v) \<le> n'" by (cases n) auto
    then show ?thesis using pv [OF n(2)] Nil m by simp
  next
    case (Cons y ys)
    let ?j = "join_with TComma (map (\<lambda>(k, v). [TStr k, TColon] @ json_tokens v) ms)"
    have len: "6 + 2 * length (json_tokens v) + 2 * length ?j \<le> n" using Cons.prems(3) m Cons by simp
    then obtain n' where n: "n = Suc n'" "2 * length (json_tokens v) \<le> n'" "2 * length ?j \<le> n'" by (cases n) auto
    have "parse_members n' (?j @ TRBrace # rest) = Some (ms, rest)" using Cons.IH [of n'] Cons Cons.prems(2) n(3) by auto
    then show ?thesis using pv [OF n(2)] n(1) m Cons by simp
  qed
qed simp

lemma parse_tokens:
  assumes "plain_json j" "2 * length (json_tokens j) \<le> n"
  shows "parse_value n (json_tokens j @ rest) = Some (j, rest)"
  using assms
proof (induction j arbitrary: n rest)
  case (JObj ms)
  let ?j = "join_with TComma (map (\<lambda>(k, v). [TStr k, TColon] @ json_tokens v) ms)"
  obtain n' where n: "n = Suc n'" "2 * length ?j \<le> n'" using JObj.prems(2) by (cases n) auto
  show ?case
  proof (cases "ms = []")
    case True
    then show ?thesis using n(1) by simp
  next
    case False
    have "\<forall>(k, v) \<in> set ms. \<forall>n rest. 2 * length (json_tokens v) \<le> n \<longrightarrow> parse_value n (json_tokens v @ rest) = Some (v, rest)"
      using JObj.IH JObj.prems(1) by fastforce
    from parse_join_members [OF False this n(2)]
    have p: "parse_members n' (?j @ TRBrace # rest) = Some (ms, rest)" .
    obtain k v ms' where ms: "ms = (k, v) # ms'" using False by (cases ms) auto
    obtain r where "?j = TStr k # r" using ms by (cases ms') auto
    then show ?thesis using p n(1) by simp
  qed
qed (auto simp: numeral_2_eq_2 Suc_le_eq dest!: less_imp_Suc_add)

fun json_depth :: "json \<Rightarrow> nat" where
  "json_depth (JObj ms) = Suc (foldr max (map (\<lambda>(k, v). json_depth v) ms) 0)"
| "json_depth (JArr vs) = Suc (foldr max (map json_depth vs) 0)"
| "json_depth _ = 0"

lemma nesting_ge: "l \<le> nesting l ts"
  by (induction l ts rule: nesting.induct) auto

lemma nesting_tokens: "plain_json j \<Longrightarrow> nesting l (json_tokens j @ ts) \<le> max (l + json_depth j) (nesting l ts)"
proof (induction j arbitrary: l ts)
  case (JObj ms)
  let ?d = "foldr max (map (\<lambda>(k, v). json_depth v) ms) 0"
  have "nesting (Suc l) (join_with TComma (map (\<lambda>(k, v). [TStr k, TColon] @ json_tokens v) ms) @ rest)
      \<le> max (Suc l + ?d) (nesting (Suc l) rest)" for rest
    using JObj
  proof (induction ms)
    case (Cons m ms)
    obtain k v where m: "m = (k, v)" by fastforce
    have v: "nesting (Suc l) (json_tokens v @ r) \<le> max (Suc l + json_depth v) (nesting (Suc l) r)" for r
      using Cons.prems(1) [of m v "Suc l" r] Cons.prems(2) m by simp
    have IH: "nesting (Suc l) (join_with TComma (map (\<lambda>(k, v). [TStr k, TColon] @ json_tokens v) ms) @ rest)
        \<le> max (Suc l + foldr max (map (\<lambda>(k, v). json_depth v) ms) 0) (nesting (Suc l) rest)"
      using Cons by fastforce
    show ?case
    proof (cases ms)
      case Nil
      then show ?thesis using v [of rest] m by auto
    next
      case (Cons y ys)
      then show ?thesis using v [of "TComma # join_with TComma (map (\<lambda>(k, v). [TStr k, TColon] @ json_tokens v) ms) @ rest"] IH m
        by auto
    qed
  qed simp
  from this [of "TRBrace # ts"] show ?case using nesting_ge [of l ts] by auto
qed auto

text \<open>Reading what \<^verbatim>\<open>MarshalIndent\<close> printed gives the value back.\<close>

lemma parse_print:
  assumes "plain_json j" "json_depth j \<le> 10000"
  shows "parse_json (MarshalIndent 0 j) = Some j"
proof -
  have t: "tokenize (MarshalIndent 0 j) = Some (json_tokens j)" using tokenize_print [OF assms(1), of "[]" "[]" 0] by simp
  have "nesting 0 (json_tokens j) \<le> 10000" using nesting_tokens [OF assms(1), of 0 "[]"] assms(2) by simp
  then show ?thesis using t parse_tokens [OF assms(1), of "2 * length (json_tokens j)" "[]"] by (simp add: parse_json_def)
qed

end
