(* ===== verification/Disk.thy ===== *)
theory Disk
  imports Broker_Prelude
begin

text \<open>
  The directory a component keeps its files in, and the system calls the broker makes on it
  through Go's \<^verbatim>\<open>os\<close> package. A call can fail: each one takes the next entry of \<open>faults\<close>, so a
  theorem that holds for every \<open>faults\<close> holds for every pattern of I/O errors and short writes,
  and \<open>faults = []\<close> is a disk that never fails. An open file is named by its path: the broker is
  the only process that touches its directories and never renames or removes a file it goes on
  using.

  \<open>flushed\<close> is the content that an \<^verbatim>\<open>fsync\<close> of the file has made durable, and \<open>entries\<close> the
  names that an \<^verbatim>\<open>fsync\<close> of the directory has.
\<close>

datatype fault = NoFault | Fault nat | Short nat

record disk =
  files :: "(gostring \<times> bytes) list"
  flushed :: "(gostring \<times> bytes) list"
  entries :: "gostring list"
  faults :: "fault list"

definition next_fault :: "disk \<Rightarrow> fault \<times> disk" where
  "next_fault d = (case faults d of [] \<Rightarrow> (NoFault, d) | f # fs \<Rightarrow> (f, d\<lparr>faults := fs\<rparr>))"

text \<open>A call that has no partial effect fails or not; only a write can be cut short.\<close>

definition fails :: "fault \<Rightarrow> bool" where
  "fails f \<longleftrightarrow> (case f of Fault _ \<Rightarrow> True | _ \<Rightarrow> False)"

definition content :: "disk \<Rightarrow> gostring \<Rightarrow> bytes" where
  "content d p = (case map_of (files d) p of None \<Rightarrow> [] | Some c \<Rightarrow> c)"

definition put_file :: "gostring \<Rightarrow> bytes \<Rightarrow> disk \<Rightarrow> disk" where
  "put_file p c d = d\<lparr>files := AList.update p c (files d)\<rparr>"

definition del_file :: "gostring \<Rightarrow> disk \<Rightarrow> disk" where
  "del_file p d = d\<lparr>files := AList.delete p (files d)\<rparr>"

section \<open>System calls\<close>

definition sys_mkdir :: "disk \<Rightarrow> (err + unit) \<times> disk" where
  "sys_mkdir d = (let (f, d) = next_fault d in (if fails f then Inl EIO else Inr (), d))"

definition sys_opendir :: "disk \<Rightarrow> (err + unit) \<times> disk" where
  "sys_opendir d = (let (f, d) = next_fault d in (if fails f then Inl EIO else Inr (), d))"

definition sys_readdir :: "disk \<Rightarrow> (err + gostring list) \<times> disk" where
  "sys_readdir d =
     (let (f, d) = next_fault d in (if fails f then Inl EIO else Inr (sort (remdups (map fst (files d)))), d))"

text \<open>\<^verbatim>\<open>os.OpenFile\<close> with \<^verbatim>\<open>O_CREATE|O_RDWR\<close>, and with \<^verbatim>\<open>O_TRUNC\<close> added.\<close>

definition sys_open_create :: "gostring \<Rightarrow> disk \<Rightarrow> (err + unit) \<times> disk" where
  "sys_open_create p d =
     (let (f, d) = next_fault d in
      if fails f then (Inl EIO, d)
      else (Inr (), if map_of (files d) p = None then put_file p [] d else d))"

definition sys_open_trunc :: "gostring \<Rightarrow> disk \<Rightarrow> (err + unit) \<times> disk" where
  "sys_open_trunc p d =
     (let (f, d) = next_fault d in if fails f then (Inl EIO, d) else (Inr (), put_file p [] d))"

definition sys_open :: "gostring \<Rightarrow> disk \<Rightarrow> (err + unit) \<times> disk" where
  "sys_open p d =
     (let (f, d) = next_fault d in
      (if fails f then Inl EIO else if map_of (files d) p = None then Inl ENOENT else Inr (), d))"

definition sys_stat :: "gostring \<Rightarrow> disk \<Rightarrow> (err + nat) \<times> disk" where
  "sys_stat p d =
     (let (f, d) = next_fault d in
      (if fails f then Inl EIO
       else case map_of (files d) p of None \<Rightarrow> Inl ENOENT | Some c \<Rightarrow> Inr (length c), d))"

text \<open>
  \<^verbatim>\<open>ReadAt\<close> fills the buffer or reports how far it got: \<open>EOF\<close> with the bytes that were there,
  an error for a negative offset.
\<close>

datatype read_result = ReadOk bytes | ReadEOF bytes | ReadErr err

definition sys_pread :: "gostring \<Rightarrow> int \<Rightarrow> nat \<Rightarrow> disk \<Rightarrow> read_result \<times> disk" where
  "sys_pread p pos n d =
     (let (f, d) = next_fault d;
          bs = take n (drop (nat pos) (content d p)) in
      (if fails f \<or> pos < 0 then ReadErr EIO
       else if length bs < n then ReadEOF bs else ReadOk bs, d))"

definition splice :: "bytes \<Rightarrow> nat \<Rightarrow> bytes \<Rightarrow> bytes" where
  "splice c pos bs = take pos (c @ replicate (pos - length c) 0) @ bs @ drop (pos + length bs) c"

text \<open>\<^verbatim>\<open>WriteAt\<close> returns the number of bytes written and an error.\<close>

definition sys_pwrite :: "gostring \<Rightarrow> nat \<Rightarrow> bytes \<Rightarrow> disk \<Rightarrow> (nat \<times> err option) \<times> disk" where
  "sys_pwrite p pos bs d =
     (let (f, d) = next_fault d;
          n = (case f of NoFault \<Rightarrow> length bs | Fault k \<Rightarrow> min k (length bs) | Short k \<Rightarrow> min k (length bs)) in
      ((n, if fails f then Some EIO else None), put_file p (splice (content d p) pos (take n bs)) d))"

definition sys_truncate :: "gostring \<Rightarrow> nat \<Rightarrow> disk \<Rightarrow> (err + unit) \<times> disk" where
  "sys_truncate p n d =
     (let (f, d) = next_fault d in
      if fails f then (Inl EIO, d)
      else (Inr (), put_file p (take n (content d p @ replicate (n - length (content d p)) 0)) d))"

definition sys_fsync :: "gostring \<Rightarrow> disk \<Rightarrow> (err + unit) \<times> disk" where
  "sys_fsync p d =
     (let (f, d) = next_fault d in
      if fails f then (Inl EIO, d)
      else (Inr (), d\<lparr>flushed := AList.update p (content d p) (flushed d)\<rparr>))"

definition sys_close :: "disk \<Rightarrow> (err + unit) \<times> disk" where
  "sys_close d = (let (f, d) = next_fault d in (if fails f then Inl EIO else Inr (), d))"

definition sys_remove :: "gostring \<Rightarrow> disk \<Rightarrow> (err + unit) \<times> disk" where
  "sys_remove p d =
     (let (f, d) = next_fault d in
      if fails f then (Inl EIO, d)
      else if map_of (files d) p = None then (Inl ENOENT, d)
      else (Inr (), del_file p d))"

definition sys_rename :: "gostring \<Rightarrow> gostring \<Rightarrow> disk \<Rightarrow> (err + unit) \<times> disk" where
  "sys_rename p q d =
     (let (f, d) = next_fault d in
      if fails f then (Inl EIO, d)
      else case map_of (files d) p of
        None \<Rightarrow> (Inl ENOENT, d)
      | Some c \<Rightarrow> (Inr (), put_file q c (del_file p d)))"

definition sys_syncdir :: "disk \<Rightarrow> (err + unit) \<times> disk" where
  "sys_syncdir d =
     (let (f, d) = next_fault d in
      if fails f then (Inl EIO, d) else (Inr (), d\<lparr>entries := map fst (files d)\<rparr>))"

text \<open>The disk a new process finds: the same files, and no call fails.\<close>

definition restarted :: "disk \<Rightarrow> disk" where
  "restarted d = d\<lparr>faults := []\<rparr>"

text \<open>
  What a power loss leaves of a file: a prefix of what was written, with all that the last
  \<^verbatim>\<open>fsync\<close> had covered.
\<close>

definition cut_file :: "gostring \<Rightarrow> disk \<Rightarrow> disk \<Rightarrow> bool" where
  "cut_file p d d' \<longleftrightarrow> (case map_of (files d) p of
     None \<Rightarrow> map_of (files d') p = None
   | Some c \<Rightarrow> \<exists>n \<le> length c. map_of (files d') p = Some (take n c) \<and>
       (\<forall>f. map_of (flushed d) p = Some f \<longrightarrow> length f \<le> n \<or> n = length c))"

section \<open>Facts about the calls\<close>

named_theorems disk_simps \<open>what a call leaves on the disk\<close>

lemma map_of_put_file [simp, disk_simps]: "map_of (files (put_file p c d)) = (map_of (files d))(p \<mapsto> c)"
  by (simp add: put_file_def update_conv')

lemma map_of_del_file [simp, disk_simps]: "map_of (files (del_file p d)) = (map_of (files d))(p := None)"
  by (simp add: del_file_def delete_conv')

lemma faults_put_file [simp]: "faults (put_file p c d) = faults d"
  by (simp add: put_file_def)

lemma faults_del_file [simp]: "faults (del_file p d) = faults d"
  by (simp add: del_file_def)

lemma content_put_file [simp]: "content (put_file p c d) q = (if q = p then c else content d q)"
  by (simp add: content_def)

lemma content_Some: "map_of (files d) p = Some c \<Longrightarrow> content d p = c"
  by (simp add: content_def)

lemma next_fault_none [simp]: "faults d = [] \<Longrightarrow> next_fault d = (NoFault, d)"
  by (simp add: next_fault_def)

lemma fails_simps [simp]: "\<not> fails NoFault" "fails (Fault k)" "\<not> fails (Short k)"
  by (simp_all add: fails_def)

lemma next_fault_files [simp]:
  "files (snd (next_fault d)) = files d" "flushed (snd (next_fault d)) = flushed d"
  "entries (snd (next_fault d)) = entries d"
  by (simp_all add: next_fault_def split: list.split)

lemma next_fault_content [simp]: "content (snd (next_fault d)) p = content d p"
  by (simp add: content_def)

lemma content_cong: "files d' = files d \<Longrightarrow> content d' p = content d p"
  by (simp add: content_def)

lemma next_faultD:
  assumes "next_fault d = (f, d')"
  shows "files d' = files d" "flushed d' = flushed d" "entries d' = entries d" "content d' = content d"
    "faults d = [] \<Longrightarrow> f = NoFault \<and> d' = d"
  using assms by (auto simp: next_fault_def content_def fun_eq_iff split: list.splits)

text \<open>A call in cases: it succeeds, or the disk has a fault and it fails.\<close>

lemma sys_fsync_cases:
  assumes "sys_fsync p d = (r, d')"
  obtains "r = Inr ()" "files d' = files d" "map_of (flushed d') = (map_of (flushed d))(p \<mapsto> content d p)"
      "faults d = [] \<longrightarrow> faults d' = []"
  | "r = Inl EIO" "files d' = files d" "flushed d' = flushed d" "faults d \<noteq> []"
proof -
  obtain f d1 where nf: "next_fault d = (f, d1)" by fastforce
  note D = next_faultD [OF nf]
  show ?thesis
  proof (cases "fails f")
    case True
    then show ?thesis using assms D by (intro that(2)) (auto simp: sys_fsync_def nf)
  next
    case False
    then show ?thesis using assms D by (intro that(1)) (auto simp: sys_fsync_def nf update_conv')
  qed
qed

lemma sys_pwrite_facts:
  assumes "sys_pwrite p pos bs d = ((n, e), d')"
  shows "n \<le> length bs" "flushed d' = flushed d" "entries d' = entries d"
    "map_of (files d') = (map_of (files d))(p \<mapsto> splice (content d p) pos (take n bs))"
    "faults d = [] \<Longrightarrow> n = length bs \<and> e = None \<and> faults d' = []"
proof -
  obtain f d1 where nf: "next_fault d = (f, d1)" by fastforce
  note D = next_faultD [OF nf]
  show "n \<le> length bs" "flushed d' = flushed d" "entries d' = entries d"
    "map_of (files d') = (map_of (files d))(p \<mapsto> splice (content d p) pos (take n bs))"
    "faults d = [] \<Longrightarrow> n = length bs \<and> e = None \<and> faults d' = []"
    using assms D by (auto simp: sys_pwrite_def nf Let_def put_file_def update_conv' split: fault.splits)
qed

lemma sys_open_create_facts:
  assumes "sys_open_create p d = (r, d')"
  shows "flushed d' = flushed d" "faults d = [] \<Longrightarrow> r = Inr () \<and> faults d' = []"
    "r = Inr () \<Longrightarrow> map_of (files d') = (map_of (files d))(p \<mapsto> content d p)"
    "r \<noteq> Inr () \<Longrightarrow> files d' = files d"
proof -
  obtain f d1 where nf: "next_fault d = (f, d1)" by fastforce
  note D = next_faultD [OF nf]
  show "flushed d' = flushed d" "faults d = [] \<Longrightarrow> r = Inr () \<and> faults d' = []"
    "r = Inr () \<Longrightarrow> map_of (files d') = (map_of (files d))(p \<mapsto> content d p)"
    "r \<noteq> Inr () \<Longrightarrow> files d' = files d"
    using assms D
    by (auto simp: sys_open_create_def nf Let_def put_file_def update_conv' content_def fun_eq_iff
        split: if_splits)
qed

lemma sys_stat_facts:
  assumes "sys_stat p d = (r, d')"
  shows "files d' = files d" "flushed d' = flushed d"
    "faults d = [] \<Longrightarrow> faults d' = []"
    "faults d = [] \<Longrightarrow> map_of (files d) p = Some c \<Longrightarrow> r = Inr (length c)"
    "r = Inr n \<Longrightarrow> map_of (files d) p \<noteq> None \<and> n = length (content d p)"
proof -
  obtain f d1 where nf: "next_fault d = (f, d1)" by fastforce
  note D = next_faultD [OF nf]
  show "files d' = files d" "flushed d' = flushed d" "faults d = [] \<Longrightarrow> faults d' = []"
    "faults d = [] \<Longrightarrow> map_of (files d) p = Some c \<Longrightarrow> r = Inr (length c)"
    "r = Inr n \<Longrightarrow> map_of (files d) p \<noteq> None \<and> n = length (content d p)"
    using assms D by (auto simp: sys_stat_def nf Let_def content_def split: option.splits if_splits)
qed

lemma sys_close_facts:
  assumes "sys_close d = (r, d')"
  shows "files d' = files d" "flushed d' = flushed d" "faults d = [] \<Longrightarrow> r = Inr () \<and> faults d' = []"
proof -
  obtain f d1 where nf: "next_fault d = (f, d1)" by fastforce
  note D = next_faultD [OF nf]
  show "files d' = files d" "flushed d' = flushed d" "faults d = [] \<Longrightarrow> r = Inr () \<and> faults d' = []"
    using assms D by (auto simp: sys_close_def nf split: if_splits)
qed

lemma sys_mkdir_facts:
  assumes "sys_mkdir d = (r, d')"
  shows "files d' = files d" "faults d = [] \<Longrightarrow> r = Inr () \<and> d' = d" "flushed d' = flushed d" "r = Inl e \<Longrightarrow> e = EIO \<and> faults d \<noteq> []"
proof -
  obtain f d1 where nf: "next_fault d = (f, d1)" by fastforce
  show "files d' = files d" "faults d = [] \<Longrightarrow> r = Inr () \<and> d' = d" "flushed d' = flushed d" "r = Inl e \<Longrightarrow> e = EIO \<and> faults d \<noteq> []"
    using assms next_faultD [OF nf] by (auto simp: sys_mkdir_def nf split: if_splits)
qed

text \<open>A read never changes a file.\<close>

lemma sys_pread_files [simp]: "files (snd (sys_pread p pos n d)) = files d"
  by (simp add: sys_pread_def Let_def split_def)

lemma sys_stat_files [simp]: "files (snd (sys_stat p d)) = files d"
  by (simp add: sys_stat_def Let_def split_def)

lemma sys_fsync_files [simp]: "files (snd (sys_fsync p d)) = files d"
  by (simp add: sys_fsync_def Let_def split_def)

lemma sys_close_files [simp]: "files (snd (sys_close d)) = files d"
  by (simp add: sys_close_def Let_def split_def)

lemma sys_close_flushed [simp]: "flushed (snd (sys_close d)) = flushed d"
  by (simp add: sys_close_def Let_def split_def)

lemma sys_syncdir_files [simp]: "files (snd (sys_syncdir d)) = files d"
  by (simp add: sys_syncdir_def Let_def split_def)

text \<open>A read inside the file returns those bytes or fails; without faults it returns them.\<close>

lemma sys_pread_cases:
  assumes "pos + n \<le> length (content d p)"
  shows "\<exists>d'. files d' = files d \<and>
    (sys_pread p (int pos) n d = (ReadOk (take n (drop pos (content d p))), d') \<and> (faults d = [] \<longrightarrow> d' = d)
     \<or> sys_pread p (int pos) n d = (ReadErr EIO, d') \<and> faults d \<noteq> [])"
  using assms by (cases "faults d") (auto simp: sys_pread_def next_fault_def Let_def content_def)

lemma splice_append: "splice c (length c) bs = c @ bs"
  by (simp add: splice_def)

end
