(* ===== verification/Record_Format.thy ===== *)
theory Record_Format
  imports Broker_Prelude
begin

text \<open>
  The record model (\<^verbatim>\<open>internal/model/record.go\<close>) and the on-disk batch format
  (\<^verbatim>\<open>internal/storage/format.go\<close>): \<open>EncodeBatch\<close> with its pre-sized buffer, \<open>DecodeBatch\<close> with its
  bounds checks, and the lemmas that the two are inverse to each other on every batch that
  fits the format, that the pre-computed size is exact, and what a damaged batch decodes to.

  A nil key or value is \<open>None\<close>, an empty one \<open>Some []\<close>. The code never tells a nil header
  list or header value from an empty one, so those are plain lists.
\<close>

section \<open>Records\<close>

record header =
  hKey :: gostring
  hValue :: bytes

record model_record =
  rKey :: "bytes option"
  rValue :: "bytes option"
  rHeaders :: "header list"
  rTimestamp :: i64

record stored_record =
  srOffset :: u64
  srTimestamp :: i64
  srKey :: "bytes option"
  srValue :: "bytes option"
  srHeaders :: "header list"

type_synonym batch = "stored_record list"

text \<open>\<^verbatim>\<open>len\<close> of a possibly nil slice.\<close>

definition olen :: "bytes option \<Rightarrow> nat" where
  "olen b = (case b of None \<Rightarrow> 0 | Some xs \<Rightarrow> length xs)"

lemma olen_simps [simp]: "olen None = 0" "olen (Some xs) = length xs"
  by (simp_all add: olen_def)

section \<open>Layout constants\<close>

definition MagicBytes :: bytes where
  "MagicBytes = [0x50, 0x47, 0x4C, 0x47]"

definition FormatVersion1 :: byte where
  "FormatVersion1 = 1"

definition BatchHeaderSize :: nat where
  "BatchHeaderSize = 33"

definition MinimumBatchRemainder :: nat where
  "MinimumBatchRemainder = BatchHeaderSize - 4 - 1 - 4"

definition MinimumRecordSize :: nat where
  "MinimumRecordSize = 24"

lemma layout_simps [simp]:
  "BatchHeaderSize = 33" "MinimumBatchRemainder = 24" "MinimumRecordSize = 24"
  by (simp_all add: BatchHeaderSize_def MinimumBatchRemainder_def MinimumRecordSize_def)

lemma length_MagicBytes [simp, go_len]: "length MagicBytes = 4"
  by (simp add: MagicBytes_def)

section \<open>EncodeBatch\<close>

definition max_timestamp :: "stored_record list \<Rightarrow> i64" where
  "max_timestamp rs = foldl (\<lambda>m r. if sint (srTimestamp r) > sint m then srTimestamp r else m) 0 rs"

definition header_payload :: "header \<Rightarrow> nat" where
  "header_payload h = 8 + length (hKey h) + length (hValue h)"

definition record_payload :: "stored_record \<Rightarrow> nat" where
  "record_payload r =
     MinimumRecordSize + (if olen (srKey r) > 0 then olen (srKey r) else 0)
     + (if olen (srValue r) > 0 then olen (srValue r) else 0)
     + sum_list (map header_payload (srHeaders r))"

text \<open>The fields of one record, in the order they are written.\<close>

definition opt_fields :: "bytes option \<Rightarrow> bytes list" where
  "opt_fields b =
     (case b of None \<Rightarrow> [PutUint32 0xFFFFFFFF] | Some xs \<Rightarrow> [PutUint32 (of_nat (length xs)), xs])"

definition header_fields :: "header \<Rightarrow> bytes list" where
  "header_fields h =
     [PutUint32 (of_nat (length (hKey h))), hKey h, PutUint32 (of_nat (length (hValue h))), hValue h]"

definition record_fields :: "u64 \<Rightarrow> i64 \<Rightarrow> stored_record \<Rightarrow> bytes list" where
  "record_fields baseOffset maxTimestamp r =
     [PutUint32 (ucast (srOffset r - baseOffset)), PutUint64 (maxTimestamp - srTimestamp r)]
     @ opt_fields (srKey r) @ opt_fields (srValue r)
     @ PutUint32 (of_nat (length (srHeaders r))) # concat (map header_fields (srHeaders r))"

definition EncodeBatch :: "stored_record list \<Rightarrow> err + bytes" where
  "EncodeBatch records =
     (case records of
        [] \<Rightarrow> Inl ErrEmptyBatch
      | r0 # _ \<Rightarrow>
         let baseOffset = srOffset r0;
             maxTimestamp = max_timestamp records;
             totalSize = BatchHeaderSize + sum_list (map record_payload records);
             buf = replicate totalSize 0;
             buf = blit buf 0 MagicBytes;
             buf = blit buf 4 [FormatVersion1];
             buf = blit buf 5 (PutUint32 (of_nat (totalSize - 9)));
             buf = blit buf 13 (PutUint64 baseOffset);
             buf = blit buf 21 (PutUint32 (of_nat (length records)));
             buf = blit buf 25 (PutUint64 maxTimestamp)
         in rbind (write_chunks (concat (map (record_fields baseOffset maxTimestamp) records))
                     buf BatchHeaderSize)
              (\<lambda>(buf, offset).
                 let checksum = ChecksumIEEE (gslice buf 13 totalSize);
                     buf = blit buf 9 (PutUint32 checksum)
                 in Inr (take offset buf)))"

subsection \<open>The encoding as a concatenation\<close>

definition record_bytes :: "u64 \<Rightarrow> i64 \<Rightarrow> stored_record \<Rightarrow> bytes" where
  "record_bytes base mt r = concat (record_fields base mt r)"

definition batch_body :: "stored_record list \<Rightarrow> bytes" where
  "batch_body rs =
     PutUint64 (srOffset (hd rs)) @ PutUint32 (of_nat (length rs)) @ PutUint64 (max_timestamp rs)
     @ concat (map (record_bytes (srOffset (hd rs)) (max_timestamp rs)) rs)"

definition frame_bytes :: "bytes \<Rightarrow> bytes" where
  "frame_bytes body =
     MagicBytes @ [FormatVersion1] @ PutUint32 (of_nat (4 + length body))
     @ PutUint32 (ChecksumIEEE body) @ body"

definition batch_bytes :: "stored_record list \<Rightarrow> bytes" where
  "batch_bytes rs = frame_bytes (batch_body rs)"

lemma length_opt_fields [go_len]: "length (concat (opt_fields b)) = 4 + olen b"
  by (cases b) (auto simp: opt_fields_def)

lemma length_header_fields [go_len]: "length (concat (header_fields h)) = header_payload h"
  by (simp add: header_fields_def header_payload_def)

lemma length_concat_header_fields [go_len]:
  "length (concat (concat (map header_fields hs))) = sum_list (map header_payload hs)"
  by (induction hs) (auto simp: length_header_fields)

lemma length_record_bytes [go_len]: "length (record_bytes base mt r) = record_payload r"
  by (simp add: record_bytes_def record_fields_def record_payload_def go_len
      del: length_concat concat_append) (simp add: go_len)

lemma length_concat_record_bytes [go_len]:
  "length (concat (map (record_bytes base mt) rs)) = sum_list (map record_payload rs)"
  by (induction rs) (auto simp: length_record_bytes)

lemma length_batch_body [go_len]: "length (batch_body rs) = 20 + sum_list (map record_payload rs)"
  by (simp add: batch_body_def length_concat_record_bytes del: length_concat)

lemma length_frame_bytes [go_len]: "length (frame_bytes body) = 13 + length body"
  by (simp add: frame_bytes_def)

lemma length_batch_bytes [go_len]: "length (batch_bytes rs) = 33 + sum_list (map record_payload rs)"
  by (simp add: batch_bytes_def length_frame_bytes length_batch_body)

lemma concat_fields_eq:
  "concat (concat (map (record_fields base mt) rs)) = concat (map (record_bytes base mt) rs)"
  by (induction rs) (auto simp: record_bytes_def)

text \<open>
  The buffer holds exactly the seven header fields and the records: no field is cut short and
  none of the pre-allocated space is left over.
\<close>

lemma header_blits:
  assumes "length l = 4" "length b = 8" "length n = 4" "length t = 8"
  shows "blit (blit (blit (blit (blit (blit (replicate (33 + p) 0) 0 MagicBytes) 4 [FormatVersion1])
           5 l) 13 b) 21 n) 25 t
    = (MagicBytes @ [FormatVersion1] @ l @ replicate 4 0 @ b @ n @ t) @ replicate p 0"
proof -
  let ?z = "\<lambda>n. replicate n (0 :: byte)"
  have split: "?z (33 + p) = [] @ ?z 4 @ ?z 29 @ ?z p" "?z 29 = ?z 1 @ ?z 28" "?z 28 = ?z 4 @ ?z 24"
    "?z 24 = ?z 4 @ ?z 20" "?z 20 = ?z 8 @ ?z 12" "?z 12 = ?z 4 @ ?z 8"
    unfolding append_Nil replicate_add [symmetric] by simp_all
  have 1: "blit (?z (33 + p)) 0 MagicBytes = MagicBytes @ ?z 1 @ ?z 28 @ ?z p"
    unfolding split(1,2) by (subst blit_mid) simp_all
  have 2: "blit (MagicBytes @ ?z 1 @ ?z 28 @ ?z p) 4 [FormatVersion1]
      = MagicBytes @ [FormatVersion1] @ ?z 28 @ ?z p"
    by (rule blit_mid) simp_all
  have 3: "blit (MagicBytes @ [FormatVersion1] @ ?z 28 @ ?z p) 5 l
      = (MagicBytes @ [FormatVersion1]) @ l @ ?z 24 @ ?z p"
    using blit_mid [of 5 "MagicBytes @ [FormatVersion1]" l "?z 4" "?z 24 @ ?z p"] assms
    by (simp add: split(3))
  have 4: "blit ((MagicBytes @ [FormatVersion1]) @ l @ ?z 24 @ ?z p) 13 b
      = (MagicBytes @ [FormatVersion1] @ l @ ?z 4) @ b @ ?z 12 @ ?z p"
    using blit_mid [of 13 "MagicBytes @ [FormatVersion1] @ l @ ?z 4" b "?z 8" "?z 12 @ ?z p"] assms
    by (simp add: split(4,5))
  have 5: "blit ((MagicBytes @ [FormatVersion1] @ l @ ?z 4) @ b @ ?z 12 @ ?z p) 21 n
      = (MagicBytes @ [FormatVersion1] @ l @ ?z 4 @ b) @ n @ ?z 8 @ ?z p"
    using blit_mid [of 21 "MagicBytes @ [FormatVersion1] @ l @ ?z 4 @ b" n "?z 4" "?z 8 @ ?z p"] assms
    by (simp add: split(6))
  have 6: "blit ((MagicBytes @ [FormatVersion1] @ l @ ?z 4 @ b) @ n @ ?z 8 @ ?z p) 25 t
      = (MagicBytes @ [FormatVersion1] @ l @ ?z 4 @ b @ n) @ t @ ?z p"
    using blit_mid [of 25 "MagicBytes @ [FormatVersion1] @ l @ ?z 4 @ b @ n" t "?z 8" "?z p"] assms
    by simp
  show ?thesis unfolding 1 2 3 4 5 6 by simp
qed

lemma EncodeBatch_Nil: "EncodeBatch [] = Inl ErrEmptyBatch"
  by (simp add: EncodeBatch_def)

lemma EncodeBatch_batch_bytes:
  assumes "rs \<noteq> []"
  shows "EncodeBatch rs = Inr (batch_bytes rs)"
proof -
  obtain r0 rest where rs: "rs = r0 # rest" using assms by (cases rs) auto
  define p where "p = sum_list (map record_payload rs)"
  define base where "base = srOffset r0"
  define mt where "mt = max_timestamp rs"
  define recs where "recs = concat (map (record_bytes base mt) rs)"
  define l where "l = PutUint32 (of_nat (33 + p - 9))"
  define body where "body = PutUint64 base @ PutUint32 (of_nat (length rs)) @ PutUint64 mt @ recs"
  define pre where "pre = MagicBytes @ [FormatVersion1] @ l"
  define hdr where "hdr = pre @ replicate 4 0 @ PutUint64 base @ PutUint32 (of_nat (length rs)) @ PutUint64 mt"
  have len_recs: "length recs = p"
    by (simp add: recs_def p_def length_concat_record_bytes del: length_concat)
  have len_pre: "length pre = 9" by (simp add: pre_def l_def)
  have len_hdr: "length hdr = 33" by (simp add: hdr_def len_pre)
  have fields: "concat (concat (map (record_fields base mt) rs)) = recs"
    by (simp add: recs_def concat_fields_eq)
  have w: "write_chunks (concat (map (record_fields base mt) rs)) (hdr @ replicate p 0) 33
      = Inr (hdr @ recs, 33 + p)"
    using len_recs len_hdr by (subst write_chunks_eq) (auto simp: fields blit_def)
  have hb: "hdr @ recs = pre @ replicate 4 0 @ body" by (simp add: hdr_def body_def)
  have chk: "gslice (hdr @ recs) 13 (33 + p) = body"
    unfolding hb using len_pre len_recs by (simp add: gslice_def body_def)
  have crc: "blit (hdr @ recs) 9 (PutUint32 (ChecksumIEEE body)) = pre @ PutUint32 (ChecksumIEEE body) @ body"
    unfolding hb using len_pre by (intro blit_mid) simp_all
  have bb: "batch_bytes rs = pre @ PutUint32 (ChecksumIEEE body) @ body"
    by (simp add: batch_bytes_def frame_bytes_def batch_body_def pre_def l_def body_def rs base_def
        mt_def [unfolded rs] recs_def [unfolded rs] p_def [unfolded rs]
        length_record_bytes length_concat_record_bytes del: length_concat)
  have "EncodeBatch rs = rbind (write_chunks (concat (map (record_fields base mt) rs))
        (hdr @ replicate p 0) 33)
      (\<lambda>(buf, offset). Inr (take offset (blit buf 9 (PutUint32 (ChecksumIEEE (gslice buf 13 (33 + p)))))))"
    unfolding EncodeBatch_def rs list.case Let_def layout_simps
    unfolding rs [symmetric] base_def [symmetric] mt_def [symmetric] p_def [symmetric] l_def [symmetric]
    by (subst header_blits) (simp_all add: hdr_def pre_def l_def)
  also have "\<dots> = Inr (batch_bytes rs)"
    unfolding w rbind.simps prod.case chk crc bb using len_pre len_recs by (simp add: body_def)
  finally show ?thesis .
qed

section \<open>DecodeBatch\<close>

text \<open>A Go integer division truncates towards zero.\<close>

definition go_div :: "int \<Rightarrow> int \<Rightarrow> int" where
  "go_div a b = sgn a * sgn b * (\<bar>a\<bar> div \<bar>b\<bar>)"

text \<open>A length-prefixed field after its length \<open>len\<close> (an \<^verbatim>\<open>int32\<close>) was read.\<close>

definition decode_opt :: "bytes \<Rightarrow> nat \<Rightarrow> nat \<Rightarrow> int \<Rightarrow> err + bytes option \<times> nat" where
  "decode_opt data limit off len =
     (if len > 0 then
        if int off + len > int limit then Inl ErrCorruptBatch
        else Inr (Some (gslice data off (off + nat len)), off + nat len)
      else if len = 0 then Inr (Some [], off)
      else if len < -1 then Inl ErrCorruptBatch
      else Inr (None, off))"

definition decode_header :: "bytes \<Rightarrow> nat \<Rightarrow> nat \<Rightarrow> err + header \<times> nat" where
  "decode_header data limit off =
     (if off + 8 > limit then Inl ErrCorruptBatch else
      rbind (u32_at data off) (\<lambda>hkLen.
      let off = off + 4 in
      if off + unat hkLen > limit then Inl ErrCorruptBatch else
      let hk = gslice data off (off + unat hkLen); off = off + unat hkLen in
      rbind (u32_at data off) (\<lambda>hvLen.
      let off = off + 4 in
      if off + unat hvLen > limit then Inl ErrCorruptBatch else
      let hv = gslice data off (off + unat hvLen) in
      Inr (\<lparr>hKey = hk, hValue = hv\<rparr>, off + unat hvLen))))"

fun decode_headers :: "bytes \<Rightarrow> nat \<Rightarrow> nat \<Rightarrow> nat \<Rightarrow> err + header list \<times> nat" where
  "decode_headers data limit 0 off = Inr ([], off)"
| "decode_headers data limit (Suc n) off =
     rbind (decode_header data limit off) (\<lambda>(h, off).
     rbind (decode_headers data limit n off) (\<lambda>(hs, off).
     Inr (h # hs, off)))"

definition decode_record ::
  "bytes \<Rightarrow> nat \<Rightarrow> u64 \<Rightarrow> i64 \<Rightarrow> nat \<Rightarrow> err + stored_record \<times> nat" where
  "decode_record data limit baseOffset maxTimestamp off =
     (if off + MinimumRecordSize > limit then Inl ErrCorruptBatch else
      rbind (u32_at data off) (\<lambda>offsetDelta.
      rbind (u64_at data (off + 4)) (\<lambda>timestampDelta.
      if sint timestampDelta < 0 then Inl ErrCorruptBatch else
      rbind (u32_at data (off + 12)) (\<lambda>keyLenVal.
      rbind (decode_opt data limit (off + 16) (sint keyLenVal)) (\<lambda>(key, off).
      rbind (u32_at data off) (\<lambda>valueLenVal.
      rbind (decode_opt data limit (off + 4) (sint valueLenVal)) (\<lambda>(val, off).
      rbind (u32_at data off) (\<lambda>headerCount.
      let off = off + 4 in
      if headerCount > word_of_int (go_div (int limit - int off) 8) then Inl ErrCorruptBatch else
      rbind (decode_headers data limit (unat headerCount) off) (\<lambda>(headers, off).
      Inr (\<lparr>srOffset = baseOffset + ucast offsetDelta,
            srTimestamp = maxTimestamp - timestampDelta,
            srKey = key, srValue = val, srHeaders = headers\<rparr>, off))))))))))"

fun decode_records ::
  "bytes \<Rightarrow> nat \<Rightarrow> u64 \<Rightarrow> i64 \<Rightarrow> nat \<Rightarrow> nat \<Rightarrow> err + stored_record list \<times> nat" where
  "decode_records data limit baseOffset maxTimestamp 0 off = Inr ([], off)"
| "decode_records data limit baseOffset maxTimestamp (Suc n) off =
     rbind (decode_record data limit baseOffset maxTimestamp off) (\<lambda>(r, off).
     rbind (decode_records data limit baseOffset maxTimestamp n off) (\<lambda>(rs, off).
     Inr (r # rs, off)))"

definition DecodeBatch :: "bytes \<Rightarrow> err + stored_record list" where
  "DecodeBatch data =
     (if length data < BatchHeaderSize then Inl ErrCorruptBatch
      else if gslice data 0 4 \<noteq> MagicBytes then Inl ErrMalformedMagic
      else if data ! 4 \<noteq> FormatVersion1 then Inl ErrUnsupportedVersion
      else
      let batchLength = Uint32 (gslice data 5 9) in
      if unat batchLength < MinimumBatchRemainder then Inl ErrCorruptBatch
      else
      let totalExpectedSize = 9 + unat batchLength in
      if length data < totalExpectedSize then Inl ErrCorruptBatch
      else if Uint32 (gslice data 9 13) \<noteq> ChecksumIEEE (gslice data 13 totalExpectedSize)
        then Inl ErrCorruptBatch
      else
      let baseOffset = Uint64 (gslice data 13 21);
          recordCount = Uint32 (gslice data 21 25);
          maxTimestamp = Uint64 (gslice data 25 33);
          remainderBytes = int (unat batchLength) - 20 in
      if recordCount > word_of_int (go_div remainderBytes (int MinimumRecordSize))
        then Inl ErrCorruptBatch
      else if recordCount = 0 then Inr []
      else
      rbind (decode_records data totalExpectedSize baseOffset maxTimestamp (unat recordCount)
               BatchHeaderSize) (\<lambda>(records, offset).
      if offset \<noteq> totalExpectedSize then Inl ErrCorruptBatch else Inr records))"

section \<open>Round trip\<close>

lemma sint_of_nat_u32: "n < 2 ^ 31 \<Longrightarrow> sint (of_nat n :: u32) = int n"
  by (simp add: signed_of_nat signed_take_bit_int_eq_self)

lemma unat_of_nat_u32: "n < 2 ^ 32 \<Longrightarrow> unat (of_nat n :: u32) = n"
  by (simp add: unat_of_nat)

lemma count_check:
  assumes "n * k \<le> m" "0 < k" "m < 2 ^ 32"
  shows "\<not> word_of_int (go_div (int m) (int k)) < (of_nat n :: u32)"
proof -
  have "n \<le> m div k" using assms(1,2) by (simp add: less_eq_div_iff_mult_less_eq)
  moreover have "m div k \<le> m" by (rule div_le_dividend)
  moreover have "go_div (int m) (int k) = int (m div k)"
    using assms(2) by (cases "m = 0") (auto simp: go_div_def zdiv_int)
  moreover have "m div k < 2 ^ 32" "n < 2 ^ 32" using calculation(1,2) assms(3) by linarith+
  ultimately show ?thesis
    by (simp add: word_less_nat_alt unat_of_nat)
qed

lemma decode_opt_ok:
  assumes "sub_at data off (concat (opt_fields b))" "off + 4 + olen b \<le> limit" "olen b < 2 ^ 31"
  shows "\<exists>w. u32_at data off = Inr w \<and> decode_opt data limit (off + 4) (sint w) = Inr (b, off + 4 + olen b)"
proof (cases b)
  case None
  then have "u32_at data off = Inr 0xFFFFFFFF"
    using assms(1) by (intro u32_at_sub) (simp add: opt_fields_def)
  then show ?thesis using None by (auto simp: decode_opt_def)
next
  case (Some xs)
  then have len: "u32_at data off = Inr (of_nat (length xs))" and pay: "sub_at data (off + 4) xs"
    using assms(1) by (auto simp: opt_fields_def sub_at_append u32_at_sub)
  have s: "sint (of_nat (length xs) :: u32) = int (length xs)"
    using assms(3) Some by (intro sint_of_nat_u32) simp
  have "gslice data (off + 4) (off + 4 + length xs) = xs"
    using pay by (rule sub_at_gslice) simp
  then have "decode_opt data limit (off + 4) (int (length xs)) = Inr (b, off + 4 + olen b)"
    using assms(2) Some by (auto simp: decode_opt_def add.assoc)
  then show ?thesis using len s by auto
qed

lemma decode_header_ok:
  assumes "sub_at data off (concat (header_fields h))" "off + header_payload h \<le> limit"
    and "header_payload h < 2 ^ 32"
  shows "decode_header data limit off = Inr (h, off + header_payload h)"
proof -
  let ?k = "length (hKey h)" and ?v = "length (hValue h)"
  have lens: "unat (of_nat ?k :: u32) = ?k" "unat (of_nat ?v :: u32) = ?v"
    using assms(3) by (auto simp: header_payload_def unat_of_nat)
  have fields: "u32_at data off = Inr (of_nat ?k)" "sub_at data (off + 4) (hKey h)"
    "u32_at data (off + 4 + ?k) = Inr (of_nat ?v)" "sub_at data (off + 8 + ?k) (hValue h)"
    using assms(1) by (auto simp: header_fields_def sub_at_append u32_at_sub add.assoc add.commute add.left_commute)
  have "gslice data (off + 4) (off + 4 + ?k) = hKey h" using fields(2) by (rule sub_at_gslice) simp
  moreover have "gslice data (off + 8 + ?k) (off + 8 + ?k + ?v) = hValue h"
    using fields(4) by (rule sub_at_gslice) simp
  ultimately show ?thesis
    using assms(2) fields(1,3) by (simp add: decode_header_def lens header_payload_def Let_def add.assoc add.commute add.left_commute)
qed

lemma decode_headers_ok:
  assumes "sub_at data off (concat (concat (map header_fields hs)))"
    and "off + sum_list (map header_payload hs) \<le> limit" and "sum_list (map header_payload hs) < 2 ^ 32"
  shows "decode_headers data limit (length hs) off = Inr (hs, off + sum_list (map header_payload hs))"
  using assms
proof (induction hs arbitrary: off)
  case (Cons h hs)
  from Cons.prems(1) have here: "sub_at data off (concat (header_fields h))"
    and rest: "sub_at data (off + header_payload h) (concat (concat (map header_fields hs)))"
    using length_header_fields [of h] by (simp_all add: sub_at_append)
  have "decode_header data limit off = Inr (h, off + header_payload h)"
    using Cons.prems by (intro decode_header_ok here) auto
  moreover have "decode_headers data limit (length hs) (off + header_payload h)
      = Inr (hs, off + header_payload h + sum_list (map header_payload hs))"
    using Cons.prems by (intro Cons.IH rest) auto
  ultimately show ?case by (simp add: add.assoc)
qed simp

lemma header_payload_ge: "length hs * 8 \<le> sum_list (map header_payload hs)"
  by (induction hs) (auto simp: header_payload_def)

lemma decode_record_ok:
  assumes at: "sub_at data off (record_bytes base mt r)" and lim: "off + record_payload r \<le> limit"
    and small: "limit < 2 ^ 31"
    and delta: "unat (srOffset r - base) < 2 ^ 32" and ts: "\<not> sint (mt - srTimestamp r) < 0"
  shows "decode_record data limit base mt off = Inr (r, off + record_payload r)"
proof -
  let ?k = "olen (srKey r)" and ?v = "olen (srValue r)" and ?hs = "srHeaders r"
  let ?h = "sum_list (map header_payload ?hs)"
  have pay: "record_payload r = 24 + ?k + ?v + ?h" by (simp add: record_payload_def)
  have fields: "u32_at data off = Inr (ucast (srOffset r - base))"
    "u64_at data (off + 4) = Inr (mt - srTimestamp r)"
    "sub_at data (off + 12) (concat (opt_fields (srKey r)))"
    "sub_at data (off + 16 + ?k) (concat (opt_fields (srValue r)))"
    "u32_at data (off + 20 + ?k + ?v) = Inr (of_nat (length ?hs))"
    "sub_at data (off + 24 + ?k + ?v) (concat (concat (map header_fields ?hs)))"
    using at by (auto simp: record_bytes_def record_fields_def sub_at_append length_opt_fields
        u32_at_sub u64_at_sub ac_simps simp del: length_concat)
  have bounds: "off + 12 + 4 + ?k \<le> limit" "?k < 2 ^ 31" "off + 16 + ?k + 4 + ?v \<le> limit" "?v < 2 ^ 31"
    using lim small pay by linarith+
  obtain kw where key: "u32_at data (off + 12) = Inr kw"
    "decode_opt data limit (off + 12 + 4) (sint kw) = Inr (srKey r, off + 12 + 4 + ?k)"
    using decode_opt_ok [OF fields(3) bounds(1,2)] by blast
  obtain vw where val: "u32_at data (off + 16 + ?k) = Inr vw"
    "decode_opt data limit (off + 16 + ?k + 4) (sint vw) = Inr (srValue r, off + 16 + ?k + 4 + ?v)"
    using decode_opt_ok [OF fields(4) bounds(3,4)] by blast
  have hdrs: "decode_headers data limit (length ?hs) (off + 24 + ?k + ?v) = Inr (?hs, off + 24 + ?k + ?v + ?h)"
    using lim small pay by (intro decode_headers_ok fields(6)) auto
  have n: "length ?hs * 8 \<le> limit - (off + 24 + ?k + ?v)"
    using header_payload_ge [of ?hs] lim pay by simp
  have cnt: "\<not> word_of_int (go_div (int limit - int (off + 24 + ?k + ?v)) 8) < (of_nat (length ?hs) :: u32)"
    using count_check [OF n] lim small pay by simp
  have unh: "unat (of_nat (length ?hs) :: u32) = length ?hs"
    using n small by (intro unat_of_nat_u32) simp
  have od: "base + ucast (ucast (srOffset r - base) :: u32) = srOffset r"
  proof -
    have "unat (ucast (srOffset r - base) :: u32) = unat (srOffset r - base)"
      using delta by (rule unat_ucast_u32)
    then have "(ucast (ucast (srOffset r - base) :: u32) :: u64) = srOffset r - base"
      by (simp add: word_unat_eq_iff)
    then show ?thesis by simp
  qed
  have "\<not> off + 24 > limit" using lim pay by simp
  then show ?thesis
    using fields(1,2,5) key val hdrs cnt unh od ts pay
    by (simp add: decode_record_def Let_def ac_simps del: of_nat_add)
qed

lemma decode_records_ok:
  assumes "sub_at data off (concat (map (record_bytes base mt) rs))"
    and "off + sum_list (map record_payload rs) \<le> limit" and "limit < 2 ^ 31"
    and "\<forall>r \<in> set rs. unat (srOffset r - base) < 2 ^ 32 \<and> \<not> sint (mt - srTimestamp r) < 0"
  shows "decode_records data limit base mt (length rs) off
    = Inr (rs, off + sum_list (map record_payload rs))"
  using assms
proof (induction rs arbitrary: off)
  case (Cons r rs)
  from Cons.prems(1) have here: "sub_at data off (record_bytes base mt r)"
    and rest: "sub_at data (off + record_payload r) (concat (map (record_bytes base mt) rs))"
    by (simp_all add: sub_at_append length_record_bytes)
  have "decode_record data limit base mt off = Inr (r, off + record_payload r)"
    using Cons.prems by (intro decode_record_ok here) auto
  moreover have "decode_records data limit base mt (length rs) (off + record_payload r)
      = Inr (rs, off + record_payload r + sum_list (map record_payload rs))"
    using Cons.prems by (intro Cons.IH rest) auto
  ultimately show ?case by (simp add: add.assoc)
qed simp

text \<open>
  What a batch must satisfy to survive the format: its offsets lie within \<open>2 ^ 32\<close> of the first,
  no timestamp is more than \<open>2 ^ 63 - 1\<close> below the largest, and the whole encoding is shorter than
  \<open>2 ^ 31\<close> bytes (lengths are read back as \<^verbatim>\<open>int32\<close>).
\<close>

definition encodable :: "stored_record list \<Rightarrow> bool" where
  "encodable rs \<longleftrightarrow> rs \<noteq> [] \<and> length (batch_bytes rs) < 2 ^ 31 \<and>
     (\<forall>r \<in> set rs. unat (srOffset r - srOffset (hd rs)) < 2 ^ 32 \<and>
        \<not> sint (max_timestamp rs - srTimestamp r) < 0)"

lemma record_payload_ge: "length rs * 24 \<le> sum_list (map record_payload rs)"
  by (induction rs) (auto simp: record_payload_def)

lemma frame_sub_at:
  assumes "sub_at data 0 (frame_bytes body)"
  shows "gslice data 0 4 = MagicBytes" "data ! 4 = FormatVersion1"
    "Uint32 (gslice data 5 9) = of_nat (4 + length body)"
    "Uint32 (gslice data 9 13) = ChecksumIEEE body"
    "sub_at data 13 body" "13 + length body \<le> length data"
proof -
  have at: "sub_at data 0 MagicBytes" "sub_at data 4 [FormatVersion1]"
    "sub_at data 5 (PutUint32 (of_nat (4 + length body)))"
    "sub_at data 9 (PutUint32 (ChecksumIEEE body))" "sub_at data 13 body"
    using assms unfolding frame_bytes_def sub_at_append by simp_all
  show "gslice data 0 4 = MagicBytes" by (rule sub_at_gslice [OF at(1)]) simp
  have "take 1 (drop 4 data) = [FormatVersion1]" "4 < length data"
    using at(2) by (simp_all add: sub_at_def)
  then show "data ! 4 = FormatVersion1"
    by (metis Cons_nth_drop_Suc One_nat_def list.inject take_Suc_Cons)
  show "Uint32 (gslice data 5 9) = of_nat (4 + length body)"
    using sub_at_gslice [OF at(3), of 9] by simp
  show "Uint32 (gslice data 9 13) = ChecksumIEEE body"
    using sub_at_gslice [OF at(4), of 13] by simp
  show "sub_at data 13 body" by (rule at(5))
  then show "13 + length body \<le> length data" by (rule sub_at_bound)
qed

text \<open>
  On a buffer that starts with a frame of a body of a header at least, decoding is decoding of
  the body's header and records: magic, version, length and checksum all pass.
\<close>

lemma DecodeBatch_frame:
  assumes at: "sub_at data 0 (frame_bytes body)" and len: "20 \<le> length body" "length body < 2 ^ 31"
  shows "DecodeBatch data =
    (let baseOffset = Uint64 (gslice data 13 21);
         recordCount = Uint32 (gslice data 21 25);
         maxTimestamp = Uint64 (gslice data 25 33) in
     if recordCount > word_of_int (go_div (int (length body) - 16) 24) then Inl ErrCorruptBatch
     else if recordCount = 0 then Inr []
     else rbind (decode_records data (13 + length body) baseOffset maxTimestamp (unat recordCount) 33)
       (\<lambda>(records, offset). if offset \<noteq> 13 + length body then Inl ErrCorruptBatch else Inr records))"
proof -
  note f = frame_sub_at [OF at]
  have bl: "unat (of_nat (4 + length body) :: u32) = 4 + length body"
    using len by (intro unat_of_nat_u32) simp
  have "gslice data 13 (13 + length body) = body" using f(5) by (rule sub_at_gslice) simp
  then show ?thesis
    using f(6) len
    by (simp only: DecodeBatch_def f(1-4) bl layout_simps Let_def) (simp add: algebra_simps)
qed

theorem DecodeBatch_batch_bytes:
  assumes enc: "encodable rs"
  shows "DecodeBatch (batch_bytes rs @ post) = Inr rs"
proof -
  let ?data = "batch_bytes rs @ post" and ?p = "sum_list (map record_payload rs)"
  let ?base = "srOffset (hd rs)" and ?mt = "max_timestamp rs" and ?body = "batch_body rs"
  have ne: "rs \<noteq> []" and small: "33 + ?p < 2 ^ 31"
    using enc by (auto simp: encodable_def length_batch_bytes)
  have at: "sub_at ?data 0 (frame_bytes ?body)"
    using sub_at_mid [of "[]" "batch_bytes rs" post] by (simp add: batch_bytes_def)
  have lb: "length ?body = 20 + ?p" by (rule length_batch_body)
  have b: "sub_at ?data 13 (PutUint64 ?base)" "sub_at ?data 21 (PutUint32 (of_nat (length rs)))"
    "sub_at ?data 25 (PutUint64 ?mt)" "sub_at ?data 33 (concat (map (record_bytes ?base ?mt) rs))"
    using frame_sub_at(5) [OF at] by (simp_all add: batch_body_def sub_at_append)
  have hdr: "Uint64 (gslice ?data 13 21) = ?base" "Uint32 (gslice ?data 21 25) = of_nat (length rs)"
    "Uint64 (gslice ?data 25 33) = ?mt"
    using sub_at_gslice [OF b(1), of 21] sub_at_gslice [OF b(2), of 25] sub_at_gslice [OF b(3), of 33]
    by simp_all
  have cnt: "length rs * 24 \<le> 4 + ?p" using record_payload_ge [of rs] by simp
  have un: "unat (of_nat (length rs) :: u32) = length rs"
    using cnt small by (intro unat_of_nat_u32) simp
  have nz: "(of_nat (length rs) :: u32) \<noteq> 0"
    using un ne by (metis length_0_conv unat_0)
  have ok: "\<not> word_of_int (go_div (int (length ?body) - 16) 24) < (of_nat (length rs) :: u32)"
    using count_check [OF cnt, of] small by (simp add: lb)
  have dec: "decode_records ?data (13 + length ?body) ?base ?mt (length rs) 33 = Inr (rs, 33 + ?p)"
    using enc small by (intro decode_records_ok b(4)) (auto simp: lb encodable_def)
  have "DecodeBatch ?data = rbind (decode_records ?data (13 + length ?body) ?base ?mt (length rs) 33)
       (\<lambda>(records, offset). if offset \<noteq> 13 + length ?body then Inl ErrCorruptBatch else Inr records)"
    using small ok nz by (subst DecodeBatch_frame [OF at]) (simp_all add: lb hdr un Let_def)
  then show ?thesis using dec by (simp add: lb)
qed

section \<open>Corruption\<close>

text \<open>What the checks see of five raw fields.\<close>

lemma DecodeBatch_raw:
  assumes len: "length m = 4" "length l = 4" "length c = 4" "unat (Uint32 l) = 4 + length body" "20 \<le> length body"
  shows "m \<noteq> MagicBytes \<Longrightarrow> DecodeBatch (m @ [v] @ l @ c @ body @ post) = Inl ErrMalformedMagic"
    "m = MagicBytes \<Longrightarrow> v \<noteq> FormatVersion1 \<Longrightarrow>
       DecodeBatch (m @ [v] @ l @ c @ body @ post) = Inl ErrUnsupportedVersion"
    "m = MagicBytes \<Longrightarrow> v = FormatVersion1 \<Longrightarrow> Uint32 c \<noteq> ChecksumIEEE body \<Longrightarrow>
       DecodeBatch (m @ [v] @ l @ c @ body @ post) = Inl ErrCorruptBatch"
proof -
  let ?data = "m @ [v] @ l @ c @ body @ post"
  have size: "\<not> length ?data < BatchHeaderSize" using len by simp
  have fields: "gslice ?data 0 4 = m" "?data ! 4 = v" "gslice ?data 5 9 = l" "gslice ?data 9 13 = c"
    "gslice ?data 13 (13 + length body) = body"
    using len by (simp_all add: gslice_def nth_append)
  show "m \<noteq> MagicBytes \<Longrightarrow> DecodeBatch ?data = Inl ErrMalformedMagic"
    unfolding DecodeBatch_def if_not_P [OF size] fields(1) by simp
  show "m = MagicBytes \<Longrightarrow> v \<noteq> FormatVersion1 \<Longrightarrow> DecodeBatch ?data = Inl ErrUnsupportedVersion"
    unfolding DecodeBatch_def if_not_P [OF size] fields(1,2) by simp
  have sum: "gslice ?data 13 (9 + (4 + length body)) = body" using fields(5) by simp
  show "m = MagicBytes \<Longrightarrow> v = FormatVersion1 \<Longrightarrow> Uint32 c \<noteq> ChecksumIEEE body \<Longrightarrow>
       DecodeBatch ?data = Inl ErrCorruptBatch"
    unfolding DecodeBatch_def if_not_P [OF size] fields(1-4) len(4) Let_def sum by simp
qed

lemma update_ne: "i < length xs \<Longrightarrow> x \<noteq> xs ! i \<Longrightarrow> xs[i := x] \<noteq> xs"
  by (metis nth_list_update_eq)

lemma ChecksumIEEE_detects_update:
  assumes "i < length xs" "x \<noteq> xs ! i"
  shows "ChecksumIEEE (xs[i := x]) \<noteq> ChecksumIEEE xs"
  using ChecksumIEEE_detects_byte [OF assms(2), of "take i xs" "drop (Suc i) xs"] assms(1)
  by (simp add: upd_conv_take_nth_drop id_take_nth_drop [symmetric])

lemma mid_field:
  assumes "length a \<le> i" "i < length a + length b"
  shows "(a @ b @ c)[i := x] = a @ b[i - length a := x] @ c" "(a @ b @ c) ! i = b ! (i - length a)"
proof -
  have "i - length a < length b" using assms by linarith
  then show "(a @ b @ c)[i := x] = a @ b[i - length a := x] @ c" "(a @ b @ c) ! i = b ! (i - length a)"
    using assms(1) by (simp_all add: list_update_append nth_append)
qed

lemma frame_corruption:
  assumes len: "20 \<le> length body" "length body < 2 ^ 31"
    and i: "i < length (frame_bytes body)" "\<not> (5 \<le> i \<and> i < 9)" "x \<noteq> frame_bytes body ! i"
  shows "DecodeBatch ((frame_bytes body)[i := x] @ post) =
    Inl (if i < 4 then ErrMalformedMagic else if i = 4 then ErrUnsupportedVersion else ErrCorruptBatch)"
proof -
  let ?l = "PutUint32 (of_nat (4 + length body))" and ?c = "PutUint32 (ChecksumIEEE body)"
  have ul: "unat (Uint32 ?l) = 4 + length body" using len unat_of_nat_u32 [of "4 + length body"] by simp
  have fb: "frame_bytes body = MagicBytes @ [FormatVersion1] @ ?l @ ?c @ body" by (simp add: frame_bytes_def)
  consider "i < 4" | "i = 4" | "9 \<le> i" "i < 13" | "13 \<le> i" using i(2) by linarith
  then show ?thesis
  proof cases
    case 1
    then have "(frame_bytes body)[i := x] = MagicBytes[i := x] @ [FormatVersion1] @ ?l @ ?c @ body"
      by (simp add: fb list_update_append)
    moreover have "MagicBytes[i := x] \<noteq> MagicBytes"
      using i(3) 1 by (intro update_ne) (simp_all add: fb nth_append)
    ultimately show ?thesis using 1 ul len DecodeBatch_raw(1) [of "MagicBytes[i := x]" ?l ?c body] by simp
  next
    case 2
    then have "(frame_bytes body)[i := x] = MagicBytes @ [x] @ ?l @ ?c @ body"
      by (simp add: fb list_update_append)
    moreover have "x \<noteq> FormatVersion1" using i(3) 2 by (simp add: fb nth_append)
    ultimately show ?thesis using 2 ul len DecodeBatch_raw(2) [of MagicBytes ?l ?c body x] by simp
  next
    case 3
    then have eq: "(frame_bytes body)[i := x] = MagicBytes @ [FormatVersion1] @ ?l @ ?c[i - 9 := x] @ body"
      using mid_field(1) [of "MagicBytes @ [FormatVersion1] @ ?l" i ?c body x] by (simp add: fb)
    have "?c[i - 9 := x] \<noteq> ?c"
      using i(3) 3 mid_field(2) [of "MagicBytes @ [FormatVersion1] @ ?l" i ?c body]
      by (intro update_ne) (simp_all add: fb)
    then have "Uint32 (?c[i - 9 := x]) \<noteq> ChecksumIEEE body"
      using PutUint32_Uint32 [of "?c[i - 9 := x]"] by (metis length_PutUint32 length_list_update)
    then show ?thesis
      using eq 3 ul len DecodeBatch_raw(3) [of MagicBytes ?l "?c[i - 9 := x]" body FormatVersion1] by simp
  next
    case 4
    then have eq: "(frame_bytes body)[i := x] = MagicBytes @ [FormatVersion1] @ ?l @ ?c @ body[i - 13 := x]"
      using mid_field(1) [of "MagicBytes @ [FormatVersion1] @ ?l @ ?c" i body "[]" x] i(1) by (simp add: fb)
    have "ChecksumIEEE (body[i - 13 := x]) \<noteq> ChecksumIEEE body"
      using i(1,3) 4 mid_field(2) [of "MagicBytes @ [FormatVersion1] @ ?l @ ?c" i body "[]"]
      by (intro ChecksumIEEE_detects_update) (simp_all add: fb)
    then show ?thesis
      using eq 4 ul len DecodeBatch_raw(3) [of MagicBytes ?l ?c "body[i - 13 := x]" FormatVersion1] by simp
  qed
qed

section \<open>Properties\<close>

text \<open>Two records: a key without value, and a value with a header.\<close>

definition sample_batch :: "stored_record list" where
  "sample_batch =
     [\<lparr>srOffset = 7, srTimestamp = 1000, srKey = Some [1, 2], srValue = None, srHeaders = []\<rparr>,
      \<lparr>srOffset = 8, srTimestamp = 999, srKey = None, srValue = Some [], srHeaders = [\<lparr>hKey = [3], hValue = [4, 5]\<rparr>]\<rparr>]"

lemma encodable_sample: "encodable sample_batch"
  by (simp add: encodable_def sample_batch_def length_batch_bytes record_payload_def header_payload_def
      max_timestamp_def)

lemma encode_exact:
  "EncodeBatch rs = (if rs = [] then Inl ErrEmptyBatch else Inr (batch_bytes rs))"
  using EncodeBatch_batch_bytes EncodeBatch_Nil by simp

text \<open>
  C27. Decoding what was encoded gives back the batch, whatever follows it in the file: nil and
  empty keys and values stay apart, headers, offsets and timestamps survive. It holds for every
  batch below \<open>2 ^ 31\<close> bytes whose offset deltas fit 32 bits and whose timestamp deltas do not
  overflow.
\<close>

theorem decode_encode:
  assumes "encodable rs"
  shows "\<exists>bs. EncodeBatch rs = Inr bs \<and> DecodeBatch (bs @ post) = Inr rs"
proof -
  have "rs \<noteq> []" using assms by (simp add: encodable_def)
  then show ?thesis using DecodeBatch_batch_bytes [OF assms] encode_exact [of rs] by simp
qed

theorem decode_encode_witness:
  "encodable sample_batch \<and> (\<exists>bs. EncodeBatch sample_batch = Inr bs \<and> DecodeBatch (bs @ [0]) = Inr sample_batch)"
  using decode_encode [OF encodable_sample] encodable_sample by blast

text \<open>
  C31. The encoder never runs off its buffer and leaves no byte of it unset: its result is, for
  every non-empty batch, the concatenation of the seven header fields and the fields of the
  records in order, with the checksum of everything after it; the empty batch is refused.
\<close>

theorem encode_layout:
  "EncodeBatch rs =
     (if rs = [] then Inl ErrEmptyBatch
      else Inr (let body = PutUint64 (srOffset (hd rs)) @ PutUint32 (of_nat (length rs)) @ PutUint64 (max_timestamp rs)
                  @ concat (map (\<lambda>r. concat (record_fields (srOffset (hd rs)) (max_timestamp rs) r)) rs)
                in MagicBytes @ [FormatVersion1] @ PutUint32 (of_nat (4 + length body))
                   @ PutUint32 (ChecksumIEEE body) @ body))"
proof -
  have "record_bytes b m = (\<lambda>r. concat (record_fields b m r))" for b m
    by (rule ext) (simp add: record_bytes_def)
  then show ?thesis
    unfolding encode_exact batch_bytes_def frame_bytes_def batch_body_def Let_def by presburger
qed

text \<open>
  C28. Any change of one byte of a stored batch outside its length field is detected: in the magic,
  in the version, and anywhere in the checksum, the header or the records, with the error that
  names the part. Nothing corrupted this way is ever decoded into records.
\<close>

theorem decode_detects_corruption:
  assumes "encodable rs" "i < length (batch_bytes rs)" "\<not> (5 \<le> i \<and> i < 9)" "x \<noteq> batch_bytes rs ! i"
  shows "DecodeBatch ((batch_bytes rs)[i := x] @ post) =
    Inl (if i < 4 then ErrMalformedMagic else if i = 4 then ErrUnsupportedVersion else ErrCorruptBatch)"
proof -
  have "20 \<le> length (batch_body rs)" "length (batch_body rs) < 2 ^ 31"
    using assms(1) by (simp_all add: encodable_def length_batch_bytes length_batch_body)
  from frame_corruption [OF this] assms(2-4) show ?thesis by (simp add: batch_bytes_def)
qed

theorem decode_detects_corruption_witness:
  "DecodeBatch ((batch_bytes sample_batch)[0 := 0] @ []) = Inl ErrMalformedMagic"
proof -
  have "batch_bytes sample_batch ! 0 = 0x50" by (simp add: batch_bytes_def frame_bytes_def MagicBytes_def)
  then show ?thesis
    using decode_detects_corruption [OF encodable_sample, of 0 0 "[]"]
    by (simp add: length_batch_bytes)
qed

text \<open>The body of a batch of one record whose key takes the rest of it.\<close>

definition overlong_key_body :: bytes where
  "overlong_key_body = PutUint64 0 @ PutUint32 1 @ PutUint64 0
     @ PutUint32 0 @ PutUint64 0 @ PutUint32 8 @ replicate 8 0"

text \<open>
  C33. The decoder trusts the lengths inside a record: a batch with a valid checksum whose key fills
  the rest of the batch makes it slice past the end of the buffer, a run-time panic instead of
  \<^verbatim>\<open>ErrCorruptBatch\<close>.
\<close>

theorem decode_can_panic: "DecodeBatch (frame_bytes overlong_key_body) = Inl GoPanic"
proof -
  let ?d = "frame_bytes overlong_key_body"
  have at: "sub_at ?d 0 (frame_bytes overlong_key_body)" by (rule sub_at_self)
  have len: "length overlong_key_body = 44" "length ?d = 57"
    by (simp_all add: overlong_key_body_def length_frame_bytes)
  have f: "sub_at ?d 13 (PutUint64 0)" "sub_at ?d 21 (PutUint32 1)" "sub_at ?d 25 (PutUint64 0)"
    "sub_at ?d 33 (PutUint32 0)" "sub_at ?d 37 (PutUint64 0)" "sub_at ?d 45 (PutUint32 8)"
    using frame_sub_at(5) [OF at] unfolding overlong_key_body_def sub_at_append by simp_all
  have hdr: "Uint32 (gslice ?d 21 25) = 1" using sub_at_gslice [OF f(2), of 25] by simp
  have rec: "u32_at ?d 33 = Inr 0" "u64_at ?d 37 = Inr 0" "u32_at ?d 45 = Inr 8"
    using f u32_at_sub u64_at_sub by blast+
  have past: "u32_at ?d 57 = Inl GoPanic" by (simp add: u32_at_def len)
  have "decode_record ?d 57 b m 33 = Inl GoPanic" for b m
    using rec past by (simp add: decode_record_def decode_opt_def)
  then have "decode_records ?d 57 b m 1 33 = Inl GoPanic" for b m
    by (simp only: One_nat_def decode_records.simps rbind.simps)
  then show ?thesis
    by (subst DecodeBatch_frame [OF at]) (simp_all add: len hdr go_div_def Let_def)
qed

end
