(* ===== verification/Segment.thy ===== *)
theory Segment
  imports Disk Record_Format
begin

text \<open>
  Segment files (\<^verbatim>\<open>internal/storage/segment.go\<close>): a log file and its sparse index. The record keeps
  the fields of the Go struct; the two \<^verbatim>\<open>*os.File\<close> handles are the paths, and \<open>handlesClosed\<close>
  makes every later operation on them fail.
\<close>

section \<open>State\<close>

record index_entry =
  RelativeOffset :: u32
  Position :: u64

record segment =
  baseOffset :: u64
  nextOffset :: u64
  segSize :: nat
  path :: gostring
  indexPath :: gostring
  indexEntries :: "index_entry list"
  lastIndexedPosition :: int
  indexSize :: nat
  indexDirty :: bool
  active :: bool
  maxTimestamp :: i64
  handlesClosed :: bool

text \<open>The names \<^verbatim>\<open>.log\<close>, \<^verbatim>\<open>.index\<close> and \<^verbatim>\<open>.tmp\<close> in bytes.\<close>

definition log_suffix :: gostring where
  "log_suffix = [0x2E, 0x6C, 0x6F, 0x67]"

definition index_suffix :: gostring where
  "index_suffix = [0x2E, 0x69, 0x6E, 0x64, 0x65, 0x78]"

definition tmp_suffix :: gostring where
  "tmp_suffix = [0x2E, 0x74, 0x6D, 0x70]"

definition log_name :: "u64 \<Rightarrow> gostring" where
  "log_name base = dec_put 20 (unat base) @ log_suffix"

definition index_name :: "u64 \<Rightarrow> gostring" where
  "index_name base = dec_put 20 (unat base) @ index_suffix"

section \<open>Operations\<close>

definition NewSegment :: "u64 \<Rightarrow> bool \<Rightarrow> disk \<Rightarrow> (err + segment) \<times> disk" where
  "NewSegment base act d =
     (let p = log_name base; ip = index_name base in
      case sys_open_create p d of
        (Inl e, d) \<Rightarrow> (Inl e, d)
      | (Inr _, d) \<Rightarrow>
      (case sys_stat p d of
        (Inl e, d) \<Rightarrow> (Inl e, snd (sys_close d))
      | (Inr sz, d) \<Rightarrow>
      (case sys_open_create ip d of
        (Inl e, d) \<Rightarrow> (Inl e, snd (sys_close d))
      | (Inr _, d) \<Rightarrow>
      (case sys_stat ip d of
        (Inl e, d) \<Rightarrow> (Inl e, snd (sys_close (snd (sys_close d))))
      | (Inr isz, d) \<Rightarrow>
        (Inr \<lparr>baseOffset = base, nextOffset = base, segSize = sz, path = p, indexPath = ip,
              indexEntries = [], lastIndexedPosition = -1, indexSize = isz, indexDirty = False,
              active = act, maxTimestamp = 0, handlesClosed = False\<rparr>, d)))))"

definition ReadAt :: "segment \<Rightarrow> nat \<Rightarrow> int \<Rightarrow> disk \<Rightarrow> read_result \<times> disk" where
  "ReadAt seg n pos d =
     (if handlesClosed seg then (ReadErr EClosed, d) else sys_pread (path seg) pos n d)"

text \<open>The callers' pattern \<^verbatim>\<open>if _, err := seg.ReadAt(buf, pos); err != nil\<close>: a short read is an error too.\<close>

definition ReadFull :: "segment \<Rightarrow> nat \<Rightarrow> int \<Rightarrow> disk \<Rightarrow> (err + bytes) \<times> disk" where
  "ReadFull seg n pos d =
     (case ReadAt seg n pos d of
        (ReadOk bs, d) \<Rightarrow> (Inr bs, d)
      | (ReadEOF _, d) \<Rightarrow> (Inl EOF, d)
      | (ReadErr e, d) \<Rightarrow> (Inl e, d))"

definition SegAppend :: "segment \<Rightarrow> bytes \<Rightarrow> disk \<Rightarrow> (err + nat) \<times> segment \<times> disk" where
  "SegAppend seg data d =
     (if handlesClosed seg then (Inl EClosed, seg, d) else
      let startPos = segSize seg in
      case sys_pwrite (path seg) startPos data d of
        ((_, Some e), d) \<Rightarrow> (Inl e, seg, d)
      | ((n, None), d) \<Rightarrow>
          if n \<noteq> length data then (Inl ErrShortWrite, seg, d)
          else (Inr startPos, seg\<lparr>segSize := segSize seg + n\<rparr>, d))"

text \<open>The loop of \<^verbatim>\<open>ReadIndexEntries\<close> over \<open>n\<close> more entries from the \<open>i\<close>-th one on.\<close>

fun index_loop :: "bytes \<Rightarrow> nat \<Rightarrow> nat \<Rightarrow> u32 \<Rightarrow> u64 \<Rightarrow> err + index_entry list" where
  "index_loop buf 0 i lastRel lastPos = Inr []"
| "index_loop buf (Suc n) i lastRel lastPos =
     (let offset = i * 12;
          rel = Uint32 (gslice buf offset (offset + 4));
          pos = Uint64 (gslice buf (offset + 4) (offset + 12)) in
      if i > 0 \<and> (rel \<le> lastRel \<or> pos \<le> lastPos) then Inl ErrBadIndex
      else if i = 0 \<and> (rel \<noteq> 0 \<or> pos \<noteq> 0) then Inl ErrBadIndex
      else if unat pos > 2 ^ 63 - 1 then Inl ErrBadIndex
      else rbind (index_loop buf n (i + 1) rel pos)
             (\<lambda>es. Inr (\<lparr>RelativeOffset = rel, Position = pos\<rparr> # es)))"

definition ReadIndexEntries :: "segment \<Rightarrow> disk \<Rightarrow> (err + index_entry list) \<times> disk" where
  "ReadIndexEntries seg d =
     (if indexSize seg = 0 then (Inr [], d)
      else if indexSize seg mod 12 \<noteq> 0 then (Inl ErrBadIndex, d)
      else if indexSize seg > 64 * 1024 * 1024 then (Inl ErrBadIndex, d)
      else if handlesClosed seg then (Inl EClosed, d)
      else
      let numEntries = indexSize seg div 12 in
      case sys_pread (indexPath seg) 0 (indexSize seg) d of
        (ReadErr e, d) \<Rightarrow> (Inl e, d)
      | (ReadEOF bs, d) \<Rightarrow>
          (index_loop (bs @ replicate (indexSize seg - length bs) 0) numEntries 0 0 0, d)
      | (ReadOk bs, d) \<Rightarrow> (index_loop bs numEntries 0 0 0, d))"

definition entry_bytes :: "index_entry \<Rightarrow> bytes" where
  "entry_bytes e = PutUint32 (RelativeOffset e) @ PutUint64 (Position e)"

definition AppendIndexEntry :: "segment \<Rightarrow> index_entry \<Rightarrow> disk \<Rightarrow> err option \<times> segment \<times> disk" where
  "AppendIndexEntry seg e d =
     (let seg = seg\<lparr>indexEntries := indexEntries seg @ [e],
                    lastIndexedPosition := sint (Position e), indexDirty := True\<rparr> in
      if handlesClosed seg then (Some EClosed, seg, d) else
      case sys_pwrite (indexPath seg) (indexSize seg) (entry_bytes e) d of
        ((_, Some er), d) \<Rightarrow> (Some er, seg, d)
      | ((n, None), d) \<Rightarrow>
          if n = 12 then (None, seg\<lparr>indexSize := indexSize seg + 12\<rparr>, d)
          else (Some ErrShortWrite, seg, d))"

definition FlushIndex :: "segment \<Rightarrow> disk \<Rightarrow> err option \<times> segment \<times> disk" where
  "FlushIndex seg d =
     (if indexDirty seg then
        if handlesClosed seg then (Some EClosed, seg, d) else
        case sys_fsync (indexPath seg) d of
          (Inl e, d) \<Rightarrow> (Some e, seg, d)
        | (Inr _, d) \<Rightarrow> (None, seg\<lparr>indexDirty := False\<rparr>, d)
      else (None, seg, d))"

definition Flush :: "segment \<Rightarrow> disk \<Rightarrow> err option \<times> segment \<times> disk" where
  "Flush seg d =
     (if handlesClosed seg then (Some EClosed, seg, d) else
      case sys_fsync (path seg) d of
        (Inl e, d) \<Rightarrow> (Some e, seg, d)
      | (Inr _, d) \<Rightarrow> FlushIndex seg d)"

text \<open>\<^verbatim>\<open>errors.Join\<close> of two results is nil only when both are.\<close>

definition join_err :: "err option \<Rightarrow> err option \<Rightarrow> err option" where
  "join_err a b = (case a of None \<Rightarrow> b | Some e \<Rightarrow> Some e)"

definition err_of :: "err + 'a \<Rightarrow> err option" where
  "err_of r = (case r of Inl e \<Rightarrow> Some e | Inr _ \<Rightarrow> None)"

definition SegClose :: "segment \<Rightarrow> disk \<Rightarrow> err option \<times> segment \<times> disk" where
  "SegClose seg d =
     (if handlesClosed seg then (None, seg, d) else
      let (r1, d) = sys_close d; (r2, d) = sys_close d in
      (join_err (err_of r1) (err_of r2), seg\<lparr>handlesClosed := True\<rparr>, d))"

definition SetMaxTimestamp :: "segment \<Rightarrow> i64 \<Rightarrow> segment" where
  "SetMaxTimestamp seg ts = seg\<lparr>maxTimestamp := ts\<rparr>"

definition syncDirectory :: "disk \<Rightarrow> err option \<times> disk" where
  "syncDirectory d =
     (case sys_opendir d of
        (Inl e, d) \<Rightarrow> (Some e, d)
      | (Inr _, d) \<Rightarrow> let (r, d) = sys_syncdir d; (_, d) = sys_close d in (err_of r, d))"

section \<open>Names\<close>

lemma log_name_inj [simp]: "log_name a = log_name b \<longleftrightarrow> a = b"
  by (auto simp: log_name_def dest: dec_put_inj)

lemma index_name_inj [simp]: "index_name a = index_name b \<longleftrightarrow> a = b"
  by (auto simp: index_name_def dest: dec_put_inj)

lemma length_names: "length (log_name a) = 24" "length (index_name a) = 26"
  "length (index_name a @ tmp_suffix) = 30"
  by (simp_all add: log_name_def index_name_def log_suffix_def index_suffix_def tmp_suffix_def)

lemma names_distinct [simp]:
  "log_name a \<noteq> index_name b" "index_name b \<noteq> log_name a"
  "log_name a \<noteq> index_name b @ tmp_suffix" "index_name b @ tmp_suffix \<noteq> log_name a"
  "index_name a \<noteq> index_name b @ tmp_suffix" "index_name b @ tmp_suffix \<noteq> index_name a"
  using length_names by (metis numeral_eq_iff semiring_norm)+

end
