(* ===== verification/Log_Store.thy ===== *)
theory Log_Store
  imports Segment
begin

text \<open>
  The partition store (\<^verbatim>\<open>internal/storage/store.go\<close>): its state, the callbacks of
  \<^verbatim>\<open>internal/storage/observer.go\<close>, and the operations that write: \<open>Append\<close> and \<open>Close\<close>. Every method
  of the store runs under its mutex, so one call is one atomic step from a store and a disk to a
  store and a disk.
\<close>

section \<open>State\<close>

text \<open>
  The observer is the list of the callbacks made so far. A duration is not kept; an error is the
  flag that there was one.
\<close>

datatype obs_event =
    ObserveAppend nat nat bool
  | ObserveRead nat nat bool
  | ObserveFsync bool
  | ObserveRecovery bool
  | IndexRebuilt
  | SegmentDeleted
  | SetPartitionState nat nat

text \<open>
  \<open>activeSegment\<close> is the pointer \<^verbatim>\<open>s.activeSegment\<close>, as the index in \<open>segments\<close> of the segment it
  points to; taking an earlier segment out of the list moves the index with it.
\<close>

record store =
  segmentMaxBytes :: int
  maxBatchBytes :: int
  indexIntervalBytes :: int
  flushMode :: gostring
  closed :: bool
  writeFailed :: bool
  segments :: "segment list"
  activeSegment :: nat
  logEndOffset :: u64
  earliestOffset :: u64
  observer :: "obs_event list"

definition observe :: "obs_event \<Rightarrow> store \<Rightarrow> store" where
  "observe ev s = s\<lparr>observer := observer s @ [ev]\<rparr>"

definition active_seg :: "store \<Rightarrow> segment" where
  "active_seg s = segments s ! activeSegment s"

definition set_active :: "segment \<Rightarrow> store \<Rightarrow> store" where
  "set_active seg s = s\<lparr>segments := (segments s)[activeSegment s := seg]\<rparr>"

definition updateGaugesLocked :: "store \<Rightarrow> store" where
  "updateGaugesLocked s =
     observe (SetPartitionState (sum_list (map segSize (segments s))) (length (segments s))) s"

text \<open>\<^verbatim>\<open>"sync"\<close> in bytes.\<close>

definition sync_mode :: gostring where
  "sync_mode = [0x73, 0x79, 0x6E, 0x63]"

definition recordSize :: "stored_record \<Rightarrow> nat" where
  "recordSize r =
     olen (srKey r) + olen (srValue r)
     + sum_list (map (\<lambda>h. length (hKey h) + length (hValue h)) (srHeaders r)) + 16"

section \<open>Append\<close>

definition stamp :: "u64 \<Rightarrow> i64 \<Rightarrow> model_record list \<Rightarrow> stored_record list" where
  "stamp base ts rs =
     map (\<lambda>(i, r). \<lparr>srOffset = base + of_nat i, srTimestamp = ts, srKey = rKey r, srValue = rValue r,
                     srHeaders = rHeaders r\<rparr>) (enumerate 0 rs)"

definition roll_segment :: "nat \<Rightarrow> store \<Rightarrow> disk \<Rightarrow> err option \<times> store \<times> disk" where
  "roll_segment batchSize s d =
     (if segSize (active_seg s) > 0 \<and> int (segSize (active_seg s)) + int batchSize > segmentMaxBytes s
      then
        case Flush (active_seg s) d of
          (Some e, seg, d) \<Rightarrow> (Some e, (set_active seg s)\<lparr>writeFailed := True\<rparr>, d)
        | (None, seg, d) \<Rightarrow>
            let s = set_active (seg\<lparr>active := False\<rparr>) s in
            (case NewSegment (logEndOffset s) True d of
               (Inl e, d) \<Rightarrow> (Some e, s\<lparr>writeFailed := True\<rparr>, d)
             | (Inr newSeg, d) \<Rightarrow>
                 (None, s\<lparr>segments := segments s @ [newSeg], activeSegment := length (segments s)\<rparr>, d))
      else (None, s, d))"

definition append_index :: "store \<Rightarrow> u64 \<Rightarrow> nat \<Rightarrow> segment \<Rightarrow> disk \<Rightarrow> segment \<times> disk" where
  "append_index s relative pos seg d =
     (if indexEntries seg = [] \<or> int pos - lastIndexedPosition seg \<ge> indexIntervalBytes s
      then
        let (_, seg, d) = AppendIndexEntry seg \<lparr>RelativeOffset = ucast relative, Position = of_nat pos\<rparr> d
        in (seg, d)
      else (seg, d))"

text \<open>The end of \<open>Append\<close>: in sync mode the batch is acknowledged only after a flush.\<close>

definition finish_append ::
  "u64 \<Rightarrow> u64 \<Rightarrow> store \<Rightarrow> disk \<Rightarrow> (err + u64 \<times> u64) \<times> store \<times> disk" where
  "finish_append base lastOffset s d =
     (if flushMode s = sync_mode then
        case Flush (active_seg s) d of
          (Some e, seg, d) \<Rightarrow>
            (Inl e, (observe (ObserveFsync True) (set_active seg s))\<lparr>writeFailed := True\<rparr>, d)
        | (None, seg, d) \<Rightarrow>
            (Inr (base, lastOffset), updateGaugesLocked (observe (ObserveFsync False) (set_active seg s)), d)
      else (Inr (base, lastOffset), updateGaugesLocked s, d))"

definition append_active ::
  "i64 \<Rightarrow> nat \<Rightarrow> bytes \<Rightarrow> u64 \<Rightarrow> store \<Rightarrow> disk \<Rightarrow> (err + u64 \<times> u64) \<times> store \<times> disk" where
  "append_active ts count encoded base s d =
     (let relative = base - baseOffset (active_seg s) in
      if unat relative > 2 ^ 32 - 1 then (Inl ErrIndexOffsetOverflow, s\<lparr>writeFailed := True\<rparr>, d)
      else
      case SegAppend (active_seg s) encoded d of
        (Inl e, seg, d) \<Rightarrow> (Inl e, (set_active seg s)\<lparr>writeFailed := True\<rparr>, d)
      | (Inr pos, seg, d) \<Rightarrow>
          let seg = (if sint ts > sint (maxTimestamp seg) then seg\<lparr>maxTimestamp := ts\<rparr> else seg);
              lastOffset = base + of_nat count - 1;
              s = s\<lparr>logEndOffset := lastOffset + 1\<rparr>;
              seg = seg\<lparr>nextOffset := logEndOffset s\<rparr>;
              (seg, d) = append_index s relative pos seg d in
          finish_append base lastOffset (set_active seg s) d)"

text \<open>
  The body of \<open>Append\<close> under the lock; the second component is the local \<^verbatim>\<open>encodedBytes\<close>, which the
  deferred callback reports.
\<close>

definition append_locked ::
  "i64 \<Rightarrow> model_record list \<Rightarrow> store \<Rightarrow> disk \<Rightarrow> (err + u64 \<times> u64) \<times> nat \<times> store \<times> disk" where
  "append_locked ts records s d =
     (if closed s then (Inl ErrStoreClosed, 0, s, d)
      else if writeFailed s then (Inl ErrStoreCorrupt, 0, s, d)
      else
      let base = logEndOffset s in
      case EncodeBatch (stamp base ts records) of
        Inl e \<Rightarrow> (Inl e, 0, s, d)
      | Inr encoded \<Rightarrow>
          if int (length encoded) > maxBatchBytes s then (Inl ErrBatchTooLarge, length encoded, s, d)
          else
          (case roll_segment (length encoded) s d of
             (Some e, s, d) \<Rightarrow> (Inl e, length encoded, s, d)
           | (None, s, d) \<Rightarrow>
               let (r, s, d) = append_active ts (length records) encoded base s d
               in (r, length encoded, s, d)))"

definition Append ::
  "i64 \<Rightarrow> model_record list \<Rightarrow> store \<Rightarrow> disk \<Rightarrow> (err + u64 \<times> u64) \<times> store \<times> disk" where
  "Append ts records s d =
     (let (r, encodedBytes, s, d) =
            (if records = [] then (Inl ErrEmptyBatch, 0, s, d) else append_locked ts records s d)
      in (r, observe (ObserveAppend (length records) encodedBytes (err_of r \<noteq> None)) s, d))"

section \<open>Close\<close>

fun close_segments :: "segment list \<Rightarrow> disk \<Rightarrow> err option \<times> segment list \<times> disk" where
  "close_segments [] d = (None, [], d)"
| "close_segments (g # gs) d =
     (let (e1, g, d) = SegClose g d; (e2, gs, d) = close_segments gs d in (join_err e1 e2, g # gs, d))"

definition Close :: "store \<Rightarrow> disk \<Rightarrow> err option \<times> store \<times> disk" where
  "Close s d =
     (if closed s then (None, s, d)
      else
      let s = s\<lparr>closed := True\<rparr>;
          (e1, seg, d) = Flush (active_seg s) d;
          s = set_active seg s;
          (e2, gs, d) = close_segments (segments s) d in
      (join_err e1 e2, s\<lparr>segments := gs\<rparr>, d))"

definition LogEndOffset :: "store \<Rightarrow> u64" where
  "LogEndOffset s = logEndOffset s"

definition EarliestOffset :: "store \<Rightarrow> u64" where
  "EarliestOffset s = earliestOffset s"

end
