(* ===== verification/Log_Invariant.thy ===== *)
theory Log_Invariant
  imports Log_Store
begin

text \<open>
  What a healthy store looks like: its segments hold, in order, the encodings of batches whose
  offsets run without a gap, each sparse index points at batch boundaries, and the fields kept in
  memory agree with the files. \<open>store_repr s d bss\<close> says that the store \<open>s\<close> on the disk \<open>d\<close> holds
  the batches \<open>bss\<close>, one list per segment; the records it promises to a reader are
  \<open>concat (concat bss)\<close>.
\<close>

section \<open>Batches in a log file\<close>

definition batch_at :: "nat \<Rightarrow> batch \<Rightarrow> bool" where
  "batch_at off b \<longleftrightarrow> encodable b \<and> (\<forall>i < length b. srOffset (b ! i) = of_nat (off + i))"

fun chain :: "nat \<Rightarrow> batch list \<Rightarrow> nat \<Rightarrow> bool" where
  "chain off [] fin \<longleftrightarrow> off = fin"
| "chain off (b # bs) fin \<longleftrightarrow> batch_at off b \<and> chain (off + length b) bs fin"

definition log_bytes :: "batch list \<Rightarrow> bytes" where
  "log_bytes bs = concat (map batch_bytes bs)"

text \<open>The batch boundaries of a log file: offset relative to the first one, and file position.\<close>

fun bounds :: "nat \<Rightarrow> nat \<Rightarrow> batch list \<Rightarrow> (nat \<times> nat) list" where
  "bounds rel pos [] = []"
| "bounds rel pos (b # bs) =
     (rel, pos) # bounds (rel + length b) (pos + length (batch_bytes b)) bs"

definition fits :: "int \<Rightarrow> batch list \<Rightarrow> bool" where
  "fits mb bs \<longleftrightarrow> (\<forall>b \<in> set bs. int (length (batch_bytes b)) \<le> mb)"

section \<open>Sparse index\<close>

definition is_bound :: "batch list \<Rightarrow> index_entry \<Rightarrow> bool" where
  "is_bound bs e \<longleftrightarrow> (unat (RelativeOffset e), unat (Position e)) \<in> set (bounds 0 0 bs)"

definition entry_less :: "index_entry \<Rightarrow> index_entry \<Rightarrow> bool" where
  "entry_less a b \<longleftrightarrow> RelativeOffset a < RelativeOffset b \<and> Position a < Position b"

definition index_ok :: "batch list \<Rightarrow> index_entry list \<Rightarrow> bool" where
  "index_ok bs es \<longleftrightarrow> sorted_wrt entry_less es \<and> (\<forall>e \<in> set es. is_bound bs e) \<and>
     (bs \<noteq> [] \<longrightarrow> es \<noteq> [] \<and> hd es = \<lparr>RelativeOffset = 0, Position = 0\<rparr>)"

definition last_indexed :: "index_entry list \<Rightarrow> int" where
  "last_indexed es = (if es = [] then -1 else int (unat (Position (last es))))"

section \<open>Segments and stores\<close>

definition seg_repr :: "int \<Rightarrow> disk \<Rightarrow> segment \<Rightarrow> batch list \<Rightarrow> bool" where
  "seg_repr mb d g bs \<longleftrightarrow>
     path g = log_name (baseOffset g) \<and> indexPath g = index_name (baseOffset g) \<and>
     map_of (files d) (path g) = Some (log_bytes bs) \<and>
     segSize g = length (log_bytes bs) \<and> segSize g < 2 ^ 63 \<and>
     chain (unat (baseOffset g)) bs (unat (nextOffset g)) \<and> fits mb bs \<and>
     index_ok bs (indexEntries g) \<and> lastIndexedPosition g = last_indexed (indexEntries g) \<and>
     maxTimestamp g = max_timestamp (concat bs) \<and> \<not> handlesClosed g"

definition linked :: "segment list \<Rightarrow> bool" where
  "linked gs \<longleftrightarrow> successively (\<lambda>a b. nextOffset a = baseOffset b) gs"

text \<open>Every log file of the directory belongs to a segment.\<close>

definition no_strays :: "disk \<Rightarrow> segment list \<Rightarrow> bool" where
  "no_strays d gs \<longleftrightarrow> (\<forall>b. map_of (files d) (log_name b) \<noteq> None \<longrightarrow> b \<in> baseOffset ` set gs)"

definition limits_ok :: "store \<Rightarrow> bool" where
  "limits_ok s \<longleftrightarrow> maxBatchBytes s < 2 ^ 31 \<and> segmentMaxBytes s < 2 ^ 63"

definition store_repr :: "store \<Rightarrow> disk \<Rightarrow> batch list list \<Rightarrow> bool" where
  "store_repr s d bss \<longleftrightarrow>
     limits_ok s \<and> \<not> closed s \<and> \<not> writeFailed s \<and>
     segments s \<noteq> [] \<and> activeSegment s = length (segments s) - 1 \<and>
     list_all2 (seg_repr (maxBatchBytes s) d) (segments s) bss \<and> linked (segments s) \<and>
     no_strays d (segments s) \<and>
     (\<forall>bs \<in> set (butlast bss). bs \<noteq> []) \<and>
     earliestOffset s = baseOffset (hd (segments s)) \<and>
     logEndOffset s = nextOffset (last (segments s))"

section \<open>Lemmas on batches\<close>

lemma batch_atD:
  assumes "batch_at off b"
  shows "encodable b" "b \<noteq> []" "i < length b \<Longrightarrow> srOffset (b ! i) = of_nat (off + i)"
  using assms by (auto simp: batch_at_def encodable_def)

lemma chain_le: "chain off bs fin \<Longrightarrow> off \<le> fin"
proof (induction bs arbitrary: off)
  case (Cons b bs)
  from Cons.prems Cons.IH [of "off + length b"] show ?case by simp
qed simp

lemma chain_fin: "chain off bs fin \<Longrightarrow> fin = off + length (concat bs)"
proof (induction bs arbitrary: off)
  case (Cons b bs)
  from Cons.prems Cons.IH [of "off + length b"] show ?case by (simp add: add.assoc)
qed simp

lemma chain_append:
  "chain off (xs @ ys) fin \<longleftrightarrow>
   chain off xs (off + length (concat xs)) \<and> chain (off + length (concat xs)) ys fin"
  by (induction xs arbitrary: off) (auto simp: add.assoc)

lemma chain_nth:
  assumes "chain off bs fin" "i < length (concat bs)"
  shows "srOffset (concat bs ! i) = of_nat (off + i)"
  using assms
proof (induction bs arbitrary: off i)
  case (Cons b bs)
  show ?case
  proof (cases "i < length b")
    case True
    with Cons.prems have "srOffset (b ! i) = of_nat (off + i)" by (simp only: chain.simps batch_atD(3))
    with True show ?thesis by (simp add: nth_append)
  next
    case False
    with Cons.prems have "srOffset (concat bs ! (i - length b)) = of_nat (off + length b + (i - length b))"
      by (intro Cons.IH) auto
    with False show ?thesis by (simp add: nth_append)
  qed
qed simp

text \<open>The offsets of a chain below \<open>2 ^ 64\<close> lie in its range.\<close>

lemma chain_offsets:
  assumes "chain off bs fin" "fin < 2 ^ 64" "r \<in> set (concat bs)"
  shows "off \<le> unat (srOffset r)" "unat (srOffset r) < fin"
proof -
  obtain i where i: "i < length (concat bs)" "r = concat bs ! i"
    using assms(3) by (metis in_set_conv_nth)
  have lt: "off + i < fin" using chain_fin [OF assms(1)] i(1) by simp
  have "unat (srOffset r) = off + i"
    unfolding i(2) chain_nth [OF assms(1) i(1)] using lt assms(2) by (simp del: of_nat_add)
  then show "off \<le> unat (srOffset r)" "unat (srOffset r) < fin" using lt by simp_all
qed

lemma chain_filter_from:
  assumes "chain off bs fin" "fin < 2 ^ 64" "c < 2 ^ 64" "max c off = max c' off" "c' < 2 ^ 64"
  shows "filter (\<lambda>r. of_nat c \<le> srOffset r) (concat bs) = filter (\<lambda>r. of_nat c' \<le> srOffset r) (concat bs)"
proof (rule filter_cong [OF refl])
  fix r assume "r \<in> set (concat bs)"
  then have "off \<le> unat (srOffset r)" by (rule chain_offsets [OF assms(1,2)])
  then show "of_nat c \<le> srOffset r \<longleftrightarrow> of_nat c' \<le> srOffset r"
    using assms(3,4,5) by (auto simp: word_le_nat_alt max_def split: if_splits)
qed

lemma chain_filter_none:
  assumes "chain off bs fin" "fin < 2 ^ 64" "fin \<le> c" "c < 2 ^ 64"
  shows "filter (\<lambda>r. of_nat c \<le> srOffset r) (concat bs) = []"
  using chain_offsets(2) [OF assms(1,2)] assms(3,4)
  by (fastforce simp: filter_empty_conv word_le_nat_alt)

lemma chain_batch: "chain off bs fin \<Longrightarrow> b \<in> set bs \<Longrightarrow> encodable b"
  by (induction bs arbitrary: off) (auto dest: batch_atD)

lemma log_bytes_simps [simp]:
  "log_bytes [] = []" "log_bytes (b # bs) = batch_bytes b @ log_bytes bs"
  "log_bytes (xs @ ys) = log_bytes xs @ log_bytes ys"
  by (simp_all add: log_bytes_def)

lemma length_batch_bytes_ge: "33 \<le> length (batch_bytes b)"
  by (simp add: length_batch_bytes)

lemma log_bytes_eq_Nil [simp]: "log_bytes bs = [] \<longleftrightarrow> bs = []"
proof (cases bs)
  case (Cons b bs')
  have "batch_bytes b \<noteq> []" using length_batch_bytes_ge [of b] by auto
  then show ?thesis using Cons by simp
qed simp

lemma fits_simps [simp]:
  "fits mb []" "fits mb (b # bs) \<longleftrightarrow> int (length (batch_bytes b)) \<le> mb \<and> fits mb bs"
  "fits mb (xs @ ys) \<longleftrightarrow> fits mb xs \<and> fits mb ys"
  by (auto simp: fits_def)

section \<open>Lemmas on boundaries\<close>

lemma bounds_append:
  "bounds rel pos (xs @ ys) =
   bounds rel pos xs @ bounds (rel + length (concat xs)) (pos + length (log_bytes xs)) ys"
  by (induction xs arbitrary: rel pos) (auto simp: add.assoc)

text \<open>A boundary splits the batches into those before it and those from it on.\<close>

lemma bounds_split:
  "(r, p) \<in> set (bounds rel pos bs) \<Longrightarrow>
   \<exists>xs b ys. bs = xs @ b # ys \<and> r = rel + length (concat xs) \<and> p = pos + length (log_bytes xs)"
proof (induction bs arbitrary: rel pos)
  case (Cons b bs)
  show ?case
  proof (cases "(r, p) = (rel, pos)")
    case True
    then have "b # bs = [] @ b # bs \<and> r = rel + length (concat []) \<and> p = pos + length (log_bytes [])"
      by simp
    then show ?thesis by blast
  next
    case False
    with Cons.prems have "(r, p) \<in> set (bounds (rel + length b) (pos + length (batch_bytes b)) bs)" by auto
    from Cons.IH [OF this] obtain xs b' ys where
      "bs = xs @ b' # ys" "r = rel + length b + length (concat xs)"
      "p = pos + length (batch_bytes b) + length (log_bytes xs)" by blast
    then have "b # bs = (b # xs) @ b' # ys \<and> r = rel + length (concat (b # xs))
        \<and> p = pos + length (log_bytes (b # xs))" by simp
    then show ?thesis by blast
  qed
qed simp

lemma is_bound_split:
  assumes "is_bound bs e"
  obtains xs b ys where "bs = xs @ b # ys" "unat (RelativeOffset e) = length (concat xs)"
    "unat (Position e) = length (log_bytes xs)"
  using bounds_split [OF assms [unfolded is_bound_def]] by auto

lemma is_bound_pos: "is_bound bs e \<Longrightarrow> unat (Position e) < length (log_bytes bs)"
proof -
  assume "is_bound bs e"
  then obtain xs b ys where "bs = xs @ b # ys" "unat (Position e) = length (log_bytes xs)"
    by (rule is_bound_split)
  then show ?thesis using length_batch_bytes_ge [of b] by (cases "batch_bytes b") auto
qed

lemma is_bound_append: "is_bound bs e \<Longrightarrow> is_bound (bs @ cs) e"
  by (simp add: is_bound_def bounds_append)

lemma index_ok_Nil [simp]: "index_ok [] es \<longleftrightarrow> es = []"
  by (cases es) (auto simp: index_ok_def is_bound_def)

lemma index_ok_mono:
  assumes "index_ok bs es" "a \<le> b" "b < length es"
  shows "RelativeOffset (es ! a) \<le> RelativeOffset (es ! b)"
proof (cases "a = b")
  case False
  then have "entry_less (es ! a) (es ! b)"
    using assms by (simp add: index_ok_def sorted_wrt_iff_nth_less)
  then show ?thesis by (simp add: entry_less_def order_less_imp_le)
qed simp

section \<open>Lemmas on segments and stores\<close>

lemma linked_append:
  "linked (xs @ [g]) \<longleftrightarrow> linked xs \<and> (xs \<noteq> [] \<longrightarrow> nextOffset (last xs) = baseOffset g)"
  by (auto simp: linked_def successively_append_iff)

lemma store_repr_active:
  assumes "store_repr s d bss"
  shows "active_seg s = last (segments s)"
    "segments s = butlast (segments s) @ [active_seg s]"
    "set_active g s = s\<lparr>segments := butlast (segments s) @ [g]\<rparr>"
    "activeSegment s = length (butlast (segments s))"
proof -
  from assms have ne: "segments s \<noteq> []" and a: "activeSegment s = length (segments s) - 1"
    by (auto simp: store_repr_def)
  show act: "active_seg s = last (segments s)"
    using ne a by (simp add: active_seg_def last_conv_nth)
  show split: "segments s = butlast (segments s) @ [active_seg s]"
    using ne by (simp add: act)
  show len: "activeSegment s = length (butlast (segments s))" using a by simp
  show "set_active g s = s\<lparr>segments := butlast (segments s) @ [g]\<rparr>"
    unfolding set_active_def len by (subst split) (simp only: list_update_length)
qed

lemma seg_reprD:
  assumes "seg_repr mb d g bs"
  shows "content d (path g) = log_bytes bs" "segSize g = length (log_bytes bs)" "segSize g < 2 ^ 63"
    "chain (unat (baseOffset g)) bs (unat (nextOffset g))" "index_ok bs (indexEntries g)"
    "\<not> handlesClosed g" "fits mb bs"
  using assms by (auto simp: seg_repr_def content_Some)

text \<open>Linked segments hold one chain of batches.\<close>

lemma segments_chain:
  assumes "list_all2 (seg_repr mb d) gs bss" "linked gs" "gs \<noteq> []"
  shows "chain (unat (baseOffset (hd gs))) (concat bss) (unat (nextOffset (last gs)))"
  using assms
proof (induction gs bss rule: list_all2_induct)
  case (Cons g gs bs bss)
  note ch = seg_reprD(4) [OF Cons.hyps(1)]
  show ?case
  proof (cases gs)
    case Nil
    then show ?thesis using Cons.hyps ch by simp
  next
    case (Cons g' gs')
    then have "linked gs" "nextOffset g = baseOffset g'"
      using Cons.prems by (auto simp: linked_def successively.simps)
    then show ?thesis using Cons.IH Cons ch chain_fin [OF ch] by (simp add: chain_append)
  qed
qed simp

lemma store_repr_chain:
  "store_repr s d bss \<Longrightarrow> chain (unat (earliestOffset s)) (concat bss) (unat (logEndOffset s))"
  using segments_chain by (auto simp: store_repr_def)

text \<open>The representation reads the log files and the fields, not the callbacks.\<close>

lemma seg_repr_files:
  "map_of (files d') (path g) = map_of (files d) (path g) \<Longrightarrow> seg_repr mb d' g bs \<longleftrightarrow> seg_repr mb d g bs"
  by (simp add: seg_repr_def)

lemma seg_repr_fields [simp]:
  "seg_repr mb d (g\<lparr>indexDirty := x\<rparr>) bs \<longleftrightarrow> seg_repr mb d g bs"
  "seg_repr mb d (g\<lparr>active := x\<rparr>) bs \<longleftrightarrow> seg_repr mb d g bs"
  "seg_repr mb d (g\<lparr>indexSize := n\<rparr>) bs \<longleftrightarrow> seg_repr mb d g bs"
  by (simp_all add: seg_repr_def)

lemma store_repr_files:
  assumes "files d' = files d"
  shows "store_repr s d' bss \<longleftrightarrow> store_repr s d bss"
proof -
  have "seg_repr (maxBatchBytes s) d' = seg_repr (maxBatchBytes s) d"
    using assms by (intro ext) (simp add: seg_repr_def)
  then show ?thesis using assms by (simp add: store_repr_def no_strays_def)
qed

lemma store_repr_observe [simp]: "store_repr (observe ev s) d bss \<longleftrightarrow> store_repr s d bss"
  by (simp add: store_repr_def observe_def limits_ok_def)

text \<open>Segments but the last one hold a batch, so the base offsets grow and the files differ.\<close>

lemma segments_bases:
  assumes "list_all2 (seg_repr mb d) gs bss" "linked gs" "\<forall>bs \<in> set (butlast bss). bs \<noteq> []"
  shows "sorted_wrt (\<lambda>a b. baseOffset a < baseOffset b) gs"
  using assms
proof (induction gs bss rule: list_all2_induct)
  case (Cons g gs bs bss)
  have tl: "linked gs" "\<forall>bs \<in> set (butlast bss). bs \<noteq> []"
    using Cons.prems by (cases gs; cases bss; simp add: linked_def)+
  note IH = Cons.IH [OF tl]
  show ?case
  proof (cases gs)
    case (Cons g' gs')
    then have "bss \<noteq> []" "nextOffset g = baseOffset g'"
      using Cons.hyps(2) Cons.prems(1) by (auto simp: linked_def)
    moreover from this have "bs \<noteq> []" using Cons.prems(2) by simp
    moreover note ch = seg_reprD(4) [OF Cons.hyps(1)]
    ultimately have "unat (baseOffset g) < unat (baseOffset g')"
      using chain_fin [OF ch] batch_atD(2) by (cases bs) auto
    then have "baseOffset g < baseOffset g'" by (simp add: word_less_nat_alt)
    then show ?thesis using IH unfolding Cons by (auto intro: order_less_trans)
  qed simp
qed simp

lemma store_repr_bases:
  assumes "store_repr s d bss"
  shows "sorted_wrt (\<lambda>a b. baseOffset a < baseOffset b) (segments s)"
  using assms segments_bases by (auto simp: store_repr_def)

lemma store_repr_closed_path:
  assumes "store_repr s d bss" "g \<in> set (butlast (segments s))"
  shows "path g \<noteq> path (active_seg s)" "path g \<noteq> indexPath (active_seg s)" "baseOffset g < baseOffset (active_seg s)"
proof -
  note a = store_repr_active [OF assms(1)]
  have mem: "g \<in> set (segments s)" "active_seg s \<in> set (segments s)"
    using assms(2) a(2) by (auto dest: in_set_butlastD) (metis in_set_conv_decomp)
  have names: "path g = log_name (baseOffset g) \<and> indexPath g = index_name (baseOffset g)"
    if "g \<in> set (segments s)" for g
    using assms(1) that by (auto simp: store_repr_def seg_repr_def list_all2_conv_all_nth in_set_conv_nth)
  have "sorted_wrt (\<lambda>a b. baseOffset a < baseOffset b) (butlast (segments s) @ [active_seg s])"
    using store_repr_bases [OF assms(1)] a(2) by simp
  then show lt: "baseOffset g < baseOffset (active_seg s)" using assms(2) by (simp add: sorted_wrt_append)
  then show "path g \<noteq> path (active_seg s)" "path g \<noteq> indexPath (active_seg s)"
    using names [OF mem(1)] names [OF mem(2)] by auto
qed

end
