(* ===== verification/Log_Read.thy ===== *)
theory Log_Read
  imports Log_Invariant
begin

text \<open>
  \<^verbatim>\<open>Store.Read\<close>: binary search for the segment, binary search in its sparse index, and the scan
  that decodes batch after batch across segments until the byte budget is used up. The main lemma
  is that on a healthy store all of this returns the records from the requested offset on, cut
  at the budget but never empty.
\<close>

section \<open>The operation\<close>

text \<open>The loop over the records of one batch; the first component tells that the limit was hit.\<close>

fun take_records ::
  "int \<Rightarrow> stored_record list \<Rightarrow> stored_record list \<Rightarrow> nat \<Rightarrow> u64 \<Rightarrow> bool \<times> stored_record list \<times> nat \<times> u64"
where
  "take_records maxBytes [] res acc currOffset = (False, res, acc, currOffset)"
| "take_records maxBytes (r # rs) res acc currOffset =
     (if srOffset r < currOffset then take_records maxBytes rs res acc currOffset
      else if length res > 0 \<and> int acc + int (recordSize r) > maxBytes then (True, res, acc, currOffset)
      else take_records maxBytes rs (res @ [r]) (acc + recordSize r) (srOffset r + 1))"

text \<open>One batch at file position \<open>pos\<close> below the segment's size: its records and its length in bytes.\<close>

definition read_batch :: "segment \<Rightarrow> int \<Rightarrow> disk \<Rightarrow> (err + stored_record list \<times> nat) \<times> disk" where
  "read_batch seg pos d =
     (if pos + 9 > int (segSize seg) then (Inl ErrTruncatedHeader, d)
      else
      case ReadFull seg 9 pos d of
        (Inl e, d) \<Rightarrow> (Inl e, d)
      | (Inr prefixBuf, d) \<Rightarrow>
          let totalBatchSize = 9 + unat (Uint32 (gslice prefixBuf 5 9)) in
          if pos + int totalBatchSize > int (segSize seg) then (Inl ErrTruncatedPayload, d)
          else
          (case ReadFull seg totalBatchSize pos d of
             (Inl e, d) \<Rightarrow> (Inl e, d)
           | (Inr batchBuf, d) \<Rightarrow> (rbind (DecodeBatch batchBuf) (\<lambda>recs. Inr (recs, totalBatchSize)), d)))"

lemma read_batch_size: "read_batch seg pos d = (Inr (recs, n), d') \<Longrightarrow> 9 \<le> n"
  by (auto simp: read_batch_def Let_def rbind_Inr_iff split: if_splits prod.splits sum.splits)

text \<open>The scan of one segment from file position \<open>pos\<close>.\<close>

function scan_loop ::
  "segment \<Rightarrow> int \<Rightarrow> int \<Rightarrow> stored_record list \<Rightarrow> nat \<Rightarrow> u64 \<Rightarrow> disk
   \<Rightarrow> (err + bool \<times> stored_record list \<times> nat \<times> u64) \<times> disk"
where
  "scan_loop seg maxBytes pos res acc currOffset d =
     (if pos < int (segSize seg) then
        case read_batch seg pos d of
          (Inl e, d) \<Rightarrow> (Inl e, d)
        | (Inr (recs, totalBatchSize), d) \<Rightarrow>
            (case take_records maxBytes recs res acc currOffset of
               (True, res, acc, currOffset) \<Rightarrow> (Inr (True, res, acc, currOffset), d)
             | (False, res, acc, currOffset) \<Rightarrow>
                 scan_loop seg maxBytes (pos + int totalBatchSize) res acc currOffset d)
      else (Inr (False, res, acc, currOffset), d))"
  by pat_completeness auto
termination
  by (relation "measure (\<lambda>(seg, maxBytes, pos, res, acc, currOffset, d). nat (int (segSize seg) - pos))")
    (auto dest: read_batch_size [OF sym])

declare scan_loop.simps [simp del]

definition start_pos :: "segment \<Rightarrow> u64 \<Rightarrow> int" where
  "start_pos seg currOffset =
     (let idx = sort_search (\<lambda>j. baseOffset seg + ucast (RelativeOffset (indexEntries seg ! j)) > currOffset)
                  0 (length (indexEntries seg))
      in if idx > 0 then sint (Position (indexEntries seg ! (idx - 1))) else 0)"

fun scan_segments ::
  "segment list \<Rightarrow> int \<Rightarrow> stored_record list \<Rightarrow> nat \<Rightarrow> u64 \<Rightarrow> disk \<Rightarrow> (err + stored_record list) \<times> disk"
where
  "scan_segments [] maxBytes res acc currOffset d = (Inr res, d)"
| "scan_segments (g # gs) maxBytes res acc currOffset d =
     (case scan_loop g maxBytes (start_pos g currOffset) res acc currOffset d of
        (Inl e, d) \<Rightarrow> (Inl e, d)
      | (Inr (True, res, acc, currOffset), d) \<Rightarrow> (Inr res, d)
      | (Inr (False, res, acc, currOffset), d) \<Rightarrow> scan_segments gs maxBytes res acc currOffset d)"

definition read_locked ::
  "u64 \<Rightarrow> int \<Rightarrow> store \<Rightarrow> disk \<Rightarrow> (err + stored_record list) \<times> disk" where
  "read_locked offset maxBytes s d =
     (if maxBytes \<le> 0 then (Inl ErrInvalidMaxBytes, d)
      else if closed s then (Inl ErrStoreClosed, d)
      else if writeFailed s then (Inl ErrStoreCorrupt, d)
      else if offset < earliestOffset s \<or> offset > logEndOffset s then (Inl ErrOffsetOutOfRange, d)
      else if offset = logEndOffset s then (Inr [], d)
      else
      let segIdx = sort_search (\<lambda>i. nextOffset (segments s ! i) > offset) 0 (length (segments s)) in
      if segIdx \<ge> length (segments s) then (Inl ErrOffsetOutOfRange, d)
      else scan_segments (drop segIdx (segments s)) maxBytes [] 0 offset d)"

definition Read ::
  "u64 \<Rightarrow> int \<Rightarrow> store \<Rightarrow> disk \<Rightarrow> (err + stored_record list) \<times> store \<times> disk" where
  "Read offset maxBytes s d =
     (let (r, d) = read_locked offset maxBytes s d;
          result = (case r of Inl _ \<Rightarrow> [] | Inr rs \<Rightarrow> rs)
      in (r, observe (ObserveRead (length result) (sum_list (map recordSize result)) (err_of r \<noteq> None)) s,
          d))"

section \<open>The specification\<close>

text \<open>
  \<open>fit mb rs\<close> is the longest prefix of \<open>rs\<close> of at most \<open>mb\<close> bytes; a window starts with a first
  record whatever its size.
\<close>

fun fit :: "int \<Rightarrow> stored_record list \<Rightarrow> stored_record list" where
  "fit mb [] = []"
| "fit mb (r # rs) = (if int (recordSize r) > mb then [] else r # fit (mb - int (recordSize r)) rs)"

definition window :: "int \<Rightarrow> stored_record list \<Rightarrow> stored_record list" where
  "window mb rs = (case rs of [] \<Rightarrow> [] | r # rs \<Rightarrow> r # fit (mb - int (recordSize r)) rs)"

definition read_spec :: "u64 \<Rightarrow> int \<Rightarrow> stored_record list \<Rightarrow> stored_record list" where
  "read_spec offset mb log = window mb (filter (\<lambda>r. offset \<le> srOffset r) log)"

section \<open>Filling the result\<close>

text \<open>The loop over records without its offset test: the byte budget alone.\<close>

fun collect :: "int \<Rightarrow> stored_record list \<Rightarrow> stored_record list \<Rightarrow> nat \<Rightarrow> bool \<times> stored_record list \<times> nat"
where
  "collect mb [] res acc = (False, res, acc)"
| "collect mb (r # rs) res acc =
     (if res \<noteq> [] \<and> int acc + int (recordSize r) > mb then (True, res, acc)
      else collect mb rs (res @ [r]) (acc + recordSize r))"

lemma collect_append:
  "collect mb (xs @ ys) res acc =
   (case collect mb xs res acc of
      (True, res, acc) \<Rightarrow> (True, res, acc) | (False, res, acc) \<Rightarrow> collect mb ys res acc)"
  by (induction mb xs res acc rule: collect.induct) auto

lemma collect_fit: "res \<noteq> [] \<Longrightarrow> fst (snd (collect mb rs res acc)) = res @ fit (mb - int acc) rs"
  by (induction mb rs res acc rule: collect.induct) (auto simp: algebra_simps)

lemma collect_window: "fst (snd (collect mb rs [] 0)) = window mb rs"
  by (cases rs) (auto simp: window_def collect_fit)

lemma take_records_collect:
  assumes "\<forall>i < length rs. srOffset (rs ! i) = of_nat (off + i)"
    and "off + length rs < 2 ^ 64" "c < 2 ^ 64" "rs = [] \<longrightarrow> off \<le> c"
    and "collect mb (filter (\<lambda>r. of_nat c \<le> srOffset r) rs) res acc = (st, res', acc')"
  shows "\<exists>c'. take_records mb rs res acc (of_nat c) = (st, res', acc', of_nat c') \<and>
    (\<not> st \<longrightarrow> c' = max c (off + length rs))"
  using assms
proof (induction rs arbitrary: off c res acc)
  case (Cons r rs)
  have r: "srOffset r = of_nat off" using Cons.prems(1) by force
  have rs: "\<forall>i < length rs. srOffset (rs ! i) = of_nat (Suc off + i)"
    using Cons.prems(1) by force
  have lt: "Suc off + length rs < 2 ^ 64" "off < 2 ^ 64" "Suc off < 2 ^ 64" using Cons.prems(2) by auto
  show ?case
  proof (cases "off < c")
    case True
    then have "rs = [] \<longrightarrow> Suc off \<le> c" by simp
    with True show ?thesis
      using Cons.IH [OF rs lt(1) Cons.prems(3)] Cons.prems(3,5) lt r by (auto simp: max_def)
  next
    case False
    have all: "filter (\<lambda>r. of_nat x \<le> srOffset r) rs = rs" if "x \<le> Suc off" for x
      using that rs lt by (auto simp: filter_id_conv in_set_conv_nth simp del: of_nat_add of_nat_Suc)
    have suc: "of_nat off + 1 = (of_nat (Suc off) :: u64)" by simp
    show ?thesis
    proof (cases "res \<noteq> [] \<and> int acc + int (recordSize r) > mb")
      case True
      then show ?thesis using False Cons.prems(3,5) lt r by auto
    next
      case fits: False
      from Cons.prems(5) fits False Cons.prems(3) lt r all [of c]
      have "collect mb (filter (\<lambda>r. of_nat (Suc off) \<le> srOffset r) rs) (res @ [r]) (acc + recordSize r)
        = (st, res', acc')" by (simp only: all [of "Suc off"]) auto
      from Cons.IH [OF rs lt(1) lt(3) _ this] fits False Cons.prems(3) lt r show ?thesis
        by (simp add: suc max_def del: of_nat_Suc) auto
    qed
  qed
qed auto

section \<open>Scanning a segment\<close>

lemma batch_length_field:
  assumes "encodable b"
  shows "9 + unat (Uint32 (gslice (take 9 (batch_bytes b @ post)) 5 9)) = length (batch_bytes b)"
proof -
  have "sub_at (batch_bytes b @ post) 0 (frame_bytes (batch_body b))"
    using sub_at_mid [of "[]" "batch_bytes b" post] by (simp add: batch_bytes_def)
  from frame_sub_at(3) [OF this]
  have "Uint32 (gslice (take 9 (batch_bytes b @ post)) 5 9) = of_nat (4 + length (batch_body b))"
    by (simp only: gslice_take [of 9 9, OF le_refl])
  moreover have "4 + length (batch_body b) < 2 ^ 32"
    using assms by (simp add: encodable_def length_batch_bytes length_batch_body)
  ultimately show ?thesis
    by (simp only: unat_of_nat_u32) (simp add: length_batch_bytes length_batch_body)
qed

lemma ReadFull_cases:
  assumes "pos + n \<le> length (content d (path seg))" "\<not> handlesClosed seg"
  obtains d' where "files d' = files d" "faults d = [] \<longrightarrow> d' = d"
      "ReadFull seg n (int pos) d = (Inr (take n (drop pos (content d (path seg)))), d')"
  | d' where "files d' = files d" "faults d \<noteq> []" "ReadFull seg n (int pos) d = (Inl EIO, d')"
  using sys_pread_cases [OF assms(1)] assms(2) by (auto simp: ReadFull_def ReadAt_def)

text \<open>
  What a scan may do to the disk and to its result: it reads, so no file changes, and only a
  failing disk makes it fail.
\<close>

definition reads_ok :: "disk \<Rightarrow> (err + 'a) \<times> disk \<Rightarrow> ('a \<Rightarrow> bool) \<Rightarrow> bool" where
  "reads_ok d rd P \<longleftrightarrow> files (snd rd) = files d \<and> (faults d = [] \<longrightarrow> snd rd = d) \<and>
     (case fst rd of Inl e \<Rightarrow> e = EIO \<and> faults d \<noteq> [] | Inr x \<Rightarrow> P x)"

lemma reads_ok_trans:
  "reads_ok d' rd P \<Longrightarrow> files d' = files d \<Longrightarrow> faults d = [] \<longrightarrow> d' = d \<Longrightarrow> reads_ok d rd P"
  by (auto simp: reads_ok_def split: sum.splits)

lemma read_batch_ok:
  assumes ct: "content d (path seg) = pre @ batch_bytes b @ post" and enc: "encodable b"
    and op: "\<not> handlesClosed seg" and size: "segSize seg = length (content d (path seg))"
  shows "reads_ok d (read_batch seg (int (length pre)) d) (\<lambda>x. x = (b, length (batch_bytes b)))"
proof -
  let ?n = "length (batch_bytes b)" and ?pos = "length pre"
  have n: "33 \<le> ?n" by (rule length_batch_bytes_ge)
  have sz: "?pos + ?n \<le> segSize seg" using ct size by simp
  have t9: "take 9 (drop ?pos (content d (path seg))) = take 9 (batch_bytes b @ post)"
    and tn: "take ?n (drop ?pos (content d (path seg))) = batch_bytes b"
    using ct by simp_all
  have dec: "DecodeBatch (batch_bytes b) = Inr b"
    using DecodeBatch_batch_bytes [OF enc, of "[]"] by simp
  have le9: "?pos + 9 \<le> length (content d (path seg))" using sz n size by simp
  have guard: "\<not> int ?pos + 9 > int (segSize seg)" "\<not> int ?pos + int ?n > int (segSize seg)"
    using sz n by auto
  show ?thesis
  proof (rule ReadFull_cases [OF le9 op], goal_cases)
    case (1 d1)
    note r1 = this
    have c1: "content d1 (path seg) = content d (path seg)" by (rule content_cong [OF r1(1)])
    have len: "?pos + ?n \<le> length (content d1 (path seg))" using sz size c1 by simp
    have eq: "read_batch seg (int ?pos) d =
      (case ReadFull seg ?n (int ?pos) d1 of
         (Inl e, d) \<Rightarrow> (Inl e, d)
       | (Inr batchBuf, d) \<Rightarrow> (rbind (DecodeBatch batchBuf) (\<lambda>recs. Inr (recs, ?n)), d))"
      unfolding read_batch_def r1(3) Let_def t9 batch_length_field [OF enc] if_not_P [OF guard(1)]
      by (simp only: prod.case sum.case batch_length_field [OF enc] if_not_P [OF guard(2)])
    show ?case
    proof (rule ReadFull_cases [OF len op], goal_cases)
      case (1 d2)
      show ?case unfolding eq 1(3) c1 tn using 1 r1 by (auto simp: reads_ok_def dec)
    next
      case (2 d2)
      show ?case unfolding eq 2(3) using 2 r1 by (auto simp: reads_ok_def)
    qed
  next
    case (2 d1)
    then show ?case unfolding read_batch_def 2(3) if_not_P [OF guard(1)] by (simp add: reads_ok_def)
  qed
qed

lemma scan_loop_ok:
  assumes "content d (path seg) = log_bytes xs @ log_bytes ys" "segSize seg = length (content d (path seg))"
    and "\<not> handlesClosed seg"
    and "chain off ys fin" "fin < 2 ^ 64" "c < 2 ^ 64" "ys = [] \<longrightarrow> off \<le> c"
    and "collect mb (filter (\<lambda>r. of_nat c \<le> srOffset r) (concat ys)) res acc = (st, res', acc')"
  shows "reads_ok d (scan_loop seg mb (int (length (log_bytes xs))) res acc (of_nat c) d)
    (\<lambda>x. \<exists>c'. x = (st, res', acc', of_nat c') \<and> (\<not> st \<longrightarrow> c' = max c fin))"
  using assms
proof (induction ys arbitrary: xs off c res acc d)
  case Nil
  then show ?case by (subst scan_loop.simps) (auto simp: reads_ok_def max_def)
next
  case (Cons b ys)
  let ?f = "\<lambda>c. filter (\<lambda>r. of_nat c \<le> srOffset r)"
  note prems = Cons.prems
  have b: "batch_at off b" and ch: "chain (off + length b) ys fin" using prems(4) by auto
  have mid: "off + length b < 2 ^ 64" using chain_le [OF ch] prems(5) by simp
  have pos: "int (length (log_bytes xs)) < int (segSize seg)"
    using prems(1,2) length_batch_bytes_ge [of b] by auto
  obtain st1 res1 acc1 where col: "collect mb (?f c b) res acc = (st1, res1, acc1)"
    using prod_cases3 by blast
  obtain c1 where tk: "take_records mb b res acc (of_nat c) = (st1, res1, acc1, of_nat c1)"
    and c1: "\<not> st1 \<longrightarrow> c1 = max c (off + length b)"
    using take_records_collect [OF _ mid prems(6) _ col] b batch_atD [OF b]
    by (auto simp: batch_at_def)
  have rb: "reads_ok d (read_batch seg (int (length (log_bytes xs))) d) (\<lambda>x. x = (b, length (batch_bytes b)))"
    using prems(1,2,3) batch_atD(1) [OF b] by (intro read_batch_ok) auto
  obtain r d1 where rd: "read_batch seg (int (length (log_bytes xs))) d = (r, d1)" by fastforce
  have d1: "files d1 = files d" "faults d = [] \<longrightarrow> d1 = d" using rb by (auto simp: rd reads_ok_def)
  show ?case
  proof (cases r)
    case (Inl e)
    then show ?thesis using rb pos by (subst scan_loop.simps) (auto simp: rd reads_ok_def)
  next
    case (Inr x)
    then have x: "x = (b, length (batch_bytes b))" using rb by (simp add: rd reads_ok_def)
    have step: "scan_loop seg mb (int (length (log_bytes xs))) res acc (of_nat c) d =
      (if st1 then (Inr (st1, res1, acc1, of_nat c1), d1)
       else scan_loop seg mb (int (length (log_bytes (xs @ [b])))) res1 acc1 (of_nat c1) d1)"
      using pos by (subst scan_loop.simps) (simp add: rd Inr x tk)
    show ?thesis
    proof (cases st1)
      case True
      then show ?thesis using prems(8) col d1 unfolding step by (auto simp: collect_append reads_ok_def)
    next
      case False
      then have c1: "c1 = max c (off + length b)" using c1 by simp
      have c1b: "c1 < 2 ^ 64" using c1 mid prems(6) by simp
      have "?f c1 (concat ys) = ?f c (concat ys)"
        using c1 by (intro chain_filter_from [OF ch prems(5) c1b _ prems(6)]) (simp add: max_def)
      then have col': "collect mb (?f c1 (concat ys)) res1 acc1 = (st, res', acc')"
        using prems(8) col False by (simp add: collect_append)
      have "reads_ok d1 (scan_loop seg mb (int (length (log_bytes (xs @ [b])))) res1 acc1 (of_nat c1) d1)
        (\<lambda>x. \<exists>c'. x = (st, res', acc', of_nat c') \<and> (\<not> st \<longrightarrow> c' = max c1 fin))"
        using prems(1,2) content_cong [OF d1(1)]
        by (intro Cons.IH [OF _ _ prems(3) ch prems(5) c1b _ col']) (auto simp: c1)
      moreover have "max c1 fin = max c fin" using c1 chain_le [OF ch] by simp
      ultimately show ?thesis unfolding step using False d1 by (auto intro: reads_ok_trans)
    qed
  qed
qed

section \<open>The sparse index\<close>

text \<open>
  The binary search finds a batch boundary at or before the wanted offset, so a scan from there
  misses nothing.
\<close>

lemma start_pos_ok:
  assumes idx: "index_ok bs (indexEntries g)" and ch: "chain (unat (baseOffset g)) bs fin" "fin < 2 ^ 64"
    and c: "unat (baseOffset g) \<le> c" "c < 2 ^ 64" and size: "length (log_bytes bs) < 2 ^ 63"
  obtains xs ys where "bs = xs @ ys" "start_pos g (of_nat c) = int (length (log_bytes xs))"
    "unat (baseOffset g) + length (concat xs) \<le> c"
proof -
  let ?es = "indexEntries g" and ?base = "unat (baseOffset g)"
  let ?f = "\<lambda>j. baseOffset g + ucast (RelativeOffset (?es ! j)) > of_nat c"
  let ?k = "sort_search ?f 0 (length ?es)"
  have bnd: "is_bound bs (?es ! j)" if "j < length ?es" for j
    using idx that by (auto simp: index_ok_def)
  have f: "?f j \<longleftrightarrow> c < ?base + unat (RelativeOffset (?es ! j))" if j: "j < length ?es" for j
  proof -
    from bnd [OF j] obtain xs b ys where "bs = xs @ b # ys"
      and r: "unat (RelativeOffset (?es ! j)) = length (concat xs)" by (rule is_bound_split)
    then have "?base + length (concat xs) < 2 ^ 64"
      using ch chain_fin [OF ch(1)] by simp
    then have "unat (baseOffset g + ucast (RelativeOffset (?es ! j))) = ?base + length (concat xs)"
      using r by (subst unat_add_lem [THEN iffD1]) simp_all
    then show ?thesis using c r by (simp add: word_less_nat_alt)
  qed
  have mono: "\<forall>a b. a \<le> b \<and> b < length ?es \<and> ?f a \<longrightarrow> ?f b"
  proof (intro allI impI, elim conjE)
    fix a b assume ab: "a \<le> b" "b < length ?es" "?f a"
    have le: "unat (RelativeOffset (?es ! a)) \<le> unat (RelativeOffset (?es ! b))"
      using index_ok_mono [OF idx ab(1,2)] by (simp add: word_le_nat_alt)
    have "a < length ?es" using ab by simp
    from ab(3) [unfolded f [OF this]] le show "?f b" unfolding f [OF ab(2)] by linarith
  qed
  show ?thesis
  proof (cases "?k = 0")
    case True
    then show ?thesis using that [of "[]" bs] c by (simp add: start_pos_def)
  next
    case False
    then have k: "?k - 1 < length ?es" "?k - 1 < ?k" using sort_search_first(1) [OF mono] by auto
    from bnd [OF k(1)] obtain xs b ys where bs: "bs = xs @ b # ys"
      and r: "unat (RelativeOffset (?es ! (?k - 1))) = length (concat xs)"
      and p: "unat (Position (?es ! (?k - 1))) = length (log_bytes xs)" by (rule is_bound_split)
    have "\<not> ?f (?k - 1)" by (rule sort_search_first(2) [OF mono k(2)])
    then have le: "?base + length (concat xs) \<le> c" unfolding f [OF k(1)] r by simp
    have "unat (Position (?es ! (?k - 1))) < 2 ^ 63" unfolding p using size by (simp add: bs)
    from sint_small [OF this] have "start_pos g (of_nat c) = int (length (log_bytes xs))"
      using False by (simp only: start_pos_def Let_def p) simp
    then show ?thesis by (rule that [OF bs _ le])
  qed
qed

section \<open>Reading across segments\<close>

lemma scan_segments_ok:
  assumes "list_all2 (seg_repr mbb d0) gs bss" "linked gs"
    and "gs \<noteq> [] \<longrightarrow> unat (baseOffset (hd gs)) \<le> c" "c < 2 ^ 64" "files d = files d0"
    and "collect mb (filter (\<lambda>r. of_nat c \<le> srOffset r) (concat (concat bss))) res acc = (st, res', acc')"
  shows "reads_ok d (scan_segments gs mb res acc (of_nat c) d) (\<lambda>x. x = res')"
  using assms
proof (induction gs bss arbitrary: c res acc d rule: list_all2_induct)
  case Nil
  then show ?case by (simp add: reads_ok_def)
next
  case (Cons g gs bs bss)
  let ?f = "\<lambda>c. filter (\<lambda>r. of_nat c \<le> srOffset r)"
  note g = seg_reprD [OF Cons.hyps(1)]
  have fin: "unat (nextOffset g) < 2 ^ 64" by (rule u64_less)
  have base: "unat (baseOffset g) \<le> c" using Cons.prems(2) by simp
  obtain xs ys where bs: "bs = xs @ ys" and sp: "start_pos g (of_nat c) = int (length (log_bytes xs))"
    and le: "unat (baseOffset g) + length (concat xs) \<le> c"
    using start_pos_ok [OF g(5,4) fin base Cons.prems(3)] g(2,3) by metis
  have chx: "chain (unat (baseOffset g)) xs (unat (baseOffset g) + length (concat xs))"
    and chy: "chain (unat (baseOffset g) + length (concat xs)) ys (unat (nextOffset g))"
    using g(4) by (simp_all add: bs chain_append)
  have "?f c (concat xs) = []"
    using chain_filter_none [OF chx _ le Cons.prems(3)] chain_le [OF chy] fin by simp
  then have split: "?f c (concat (concat (bs # bss))) = ?f c (concat ys) @ ?f c (concat (concat bss))"
    by (simp add: bs)
  obtain st1 res1 acc1 where col: "collect mb (?f c (concat ys)) res acc = (st1, res1, acc1)"
    using prod_cases3 by blast
  have sl: "reads_ok d (scan_loop g mb (start_pos g (of_nat c)) res acc (of_nat c) d)
    (\<lambda>x. \<exists>c'. x = (st1, res1, acc1, of_nat c') \<and> (\<not> st1 \<longrightarrow> c' = max c (unat (nextOffset g))))"
    unfolding sp using g(1,2) content_cong [OF Cons.prems(4)] le
    by (intro scan_loop_ok [OF _ _ g(6) chy fin Cons.prems(3) _ col]) (auto simp: bs)
  obtain r d1 where rd: "scan_loop g mb (start_pos g (of_nat c)) res acc (of_nat c) d = (r, d1)" by fastforce
  have d1: "files d1 = files d" "faults d = [] \<longrightarrow> d1 = d" using sl by (auto simp: rd reads_ok_def)
  show ?case
  proof (cases "st1 \<or> (\<exists>e. r = Inl e)")
    case True
    then show ?thesis using sl Cons.prems(5) col unfolding split
      by (auto simp: rd reads_ok_def collect_append split: sum.splits)
  next
    case False
    let ?c = "max c (unat (nextOffset g))"
    have r: "r = Inr (False, res1, acc1, of_nat ?c)" using False sl by (auto simp: rd reads_ok_def split: sum.splits)
    have linked: "linked gs" "gs \<noteq> [] \<longrightarrow> baseOffset (hd gs) = nextOffset g"
      using Cons.prems(1) by (cases gs; simp add: linked_def)+
    have "?f ?c (concat (concat bss)) = ?f c (concat (concat bss))"
    proof (cases "gs = []")
      case False
      show ?thesis using linked(2) False fin Cons.prems(3)
        by (intro chain_filter_from [OF segments_chain [OF Cons.hyps(2) linked(1) False] u64_less]) (auto simp: max_def)
    qed (use Cons.hyps(2) in simp)
    then have "collect mb (?f ?c (concat (concat bss))) res1 acc1 = (st, res', acc')"
      using Cons.prems(5) col False unfolding split by (simp add: collect_append)
    from Cons.IH [OF linked(1) _ _ _ this, of d1] linked(2) fin Cons.prems(3,4) d1
    have "reads_ok d1 (scan_segments gs mb res1 acc1 (of_nat ?c) d1) (\<lambda>x. x = res')" by simp
    then show ?thesis using d1 by (simp add: rd r reads_ok_trans)
  qed
qed

lemma segments_next_mono:
  assumes "list_all2 (seg_repr mb d) gs bss" "linked gs" "a \<le> b" "b < length gs"
  shows "nextOffset (gs ! a) \<le> nextOffset (gs ! b)"
  using assms(3,4)
proof (induction b)
  case (Suc b)
  show ?case
  proof (cases "a = Suc b")
    case False
    then have le: "nextOffset (gs ! a) \<le> nextOffset (gs ! b)" using Suc by simp
    have "nextOffset (gs ! b) = baseOffset (gs ! Suc b)"
      using assms(2) Suc.prems(2) by (auto simp: linked_def successively_conv_nth)
    moreover have "baseOffset (gs ! Suc b) \<le> nextOffset (gs ! Suc b)"
      using chain_le [OF seg_reprD(4) [OF list_all2_nthD [OF assms(1) Suc.prems(2)]]]
      by (simp add: word_le_nat_alt)
    ultimately show ?thesis using le by simp
  qed simp
qed simp

text \<open>
  Reading a healthy store at an offset in range: the records of the log from that offset on,
  cut at the byte budget. Only a failing disk can make it an error, and no file changes.
\<close>

lemma read_locked_ok:
  assumes repr: "store_repr s d bss" and mb: "0 < maxBytes"
    and off: "earliestOffset s \<le> offset" "offset \<le> logEndOffset s"
  shows "reads_ok d (read_locked offset maxBytes s d) (\<lambda>x. x = read_spec offset maxBytes (concat (concat bss)))"
proof (cases "offset = logEndOffset s")
  case True
  have "filter (\<lambda>r. of_nat (unat offset) \<le> srOffset r) (concat (concat bss)) = []"
    using True by (intro chain_filter_none [OF store_repr_chain [OF repr] u64_less _ u64_less]) simp
  then show ?thesis
    using repr mb off True by (simp add: read_locked_def store_repr_def reads_ok_def read_spec_def window_def)
next
  case False
  let ?gs = "segments s" and ?f = "\<lambda>i. nextOffset (segments s ! i) > offset"
  let ?k = "sort_search ?f 0 (length ?gs)"
  have gs: "list_all2 (seg_repr (maxBatchBytes s) d) ?gs bss" "linked ?gs" "?gs \<noteq> []"
    "logEndOffset s = nextOffset (last ?gs)" "earliestOffset s = baseOffset (hd ?gs)"
    using repr by (auto simp: store_repr_def)
  have mono: "\<forall>a b. a \<le> b \<and> b < length ?gs \<and> ?f a \<longrightarrow> ?f b"
    using segments_next_mono [OF gs(1,2)] by (meson order_less_le_trans)
  have "?f (length ?gs - 1)" using off(2) False gs(3,4) by (simp add: last_conv_nth)
  then have k: "?k < length ?gs"
    using sort_search_first(1,2) [OF mono] gs(3) by (metis diff_less length_greater_0_conv less_one nat_less_le)
  note low = sort_search_first(2) [OF mono]
  have split: "list_all2 (seg_repr (maxBatchBytes s) d) (take ?k ?gs) (take ?k bss)"
    "list_all2 (seg_repr (maxBatchBytes s) d) (drop ?k ?gs) (drop ?k bss)"
    "linked (take ?k ?gs)" "linked (drop ?k ?gs)"
    "take ?k ?gs \<noteq> [] \<longrightarrow> nextOffset (last (take ?k ?gs)) = baseOffset (hd (drop ?k ?gs))"
    using gs k successively_append_iff [of _ "take ?k ?gs" "drop ?k ?gs"]
    by (auto simp: linked_def list_all2_takeI list_all2_dropI)
  have before: "nextOffset (last (take ?k ?gs)) \<le> offset" if "take ?k ?gs \<noteq> []"
    using that low [of "?k - 1"] k by (simp add: last_conv_nth)
  have base: "unat (baseOffset (hd (drop ?k ?gs))) \<le> unat offset"
    using before split(5) gs(3,5) off(1) by (cases "?k = 0") (auto simp: word_le_nat_alt)
  have none: "filter (\<lambda>r. of_nat (unat offset) \<le> srOffset r) (concat (concat (take ?k bss))) = []"
  proof (cases "take ?k ?gs = []")
    case False
    then show ?thesis
      using before by (intro chain_filter_none [OF segments_chain [OF split(1,3)] u64_less _ u64_less])
        (auto simp: word_le_nat_alt)
  qed (use gs(3) in simp)
  have "concat (concat bss) = concat (concat (take ?k bss)) @ concat (concat (drop ?k bss))"
    by (metis append_take_drop_id concat_append)
  then have spec: "read_spec offset maxBytes (concat (concat bss)) =
    window maxBytes (filter (\<lambda>r. of_nat (unat offset) \<le> srOffset r) (concat (concat (drop ?k bss))))"
    using none by (simp add: read_spec_def)
  obtain st res' acc' where col: "collect maxBytes
      (filter (\<lambda>r. of_nat (unat offset) \<le> srOffset r) (concat (concat (drop ?k bss)))) [] 0 = (st, res', acc')"
    using prod_cases3 by blast
  have "reads_ok d (scan_segments (drop ?k ?gs) maxBytes [] 0 (of_nat (unat offset)) d) (\<lambda>x. x = res')"
    using base by (intro scan_segments_ok [OF split(2,4) _ u64_less refl col]) simp
  moreover have "read_locked offset maxBytes s d = scan_segments (drop ?k ?gs) maxBytes [] 0 offset d"
    using repr mb off False k by (auto simp: read_locked_def store_repr_def Let_def)
  moreover have "res' = read_spec offset maxBytes (concat (concat bss))"
    using collect_window [of maxBytes] col unfolding spec by (metis fst_conv snd_conv)
  ultimately show ?thesis by simp
qed

lemma Read_ok:
  assumes "store_repr s d bss" "0 < maxBytes" "earliestOffset s \<le> offset" "offset \<le> logEndOffset s"
    and "Read offset maxBytes s d = (r, s', d')"
  shows "files d' = files d" "faults d = [] \<longrightarrow> d' = d" "\<exists>ev. s' = observe ev s"
    "case r of Inl e \<Rightarrow> e = EIO \<and> faults d \<noteq> []
     | Inr x \<Rightarrow> x = read_spec offset maxBytes (concat (concat bss))"
proof -
  obtain r0 d0 where rd: "read_locked offset maxBytes s d = (r0, d0)" by fastforce
  note ok = read_locked_ok [OF assms(1-4)]
  have eq: "r = r0" "d' = d0" "\<exists>ev. s' = observe ev s"
    using assms(5) by (auto simp: Read_def rd Let_def)
  show "files d' = files d" "faults d = [] \<longrightarrow> d' = d" "\<exists>ev. s' = observe ev s"
    "case r of Inl e \<Rightarrow> e = EIO \<and> faults d \<noteq> []
     | Inr x \<Rightarrow> x = read_spec offset maxBytes (concat (concat bss))"
    using ok eq by (auto simp: rd reads_ok_def)
qed

section \<open>The byte budget\<close>

lemma prefix_fit: "\<exists>zs. rs = fit mb rs @ zs"
  by (induction mb rs rule: fit.induct) auto

lemma fit_bytes: "0 \<le> mb \<Longrightarrow> int (sum_list (map recordSize (fit mb rs))) \<le> mb"
  by (induction mb rs rule: fit.induct) fastforce+

lemma window_prefix: "\<exists>zs. rs = window mb rs @ zs"
  using prefix_fit by (cases rs) (auto simp: window_def)

lemma window_Nil [simp]: "window mb rs = [] \<longleftrightarrow> rs = []"
  by (cases rs) (auto simp: window_def)

lemma fit_neg: "mb < 0 \<Longrightarrow> fit mb rs = []"
  by (cases rs) auto

lemma window_bytes: "length (window mb rs) \<le> 1 \<or> int (sum_list (map recordSize (window mb rs))) \<le> mb"
proof (cases rs)
  case (Cons r rs')
  show ?thesis
  proof (cases "mb < int (recordSize r)")
    case True
    then show ?thesis using Cons by (simp add: window_def fit_neg)
  next
    case False
    then show ?thesis using Cons fit_bytes [of "mb - int (recordSize r)" rs'] by (simp add: window_def)
  qed
qed (simp add: window_def)

text \<open>A window that leaves records out is full: the next one would exceed the budget.\<close>

lemma fit_maximal: "rs = fit mb rs @ z # zs \<Longrightarrow> int (sum_list (map recordSize (fit mb rs))) + int (recordSize z) > mb"
  by (induction mb rs rule: fit.induct) (auto split: if_splits)

lemma window_maximal:
  "rs = window mb rs @ z # zs \<Longrightarrow> int (sum_list (map recordSize (window mb rs))) + int (recordSize z) > mb"
  using fit_maximal by (cases rs) (fastforce simp: window_def)+

end
