(* ===== verification/Log_Append.thy ===== *)
theory Log_Append
  imports Log_Read
begin

text \<open>
  What \<open>Append\<close> does to a healthy store: an acknowledged batch is the new end of the log, an error
  leaves the log as it was or takes the store out of service, and no acknowledged byte is ever
  overwritten. All of it holds for every pattern of disk failures.
\<close>

section \<open>The stamped records\<close>

lemma length_stamp [simp]: "length (stamp base ts rs) = length rs"
  by (simp add: stamp_def)

lemma stamp_Nil [simp]: "stamp base ts rs = [] \<longleftrightarrow> rs = []"
  using length_stamp [of base ts rs] by (metis length_0_conv)

lemma stamp_nth:
  "i < length rs \<Longrightarrow> srOffset (stamp base ts rs ! i) = base + of_nat i"
  "i < length rs \<Longrightarrow> srTimestamp (stamp base ts rs ! i) = ts"
  by (simp_all add: stamp_def nth_enumerate_eq)

lemma stamp_timestamp: "r \<in> set (stamp base ts rs) \<Longrightarrow> srTimestamp r = ts"
  by (auto simp: stamp_def)

lemma max_timestamp_append:
  assumes "\<forall>r \<in> set ys. srTimestamp r = ts" "ys \<noteq> []"
  shows "max_timestamp (xs @ ys) = (if sint ts > sint (max_timestamp xs) then ts else max_timestamp xs)"
proof -
  let ?f = "\<lambda>m r. if sint (srTimestamp r) > sint m then srTimestamp r else m"
  have same: "foldl ?f m ys = m" if "\<not> sint ts > sint m" "\<forall>r \<in> set ys. srTimestamp r = ts" for m ys
    using that by (induction ys) auto
  obtain y ys' where ys: "ys = y # ys'" using assms(2) by (cases ys) auto
  show ?thesis
    using assms(1) same [of ts ys'] same [of "max_timestamp xs" ys']
    by (simp add: max_timestamp_def ys)
qed

lemma max_timestamp_Nil [simp]: "max_timestamp [] = 0"
  by (simp add: max_timestamp_def)

lemma stamp_max_timestamp:
  "rs \<noteq> [] \<Longrightarrow> max_timestamp (stamp base ts rs) = (if sint ts > 0 then ts else 0)"
  using max_timestamp_append [of "stamp base ts rs" ts "[]"] stamp_timestamp by simp

text \<open>
  A timestamp above the least 64-bit integer and a batch below \<open>2 ^ 31\<close> bytes make a batch that
  decodes to itself.
\<close>

lemma stamp_encodable:
  assumes "rs \<noteq> []" "length (batch_bytes (stamp base ts rs)) < 2 ^ 31" "- (2 ^ 63) < sint ts"
  shows "encodable (stamp base ts rs)"
  unfolding encodable_def
proof (intro conjI ballI)
  let ?b = "stamp base ts rs"
  show "?b \<noteq> []" "length (batch_bytes ?b) < 2 ^ 31" using assms(1,2) by simp_all
  fix r assume r: "r \<in> set ?b"
  then obtain i where i: "i < length rs" "r = ?b ! i" by (auto simp: in_set_conv_nth)
  have "length rs * 24 < 2 ^ 31"
    using record_payload_ge [of ?b] assms(2) by (simp add: length_batch_bytes)
  then have "i < 2 ^ 32" "i < 2 ^ 64" using i(1) by simp_all
  moreover have "srOffset (hd ?b) = base" using stamp_nth(1) [of 0 rs] assms(1) by (simp add: hd_conv_nth)
  ultimately show "unat (srOffset r - srOffset (hd ?b)) < 2 ^ 32"
    using i by (simp add: stamp_nth)
  show "\<not> sint (max_timestamp ?b - srTimestamp r) < 0"
    using stamp_timestamp [OF r] sint_uminus_u64 [OF assms(3)]
    by (simp add: stamp_max_timestamp [OF assms(1)])
qed

lemma stamp_batch_at:
  "encodable (stamp base ts rs) \<Longrightarrow> batch_at (unat base) (stamp base ts rs)"
  by (simp add: batch_at_def stamp_nth)

section \<open>A batch at the end of a segment\<close>

lemma is_bound_rel:
  assumes "is_bound bs e" "chain off bs fin"
  shows "unat (RelativeOffset e) < length (concat bs)"
proof -
  obtain xs b ys where bs: "bs = xs @ b # ys" and r: "unat (RelativeOffset e) = length (concat xs)"
    using assms(1) by (rule is_bound_split)
  have "b \<noteq> []" using assms(2) by (auto simp: bs chain_append dest: batch_atD)
  then show ?thesis by (simp add: bs r)
qed

lemma index_ok_grow:
  assumes "index_ok bs es" "es \<noteq> []"
  shows "index_ok (bs @ [b]) es"
proof -
  have "bs \<noteq> []" using assms by auto
  then show ?thesis using assms by (auto simp: index_ok_def is_bound_append)
qed

lemma index_ok_snoc:
  assumes "index_ok bs es" "chain off bs fin"
    and "unat (RelativeOffset e) = length (concat bs)" "unat (Position e) = length (log_bytes bs)"
  shows "index_ok (bs @ [b]) (es @ [e])"
proof -
  have less: "entry_less x e" if "x \<in> set es" for x
  proof -
    have "is_bound bs x" using assms(1) that by (simp add: index_ok_def)
    from is_bound_rel [OF this assms(2)] is_bound_pos [OF this] show ?thesis
      using assms(3,4) by (simp add: entry_less_def word_less_nat_alt)
  qed
  have e: "is_bound (bs @ [b]) e" using assms(3,4) by (simp add: is_bound_def bounds_append)
  have hd: "hd (es @ [e]) = \<lparr>RelativeOffset = 0, Position = 0\<rparr>"
  proof (cases "bs = []")
    case True
    then have "es = []" "unat (RelativeOffset e) = 0" "unat (Position e) = 0" using assms by simp_all
    then show ?thesis by (simp add: unat_eq_zero)
  next
    case False
    then show ?thesis using assms(1) by (simp add: index_ok_def)
  qed
  show ?thesis
    using assms(1) less e hd by (auto simp: index_ok_def sorted_wrt_append is_bound_append)
qed

text \<open>
  The segment after a batch was written and the fields brought up to date, with or without a new
  index entry.
\<close>

lemma seg_repr_extend:
  assumes repr: "seg_repr mb d g bs" and b: "batch_at (unat (nextOffset g)) b"
    and len: "int (length (batch_bytes b)) \<le> mb" "segSize g + length (batch_bytes b) < 2 ^ 63"
      "unat (nextOffset g) + length b < 2 ^ 64"
    and ct: "map_of (files d') (path g) = Some (log_bytes bs @ batch_bytes b)"
    and g': "path g' = path g" "indexPath g' = indexPath g" "baseOffset g' = baseOffset g"
      "\<not> handlesClosed g'" "segSize g' = segSize g + length (batch_bytes b)"
      "nextOffset g' = nextOffset g + of_nat (length b)"
      "maxTimestamp g' = max_timestamp (concat bs @ b)"
    and idx: "index_ok (bs @ [b]) (indexEntries g')" "lastIndexedPosition g' = last_indexed (indexEntries g')"
  shows "seg_repr mb d' g' (bs @ [b])"
proof -
  have next': "unat (nextOffset g') = unat (nextOffset g) + length b"
    unfolding g'(6) using len(3) by (simp add: unat_word_ariths)
  show ?thesis
    using repr b len ct g' idx next' chain_fin
    by (auto simp: seg_repr_def chain_append fits_def) 
qed

section \<open>What the segment operations do to the disk\<close>

text \<open>A flush keeps every file; when it succeeds the log file is on stable storage.\<close>

lemma Flush_facts:
  assumes "Flush g d = (r, g', d')"
  shows "files d' = files d" "\<exists>x. g' = g\<lparr>indexDirty := x\<rparr>"
    "r = None \<Longrightarrow> path g \<noteq> indexPath g \<Longrightarrow> map_of (flushed d') (path g) = Some (content d (path g))"
    "q \<noteq> path g \<Longrightarrow> q \<noteq> indexPath g \<Longrightarrow> map_of (flushed d') q = map_of (flushed d) q"
    "faults d = [] \<Longrightarrow> faults d' = []" "faults d = [] \<Longrightarrow> \<not> handlesClosed g \<Longrightarrow> r = None"
proof -
  have id: "\<exists>x. g = g\<lparr>indexDirty := x\<rparr>" by (rule exI [of _ "indexDirty g"]) simp
  obtain r1 d1 where f1: "sys_fsync (path g) d = (r1, d1)" by fastforce
  obtain r2 d2 where f2: "sys_fsync (indexPath g) d1 = (r2, d2)" by fastforce
  note eqs = Flush_def FlushIndex_def f1 f2
  have "files d' = files d \<and> (\<exists>x. g' = g\<lparr>indexDirty := x\<rparr>) \<and>
    (r = None \<longrightarrow> path g \<noteq> indexPath g \<longrightarrow> map_of (flushed d') (path g) = Some (content d (path g))) \<and>
    (q \<noteq> path g \<longrightarrow> q \<noteq> indexPath g \<longrightarrow> map_of (flushed d') q = map_of (flushed d) q) \<and>
    (faults d = [] \<longrightarrow> faults d' = []) \<and> (faults d = [] \<longrightarrow> \<not> handlesClosed g \<longrightarrow> r = None)"
    using f1
  proof (cases rule: sys_fsync_cases)
    case 1
    from f2 show ?thesis
      by (cases rule: sys_fsync_cases) (use assms 1 id in \<open>auto simp: eqs split: if_splits\<close>)
  next
    case 2
    then show ?thesis using assms id by (auto simp: eqs split: if_splits)
  qed
  then show "files d' = files d" "\<exists>x. g' = g\<lparr>indexDirty := x\<rparr>"
    "r = None \<Longrightarrow> path g \<noteq> indexPath g \<Longrightarrow> map_of (flushed d') (path g) = Some (content d (path g))"
    "q \<noteq> path g \<Longrightarrow> q \<noteq> indexPath g \<Longrightarrow> map_of (flushed d') q = map_of (flushed d) q"
    "faults d = [] \<Longrightarrow> faults d' = []" "faults d = [] \<Longrightarrow> \<not> handlesClosed g \<Longrightarrow> r = None"
    by blast+
qed

lemma SegAppend_facts:
  assumes "SegAppend g data d = (r, g', d')" "segSize g = length (content d (path g))" "\<not> handlesClosed g"
  obtains n where "n \<le> length data" "flushed d' = flushed d"
    "map_of (files d') = (map_of (files d))(path g \<mapsto> content d (path g) @ take n data)"
    "faults d = [] \<longrightarrow> faults d' = [] \<and> r = Inr (segSize g)"
    "case r of Inl e \<Rightarrow> g' = g
     | Inr pos \<Rightarrow> n = length data \<and> pos = segSize g \<and> g' = g\<lparr>segSize := segSize g + length data\<rparr>"
proof -
  obtain n e d1 where w: "sys_pwrite (path g) (segSize g) data d = ((n, e), d1)"
    by (metis surj_pair)
  note f = sys_pwrite_facts [OF w]
  have "d' = d1" using assms(1,3) w by (auto simp: SegAppend_def Let_def split: option.splits if_splits)
  then show ?thesis
    using f assms w by (intro that [of n]) (auto simp: SegAppend_def Let_def splice_append split: option.splits if_splits)
qed

lemma AppendIndexEntry_facts:
  assumes "AppendIndexEntry g e d = (r, g', d')"
  obtains m where "flushed d' = flushed d" "faults d = [] \<longrightarrow> faults d' = []"
    "\<forall>q. q \<noteq> indexPath g \<longrightarrow> map_of (files d') q = map_of (files d) q"
    "g' = g\<lparr>indexEntries := indexEntries g @ [e], lastIndexedPosition := sint (Position e),
            indexDirty := True, indexSize := m\<rparr>"
proof -
  obtain n er d1 where w: "sys_pwrite (indexPath g) (indexSize g) (entry_bytes e) d = ((n, er), d1)"
    by (metis surj_pair)
  note f = sys_pwrite_facts [OF w]
  let ?m = "if er = None \<and> n = 12 \<and> \<not> handlesClosed g then indexSize g + 12 else indexSize g"
  show ?thesis
    using f assms w
    by (intro that [of ?m]) (auto simp: AppendIndexEntry_def Let_def split: option.splits if_splits)
qed

lemma NewSegment_facts:
  assumes "NewSegment base act d = (r, d')"
  shows "flushed d' = flushed d" "faults d = [] \<Longrightarrow> faults d' = [] \<and> (\<exists>g. r = Inr g)"
    "map_of (files d') q = map_of (files d) q \<or> map_of (files d) q = None \<and> map_of (files d') q = Some []
       \<and> q \<in> {log_name base, index_name base}"
    "r = Inr g \<Longrightarrow> map_of (files d') (log_name base) = Some (content d (log_name base)) \<and>
       (g = \<lparr>baseOffset = base, nextOffset = base, segSize = length (content d (log_name base)),
          path = log_name base, indexPath = index_name base, indexEntries = [], lastIndexedPosition = -1,
          indexSize = length (content d (index_name base)), indexDirty = False, active = act, maxTimestamp = 0, handlesClosed = False\<rparr>)"
proof -
  obtain r1 d1 where e1: "sys_open_create (log_name base) d = (r1, d1)" by fastforce
  obtain r2 d2 where e2: "sys_stat (log_name base) d1 = (r2, d2)" by fastforce
  obtain r3 d3 where e3: "sys_open_create (index_name base) d2 = (r3, d3)" by fastforce
  obtain r4 d4 where e4: "sys_stat (index_name base) d3 = (r4, d4)" by fastforce
  note f = sys_open_create_facts [OF e1] sys_stat_facts [OF e2] sys_open_create_facts [OF e3] sys_stat_facts [OF e4]
  have ct: "content d2 (index_name base) = content d (index_name base)"
    "content d1 (log_name base) = content d (log_name base)"
    using f(3,4,5) by (cases r1; simp add: content_def)+
  have q1: "map_of (files d1) q = map_of (files d) q \<or> map_of (files d) q = None \<and> map_of (files d1) q = Some []
       \<and> q = log_name base" for q
    using f(3,4) by (cases r1) (auto simp: content_def split: option.splits)
  have q3: "map_of (files d3) q = map_of (files d1) q \<or> map_of (files d1) q = None \<and> map_of (files d3) q = Some []
       \<and> q = index_name base" for q
    using f(5,12,13) by (cases r3) (auto simp: content_def split: option.splits)
  have ct3: "content d3 (index_name base) = content d (index_name base)"
    using q1 [of "index_name base"] q3 [of "index_name base"] by (auto simp: content_def)
  show "flushed d' = flushed d"
    using assms f(1,6,10,15) by (auto simp: NewSegment_def e1 e2 e3 e4 Let_def split: sum.splits)
  show "faults d = [] \<Longrightarrow> faults d' = [] \<and> (\<exists>g. r = Inr g)"
    using assms f by (auto simp: NewSegment_def e1 e2 e3 e4 Let_def split: sum.splits)
  show "map_of (files d') q = map_of (files d) q \<or> map_of (files d) q = None \<and> map_of (files d') q = Some []
       \<and> q \<in> {log_name base, index_name base}"
    using assms q1 [of q] q3 [of q] f(5) sys_stat_facts(1) [OF e4]
    by (auto simp: NewSegment_def e1 e2 e3 e4 Let_def split: sum.splits)
  show "r = Inr g \<Longrightarrow> map_of (files d') (log_name base) = Some (content d (log_name base)) \<and>
       (g = \<lparr>baseOffset = base, nextOffset = base, segSize = length (content d (log_name base)),
          path = log_name base, indexPath = index_name base, indexEntries = [], lastIndexedPosition = -1,
          indexSize = length (content d (index_name base)), indexDirty = False, active = act, maxTimestamp = 0, handlesClosed = False\<rparr>)"
    using assms f(3,5,9,18) q3 [of "log_name base"] ct ct3 sys_stat_facts(1) [OF e4]
    by (auto simp: NewSegment_def e1 e2 e3 e4 Let_def split: sum.splits)
qed

section \<open>Rolling the active segment\<close>

text \<open>What no operation changes, and what stays on the disk: log files only grow at their end.\<close>

definition config :: "store \<Rightarrow> int \<times> int \<times> int \<times> gostring" where
  "config s = (segmentMaxBytes s, maxBatchBytes s, indexIntervalBytes s, flushMode s)"

definition keeps_logs :: "disk \<Rightarrow> disk \<Rightarrow> bool" where
  "keeps_logs d d' \<longleftrightarrow>
     (\<forall>b c. map_of (files d) (log_name b) = Some c \<longrightarrow> (\<exists>t. map_of (files d') (log_name b) = Some (c @ t)))"

text \<open>Every segment that holds data holds it on stable storage.\<close>

definition durable :: "store \<Rightarrow> disk \<Rightarrow> bool" where
  "durable s d \<longleftrightarrow>
     (\<forall>g \<in> set (segments s). segSize g > 0 \<longrightarrow> map_of (flushed d) (path g) = Some (content d (path g)))"

text \<open>The same of all segments but the active one, which holds in every flush mode.\<close>

definition closed_durable :: "store \<Rightarrow> disk \<Rightarrow> bool" where
  "closed_durable s d \<longleftrightarrow> (\<forall>g \<in> set (butlast (segments s)). segSize g > 0 \<longrightarrow>
     map_of (flushed d) (path g) = Some (content d (path g)))"

lemma durable_closed: "durable s d \<Longrightarrow> closed_durable s d"
  by (auto simp: durable_def closed_durable_def dest: in_set_butlastD)

lemma keeps_logs_refl [simp]: "files d' = files d \<Longrightarrow> keeps_logs d d'"
  by (auto simp: keeps_logs_def)

lemma keeps_logs_trans: "keeps_logs d d' \<Longrightarrow> keeps_logs d' d'' \<Longrightarrow> keeps_logs d d''"
  by (fastforce simp: keeps_logs_def)

lemma NewSegment_keeps:
  assumes "NewSegment base act d = (r, d')"
  shows "keeps_logs d d'"
  unfolding keeps_logs_def
proof (intro allI impI)
  fix b c assume "map_of (files d) (log_name b) = Some c"
  then show "\<exists>t. map_of (files d') (log_name b) = Some (c @ t)"
    using NewSegment_facts(3) [OF assms, of "log_name b"] by auto
qed

lemma NewSegment_fresh:
  assumes "NewSegment base act d = (Inr g, d')" "map_of (files d) (log_name base) = None"
  shows "seg_repr mb d' g []" "baseOffset g = base" "nextOffset g = base" "segSize g = 0"
    "path g = log_name base" "map_of (files d') q \<noteq> map_of (files d) q \<longrightarrow> q \<in> {log_name base, index_name base}"
  using NewSegment_facts(4) [OF assms(1) refl] NewSegment_facts(3) [OF assms(1), of q] assms(2)
  by (auto simp: seg_repr_def last_indexed_def content_def)

lemma store_repr_names:
  assumes "store_repr s d bss" "g \<in> set (segments s)"
  shows "path g = log_name (baseOffset g)" "indexPath g = index_name (baseOffset g)"
    "segSize g = length (content d (path g))" "\<not> handlesClosed g" "map_of (files d) (path g) \<noteq> None"
  using assms by (auto simp: store_repr_def seg_repr_def list_all2_conv_all_nth in_set_conv_nth content_def)

lemma store_repr_end_fresh:
  assumes repr: "store_repr s d bss" and "segSize (active_seg s) > 0"
  shows "map_of (files d) (log_name (logEndOffset s)) = None" "last bss \<noteq> []" "bss \<noteq> []"
proof -
  note a = store_repr_active [OF repr]
  have gs: "list_all2 (seg_repr (maxBatchBytes s) d) (segments s) bss" "segments s \<noteq> []"
    "no_strays d (segments s)" "logEndOffset s = nextOffset (active_seg s)"
    using repr a(1) by (auto simp: store_repr_def)
  show ne: "bss \<noteq> []" using gs(1,2) by auto
  have last: "seg_repr (maxBatchBytes s) d (active_seg s) (last bss)"
    using gs(1,2) ne list_all2_lengthD [OF gs(1)]
    by (auto simp: a(1) last_conv_nth intro: list_all2_nthD)
  show lne: "last bss \<noteq> []" using seg_reprD(2) [OF last] assms(2) by auto
  have "baseOffset (active_seg s) < logEndOffset s"
    using chain_fin [OF seg_reprD(4) [OF last]] batch_atD(2) seg_reprD(4) [OF last] lne gs(4)
    by (cases "last bss") (auto simp: word_less_nat_alt)
  moreover have "baseOffset g \<le> baseOffset (active_seg s)" if "g \<in> set (segments s)" for g
    using store_repr_closed_path(3) [OF repr] that by (subst (asm) a(2)) (auto simp: order_less_imp_le)
  ultimately have "logEndOffset s \<notin> baseOffset ` set (segments s)" by fastforce
  then show "map_of (files d) (log_name (logEndOffset s)) = None"
    using gs(3) by (auto simp: no_strays_def)
qed

text \<open>A segment added at the end of a store whose last one holds data.\<close>

lemma store_repr_add_segment:
  assumes repr: "store_repr s d bss" and ne: "last bss \<noteq> []"
    and new: "seg_repr (maxBatchBytes s) d' g' []" "baseOffset g' = logEndOffset s" "nextOffset g' = logEndOffset s"
    and other: "\<forall>q. map_of (files d') q \<noteq> map_of (files d) q \<longrightarrow> q \<in> {log_name (logEndOffset s), index_name (logEndOffset s)}"
    and fresh: "map_of (files d) (log_name (logEndOffset s)) = None"
    and s': "segments s' = butlast (segments s) @ [(active_seg s)\<lparr>indexDirty := x, active := False\<rparr>, g']"
      "activeSegment s' = length (segments s)" "config s' = config s" "\<not> closed s'" "\<not> writeFailed s'"
      "earliestOffset s' = earliestOffset s" "logEndOffset s' = logEndOffset s"
  shows "store_repr s' d' (bss @ [[]])"
proof -
  note a = store_repr_active [OF repr]
  let ?a = "(active_seg s)\<lparr>indexDirty := x, active := False\<rparr>" and ?gs = "butlast (segments s)"
  have gs: "list_all2 (seg_repr (maxBatchBytes s) d) (?gs @ [active_seg s]) bss" "linked (?gs @ [active_seg s])"
    "no_strays d (?gs @ [active_seg s])" "logEndOffset s = nextOffset (active_seg s)"
    "earliestOffset s = baseOffset (hd (?gs @ [active_seg s]))"
    "\<forall>bs \<in> set (butlast bss). bs \<noteq> []"
    using repr a(1,2) by (auto simp: store_repr_def)
  have same: "seg_repr (maxBatchBytes s) d' g bs" if "seg_repr (maxBatchBytes s) d g bs" for g bs
  proof -
    have "path g = log_name (baseOffset g)" "map_of (files d) (path g) \<noteq> None"
      using that by (auto simp: seg_repr_def)
    then have "map_of (files d') (path g) = map_of (files d) (path g)" using other fresh by auto
    then show ?thesis using that seg_repr_files by blast
  qed
  have all: "list_all2 (seg_repr (maxBatchBytes s) d') (?gs @ [?a]) bss"
    using list_all2_mono [OF gs(1) same] by (auto simp: list_all2_append1 list_all2_Cons1)
  have full: "\<forall>bs \<in> set (butlast (bss @ [[]])). bs \<noteq> []"
    unfolding butlast_snoc using gs(6) ne by (cases bss rule: rev_cases) auto
  have strays: "no_strays d' (?gs @ [?a, g'])"
    unfolding no_strays_def
  proof (intro allI impI)
    fix b assume b: "map_of (files d') (log_name b) \<noteq> None"
    show "b \<in> baseOffset ` set (?gs @ [?a, g'])"
    proof (cases "b = logEndOffset s")
      case False
      then have "map_of (files d) (log_name b) \<noteq> None"
        using other b by (metis insertE log_name_inj names_distinct(1) singletonD)
      then have "b \<in> baseOffset ` set (?gs @ [active_seg s])" using gs(3) by (simp add: no_strays_def)
      then show ?thesis by auto
    qed (use new(2) in simp)
  qed
  have linked: "linked (?gs @ [?a, g'])"
    using gs(2,4) new(2) by (auto simp: linked_def successively_append_iff)
  have ends: "baseOffset (hd (?gs @ [?a, g'])) = earliestOffset s" "nextOffset (last (?gs @ [?a, g'])) = logEndOffset s"
    using gs(5) new(3) by (cases ?gs; simp)+
  have lims: "limits_ok s'" "maxBatchBytes s' = maxBatchBytes s"
    using repr s'(3) by (auto simp: store_repr_def config_def limits_ok_def)
  have all': "list_all2 (seg_repr (maxBatchBytes s) d') (?gs @ [?a, g']) (bss @ [[]])"
    using list_all2_appendI [OF all, of "[g']" "[[]]"] new(1) by simp
  have "length (segments s) = length (?gs @ [?a, g']) - 1" using a(2) by (metis length_append_singleton append_Cons append_Nil append_assoc diff_Suc_1)
  then show ?thesis
    unfolding store_repr_def s' lims(2) using lims(1) all' full strays linked ends s'(4,5) by simp
qed

lemma durable_add_segment:
  assumes repr: "store_repr s d bss" and dur: "closed_durable s d"
    and fl: "map_of (flushed d') (path (active_seg s)) = Some (content d (path (active_seg s)))"
      "\<forall>q. q \<noteq> path (active_seg s) \<longrightarrow> q \<noteq> indexPath (active_seg s) \<longrightarrow> map_of (flushed d') q = map_of (flushed d) q"
    and same: "\<forall>g \<in> set (segments s). map_of (files d') (path g) = map_of (files d) (path g)"
    and s': "segments s' = butlast (segments s) @ [(active_seg s)\<lparr>indexDirty := x, active := False\<rparr>, g']"
      "segSize g' = 0"
  shows "durable s' d'"
  unfolding durable_def s'(1)
proof (intro ballI impI)
  note a = store_repr_active [OF repr]
  fix g assume "g \<in> set (butlast (segments s) @ [(active_seg s)\<lparr>indexDirty := x, active := False\<rparr>, g'])" "segSize g > 0"
  then consider "g \<in> set (butlast (segments s))" "segSize g > 0"
    | "g = (active_seg s)\<lparr>indexDirty := x, active := False\<rparr>" using s'(2) by auto
  then show "map_of (flushed d') (path g) = Some (content d' (path g))"
  proof cases
    case 1
    then have "g \<in> set (segments s)" by (simp add: in_set_butlastD)
    then show ?thesis
      using store_repr_closed_path [OF repr 1(1)] fl(2) dur same 1 \<open>g \<in> set (segments s)\<close> by (auto simp: closed_durable_def content_def)
  next
    case 2
    have "active_seg s \<in> set (segments s)" using a(2) by (metis in_set_conv_decomp)
    then show ?thesis using 2 fl(1) same by (auto simp: content_def)
  qed
qed

text \<open>What a step of an append may do to the rest of the store.\<close>

definition same_frame :: "store \<Rightarrow> store \<Rightarrow> bool" where
  "same_frame s s' \<longleftrightarrow> config s' = config s \<and> earliestOffset s' = earliestOffset s \<and> closed s' = closed s"

lemma roll_segment_ok:
  assumes repr: "store_repr s d bss" and roll: "roll_segment n s d = (r, s', d')"
  shows "keeps_logs d d'" "same_frame s s'" "r \<noteq> None \<longrightarrow> writeFailed s'" "logEndOffset s' = logEndOffset s"
    "faults d = [] \<longrightarrow> r = None \<and> faults d' = []"
    "r = None \<Longrightarrow> \<exists>bss'. store_repr s' d' bss' \<and> bss' \<in> {bss, bss @ [[]]} \<and>
       (segSize (active_seg s') = 0 \<or> int (segSize (active_seg s')) + int n \<le> segmentMaxBytes s)"
    "r = None \<Longrightarrow> closed_durable s d \<Longrightarrow> closed_durable s' d'"
proof -
  note a = store_repr_active [OF repr]
  have act: "active_seg s \<in> set (segments s)" using a(2) by (metis in_set_conv_decomp)
  note nm = store_repr_names [OF repr act]
  let ?full = "segSize (active_seg s) > 0 \<and> int (segSize (active_seg s)) + int n > segmentMaxBytes s"
  obtain r1 g1 d1 where fl: "Flush (active_seg s) d = (r1, g1, d1)" by (metis surj_pair)
  obtain r2 d2 where ns: "NewSegment (logEndOffset s) True d1 = (r2, d2)" by fastforce
  note F = Flush_facts [OF fl] and N = NewSegment_facts [OF ns]
  obtain x where g1: "g1 = (active_seg s)\<lparr>indexDirty := x\<rparr>" using F(2) by blast
  show "keeps_logs d d'"
    using roll F(1) NewSegment_keeps [OF ns] keeps_logs_trans [of d d1 d2]
    by (auto simp: roll_segment_def fl ns Let_def set_active_def split: if_splits option.splits sum.splits)
  show "same_frame s s'" "r \<noteq> None \<longrightarrow> writeFailed s'" "logEndOffset s' = logEndOffset s"
    "faults d = [] \<longrightarrow> r = None \<and> faults d' = []"
    using roll F(5,6) N(2) nm(4)
    by (auto simp: roll_segment_def fl ns Let_def same_frame_def config_def set_active_def
        split: if_splits option.splits sum.splits)
  have rolled: "\<exists>bss'. store_repr s' d' bss' \<and> bss' \<in> {bss, bss @ [[]]} \<and>
       (segSize (active_seg s') = 0 \<or> int (segSize (active_seg s')) + int n \<le> segmentMaxBytes s) \<and>
       (closed_durable s d \<longrightarrow> closed_durable s' d')"
    if "r = None"
  proof (cases ?full)
    case False
    then show ?thesis using roll repr by (auto simp: roll_segment_def)
  next
    case True
    then obtain g' where g': "r2 = Inr g'" and d': "d' = d2"
      and s': "s' = (let s = set_active (g1\<lparr>active := False\<rparr>) s in
                 s\<lparr>segments := segments s @ [g'], activeSegment := length (segments s)\<rparr>)"
      using roll \<open>r = None\<close> by (auto simp: roll_segment_def fl ns Let_def set_active_def
          split: option.splits sum.splits)
    note fresh = store_repr_end_fresh [OF repr conjunct1 [OF True]]
    have new: "seg_repr mb d2 g' []" "baseOffset g' = logEndOffset s" "nextOffset g' = logEndOffset s"
      "segSize g' = 0" "map_of (files d2) q \<noteq> map_of (files d) q \<longrightarrow> q \<in> {log_name (logEndOffset s), index_name (logEndOffset s)}"
      for mb q
      using NewSegment_fresh [OF ns [unfolded g']] fresh(1) F(1) by auto
    have segs: "segments s' = butlast (segments s) @ [(active_seg s)\<lparr>indexDirty := x, active := False\<rparr>, g']"
      "activeSegment s' = length (segments s)"
      unfolding s' a(3) g1 Let_def using a(4) by (simp_all, metis a(2) length_append_singleton)
    have "store_repr s' d2 (bss @ [[]])"
      using repr segs by (intro store_repr_add_segment [OF repr fresh(2) new(1-3) _ fresh(1), where x = x] allI new(5))
        (auto simp: s' config_def set_active_def Let_def store_repr_def)
    moreover have "length (segments s) = Suc (length (butlast (segments s)))"
      using a(2) by (metis length_append_singleton)
    then have "active_seg s' = g'" by (simp add: active_seg_def segs nth_append del: length_butlast)
    moreover have "closed_durable s' d2" if "closed_durable s d"
    proof (rule durable_closed, rule durable_add_segment [OF repr that _ _ _ segs(1) new(4)])
      have "r1 = None" using roll \<open>r = None\<close> True by (auto simp: roll_segment_def fl split: option.splits)
      then show "map_of (flushed d2) (path (active_seg s)) = Some (content d (path (active_seg s)))"
        using F(3) N(1) nm(1,2) by simp
      show "\<forall>q. q \<noteq> path (active_seg s) \<longrightarrow> q \<noteq> indexPath (active_seg s) \<longrightarrow> map_of (flushed d2) q = map_of (flushed d) q"
        using F(4) N(1) by simp
      show "\<forall>g \<in> set (segments s). map_of (files d2) (path g) = map_of (files d) (path g)"
        using store_repr_names [OF repr] new(5) fresh(1) by (metis insertE names_distinct(1) singletonD)
    qed
    ultimately show ?thesis using new(4) by (intro exI [of _ "bss @ [[]]"]) (simp add: d')
  qed
  then show "r = None \<Longrightarrow> \<exists>bss'. store_repr s' d' bss' \<and> bss' \<in> {bss, bss @ [[]]} \<and>
       (segSize (active_seg s') = 0 \<or> int (segSize (active_seg s')) + int n \<le> segmentMaxBytes s)"
    "r = None \<Longrightarrow> closed_durable s d \<Longrightarrow> closed_durable s' d'" by blast+
qed

section \<open>Writing the batch\<close>

lemma append_index_ok:
  assumes ai: "append_index s relative pos g d = (g', d')"
    and idx: "index_ok bs (indexEntries g)" "lastIndexedPosition g = last_indexed (indexEntries g)"
    and ch: "chain off bs fin" and rel: "unat relative = length (concat bs)" "unat relative < 2 ^ 32"
    and pos: "pos = length (log_bytes bs)" "pos < 2 ^ 63"
  obtains es l m x where "g' = g\<lparr>indexEntries := es, lastIndexedPosition := l, indexDirty := x, indexSize := m\<rparr>"
    "index_ok (bs @ [b]) es" "l = last_indexed es" "flushed d' = flushed d" "faults d = [] \<longrightarrow> faults d' = []"
    "\<forall>q. q \<noteq> indexPath g \<longrightarrow> map_of (files d') q = map_of (files d) q"
proof (cases "indexEntries g = [] \<or> int pos - lastIndexedPosition g \<ge> indexIntervalBytes s")
  case False
  then show ?thesis
    using ai idx index_ok_grow [OF idx(1), of b]
    by (intro that [where es = "indexEntries g" and l = "lastIndexedPosition g" and x = "indexDirty g"
          and m = "indexSize g"])
      (auto simp: append_index_def)
next
  case True
  let ?e = "\<lparr>RelativeOffset = ucast relative, Position = of_nat pos\<rparr>"
  obtain r g1 d1 where ae: "AppendIndexEntry g ?e d = (r, g1, d1)" by (metis surj_pair)
  have eq: "g' = g1" "d' = d1" using ai True by (simp_all add: append_index_def ae Let_def)
  have p: "unat (of_nat pos :: u64) = pos" using pos(2) by simp
  have "index_ok (bs @ [b]) (indexEntries g @ [?e])"
    using rel pos by (intro index_ok_snoc [OF idx(1) ch]) (simp_all add: unat_ucast_u32)
  moreover have "sint (of_nat pos :: u64) = last_indexed (indexEntries g @ [?e])"
    using p pos(2) by (simp add: last_indexed_def sint_of_nat_u64)
  ultimately show ?thesis
    using ae by (rule_tac AppendIndexEntry_facts [OF ae]) (rule that, auto simp: eq)
qed

lemma relative_offset:
  assumes "chain (unat base) bs (unat (fin :: u64))"
  shows "unat (fin - base) = length (concat bs)"
  using chain_fin [OF assms] chain_le [OF assms] by (simp add: unat_sub word_le_nat_alt)

lemma store_repr_last:
  assumes repr: "store_repr s d bss"
  shows "seg_repr (maxBatchBytes s) d (active_seg s) (last bss)" "bss = butlast bss @ [last bss]"
    "list_all2 (seg_repr (maxBatchBytes s) d) (butlast (segments s)) (butlast bss)"
    "active_seg s \<in> set (segments s)" "logEndOffset s = nextOffset (active_seg s)"
proof -
  note a = store_repr_active [OF repr]
  have gs: "list_all2 (seg_repr (maxBatchBytes s) d) (butlast (segments s) @ [active_seg s]) bss"
    using repr a(2) by (auto simp: store_repr_def)
  show "active_seg s \<in> set (segments s)" using a(2) by (metis in_set_conv_decomp)
  show "logEndOffset s = nextOffset (active_seg s)" using repr a(1) by (simp add: store_repr_def)
  show "seg_repr (maxBatchBytes s) d (active_seg s) (last bss)" "bss = butlast bss @ [last bss]"
    "list_all2 (seg_repr (maxBatchBytes s) d) (butlast (segments s)) (butlast bss)"
    using gs by (auto simp: list_all2_append1 list_all2_Cons1)
qed

lemma store_repr_extend:
  assumes repr: "store_repr s d bss" and new: "seg_repr (maxBatchBytes s) d' g' bs'"
    and g': "baseOffset g' = baseOffset (active_seg s)"
    and other: "\<forall>q. map_of (files d') q \<noteq> map_of (files d) q \<longrightarrow> q \<in> {path (active_seg s), indexPath (active_seg s)}"
    and s': "segments s' = butlast (segments s) @ [g']" "activeSegment s' = activeSegment s"
      "config s' = config s" "\<not> closed s'" "\<not> writeFailed s'"
      "earliestOffset s' = earliestOffset s" "logEndOffset s' = nextOffset g'"
  shows "store_repr s' d' (butlast bss @ [bs'])"
proof -
  note a = store_repr_active [OF repr] and l = store_repr_last [OF repr]
  let ?gs = "butlast (segments s)"
  have same: "list_all2 (seg_repr (maxBatchBytes s) d') ?gs (butlast bss)"
  proof (rule list.rel_mono_strong [OF l(3)])
    fix g bs assume g: "g \<in> set ?gs" "seg_repr (maxBatchBytes s) d g bs"
    then have "map_of (files d') (path g) = map_of (files d) (path g)"
      using other store_repr_closed_path(1,2) [OF repr g(1)] by auto
    then show "seg_repr (maxBatchBytes s) d' g bs" using g(2) seg_repr_files by blast
  qed
  have all: "list_all2 (seg_repr (maxBatchBytes s) d') (?gs @ [g']) (butlast bss @ [bs'])"
    using list_all2_appendI [OF same, of "[g']" "[bs']"] new by simp
  have links: "linked (?gs @ [g'])"
    using repr a(2) g' unfolding store_repr_def by (metis linked_append)
  have strays: "no_strays d' (?gs @ [g'])"
    unfolding no_strays_def
  proof (intro allI impI)
    fix b assume b: "map_of (files d') (log_name b) \<noteq> None"
    have "map_of (files d) (log_name b) \<noteq> None"
      using b other store_repr_names [OF repr l(4)] by (metis insertE names_distinct(1) singletonD)
    then have "b \<in> baseOffset ` set (?gs @ [active_seg s])"
      using repr a(2) by (simp add: store_repr_def no_strays_def)
    then show "b \<in> baseOffset ` set (?gs @ [g'])" using g' by auto
  qed
  have "baseOffset (hd (?gs @ [g'])) = baseOffset (hd (?gs @ [active_seg s]))" using g' by (simp add: hd_append)
  then have first: "baseOffset (hd (?gs @ [g'])) = earliestOffset s"
    using repr a(2) by (simp add: store_repr_def)
  have lims: "limits_ok s'" "maxBatchBytes s' = maxBatchBytes s"
    using repr s'(3) by (auto simp: store_repr_def config_def limits_ok_def)
  have "\<forall>bs \<in> set (butlast (butlast bss @ [bs'])). bs \<noteq> []" using repr by (simp add: store_repr_def)
  then show ?thesis
    unfolding store_repr_def s' lims(2) using lims(1) all links strays first s'(4,5) a(4) by simp
qed

text \<open>The batch in the file, the fields and the index brought up to date, before the flush.\<close>

lemma append_written:
  assumes repr: "store_repr s d bss"
    and b: "b = stamp (logEndOffset s) ts recs" "encodable b" "int (length (batch_bytes b)) \<le> maxBatchBytes s"
      "unat (logEndOffset s) + length recs < 2 ^ 64"
    and size: "segSize (active_seg s) + length (batch_bytes b) < 2 ^ 63"
    and rel: "relative = logEndOffset s - baseOffset (active_seg s)" "unat relative < 2 ^ 32"
    and d1: "map_of (files d1) = (map_of (files d))(path (active_seg s) \<mapsto> content d (path (active_seg s)) @ batch_bytes b)"
    and g: "g = (active_seg s)\<lparr>segSize := segSize (active_seg s) + length (batch_bytes b),
        maxTimestamp := (if sint ts > sint (maxTimestamp (active_seg s)) then ts else maxTimestamp (active_seg s)),
        nextOffset := logEndOffset s + of_nat (length recs)\<rparr>"
    and ai: "append_index s1 relative (segSize (active_seg s)) g d1 = (g', d')"
    and s': "segments s' = butlast (segments s) @ [g']" "activeSegment s' = activeSegment s"
      "config s' = config s" "\<not> closed s'" "\<not> writeFailed s'"
      "earliestOffset s' = earliestOffset s" "logEndOffset s' = logEndOffset s + of_nat (length recs)"
  shows "store_repr s' d' (butlast bss @ [last bss @ [b]])"
    "flushed d' = flushed d1" "faults d1 = [] \<longrightarrow> faults d' = []"
    "\<forall>q. map_of (files d') q \<noteq> map_of (files d) q \<longrightarrow> q \<in> {path (active_seg s), indexPath (active_seg s)}"
    "map_of (files d') (path (active_seg s)) = Some (content d (path (active_seg s)) @ batch_bytes b)"
proof -
  let ?a = "active_seg s" and ?bs = "last bss"
  note l = store_repr_last [OF repr] and nm = store_repr_names [OF repr store_repr_last(4) [OF repr]]
  note sr = seg_reprD [OF l(1)]
  have recs: "recs \<noteq> []" using b(1,2) by (auto simp: encodable_def)
  have relb: "unat relative = length (concat ?bs)"
    unfolding rel(1) l(5) by (rule relative_offset [OF sr(4)])
  have li: "lastIndexedPosition ?a = last_indexed (indexEntries ?a)" "maxTimestamp ?a = max_timestamp (concat ?bs)"
    using l(1) by (simp_all add: seg_repr_def)
  obtain es p m x where g': "g' = g\<lparr>indexEntries := es, lastIndexedPosition := p, indexDirty := x, indexSize := m\<rparr>"
    and ix: "index_ok (?bs @ [b]) es" "p = last_indexed es" and fl: "flushed d' = flushed d1" "faults d1 = [] \<longrightarrow> faults d' = []"
    and fs: "\<forall>q. q \<noteq> indexPath g \<longrightarrow> map_of (files d') q = map_of (files d1) q"
  proof (rule append_index_ok [OF ai _ _ sr(4) relb rel(2) sr(2,3), of b])
    show "index_ok ?bs (indexEntries g)" "lastIndexedPosition g = last_indexed (indexEntries g)"
      using li(1) sr(5) by (simp_all add: g)
  qed
  show q: "\<forall>q. map_of (files d') q \<noteq> map_of (files d) q \<longrightarrow> q \<in> {path ?a, indexPath ?a}"
    using fs d1 by (auto simp: g split: if_splits)
  show ct: "map_of (files d') (path ?a) = Some (content d (path ?a) @ batch_bytes b)"
    using fs d1 nm(1,2) by (simp add: g)
  show "flushed d' = flushed d1" "faults d1 = [] \<longrightarrow> faults d' = []" by (rule fl)+
  have mt: "maxTimestamp g = max_timestamp (concat ?bs @ b)"
    using max_timestamp_append [of b ts "concat ?bs"] stamp_timestamp recs li(2) by (auto simp: b(1) g)
  have "batch_at (unat (nextOffset ?a)) b" using stamp_batch_at b(1,2) l(5) by simp
  then have new: "seg_repr (maxBatchBytes s) d' g' (?bs @ [b])"
    using b size ct sr(1) mt ix nm(4) l(5)
    by (intro seg_repr_extend [OF l(1), where d' = d']) (simp_all add: g' g del: seg_repr_fields)
  show "store_repr s' d' (butlast bss @ [?bs @ [b]])"
    by (rule store_repr_extend [OF repr new _ q s'(1-6)]) (simp_all add: s'(7) g' g)
qed

text \<open>
  What an append promises, of a store that holds the batches \<open>bss\<close>, on every path: no log file
  loses a byte, an error takes the store out of service, and a result means that the batch \<open>b\<close>
  is the end of the log.
\<close>

definition append_post ::
  "store \<Rightarrow> disk \<Rightarrow> batch list list \<Rightarrow> batch \<Rightarrow> (err + u64 \<times> u64) \<times> store \<times> disk \<Rightarrow> bool" where
  "append_post s d bss b rsd \<longleftrightarrow> (let (r, s', d') = rsd; end = logEndOffset s + of_nat (length b) in
     keeps_logs d d' \<and> same_frame s s' \<and> (faults d = [] \<longrightarrow> faults d' = []) \<and>
     (case r of
        Inl e \<Rightarrow> writeFailed s'
      | Inr res \<Rightarrow> res = (logEndOffset s, end - 1) \<and> logEndOffset s' = end \<and>
          (\<exists>bss'. store_repr s' d' bss' \<and> bss' \<in> {butlast bss @ [last bss @ [b]], bss @ [[b]]}) \<and>
          (closed_durable s d \<longrightarrow> closed_durable s' d' \<and> (flushMode s = sync_mode \<longrightarrow> durable s' d'))))"

lemma set_active_set_active [simp]: "set_active g (set_active g' s) = set_active g s"
  by (simp add: set_active_def)

lemma same_frame_simps [simp]:
  "same_frame s (observe ev s') \<longleftrightarrow> same_frame s s'" "same_frame s (updateGaugesLocked s') \<longleftrightarrow> same_frame s s'"
  "same_frame s (s'\<lparr>writeFailed := x\<rparr>) \<longleftrightarrow> same_frame s s'" "same_frame s (s'\<lparr>logEndOffset := n\<rparr>) \<longleftrightarrow> same_frame s s'"
  "same_frame s (set_active g s') \<longleftrightarrow> same_frame s s'" "same_frame s s"
  by (simp_all add: same_frame_def config_def observe_def updateGaugesLocked_def set_active_def)

lemma set_active_dirty:
  assumes "store_repr s d bss" "files d' = files d"
  shows "store_repr (set_active ((active_seg s)\<lparr>indexDirty := x\<rparr>) s) d' bss"
proof -
  note l = store_repr_last [OF assms(1)] and a = store_repr_active [OF assms(1)]
  have "store_repr (set_active ((active_seg s)\<lparr>indexDirty := x\<rparr>) s) d (butlast bss @ [last bss])"
    using l assms(1) by (intro store_repr_extend [OF assms(1), where g' = "(active_seg s)\<lparr>indexDirty := x\<rparr>"])
      (auto simp: a(3) config_def store_repr_def)
  then show ?thesis using l(2) store_repr_files [OF assms(2)] by simp
qed

lemma finish_append_ok:
  assumes repr: "store_repr s d bss" and fin: "finish_append base lst s d = (r, s', d')"
  shows "files d' = files d" "same_frame s s'" "logEndOffset s' = logEndOffset s" "faults d = [] \<Longrightarrow> faults d' = []"
    "r = Inl e \<Longrightarrow> writeFailed s' \<and> faults d \<noteq> []"
    "r = Inr res \<Longrightarrow> res = (base, lst) \<and> store_repr s' d' bss"
    "r = Inr res \<Longrightarrow> closed_durable s d \<Longrightarrow> closed_durable s' d'"
    "r = Inr res \<Longrightarrow> flushMode s = sync_mode \<Longrightarrow> closed_durable s d \<Longrightarrow> durable s' d'"
proof -
  note l = store_repr_last [OF repr] and a = store_repr_active [OF repr]
  note nm = store_repr_names [OF repr l(4)]
  obtain r1 g1 d1 where fl: "Flush (active_seg s) d = (r1, g1, d1)" by (metis surj_pair)
  note F = Flush_facts [OF fl]
  obtain x where g1: "g1 = (active_seg s)\<lparr>indexDirty := x\<rparr>" using F(2) by blast
  note eqs = finish_append_def fl updateGaugesLocked_def
  show "files d' = files d" "same_frame s s'" "logEndOffset s' = logEndOffset s" "faults d = [] \<Longrightarrow> faults d' = []"
    "r = Inl e \<Longrightarrow> writeFailed s' \<and> faults d \<noteq> []"
    using fin F(1,5,6) nm(4) by (auto simp: eqs observe_def set_active_def same_frame_def config_def split: if_splits option.splits)
  show "r = Inr res \<Longrightarrow> res = (base, lst) \<and> store_repr s' d' bss"
    using fin repr set_active_dirty [OF repr F(1)] by (auto simp: eqs g1 split: if_splits option.splits)
  have cl: "map_of (flushed d1) (path g) = Some (content d1 (path g))"
    if "closed_durable s d" "g \<in> set (butlast (segments s))" "segSize g > 0" for g
    using that F(4) [of "path g"] store_repr_closed_path(1,2) [OF repr that(2)] content_cong [OF F(1)]
    by (simp add: closed_durable_def)
  show "closed_durable s' d'" if "r = Inr res" "closed_durable s d"
  proof (cases "flushMode s = sync_mode")
    case True
    then have "butlast (segments s') = butlast (segments s)" "d' = d1"
      using fin that(1) by (auto simp: eqs observe_def a(3) split: option.splits)
    then show ?thesis using cl [OF that(2)] by (simp add: closed_durable_def)
  next
    case False
    then show ?thesis using fin that by (auto simp: eqs observe_def closed_durable_def)
  qed
  assume sync: "r = Inr res" "flushMode s = sync_mode" "closed_durable s d"
  then have s': "segments s' = butlast (segments s) @ [g1]" "d' = d1" "r1 = None"
    using fin by (auto simp: eqs observe_def a(3) split: option.splits)
  have fp: "map_of (flushed d1) (path g1) = Some (content d1 (path g1))"
    using F(3) [OF s'(3)] nm(1,2) content_cong [OF F(1)] by (simp add: g1)
  show "durable s' d'" unfolding durable_def s' using fp cl [OF sync(3)] by auto
qed

lemma closed_durable_write:
  assumes "store_repr s d bss" "closed_durable s d" "butlast (segments s') = butlast (segments s)" "flushed d' = flushed d"
    and fs: "\<forall>q. map_of (files d') q \<noteq> map_of (files d) q \<longrightarrow> q \<in> {path (active_seg s), indexPath (active_seg s)}"
  shows "closed_durable s' d'"
  unfolding closed_durable_def assms(3)
proof (intro ballI impI)
  fix g assume g: "g \<in> set (butlast (segments s))" "segSize g > 0"
  have "map_of (files d') (path g) = map_of (files d) (path g)"
    using fs store_repr_closed_path(1,2) [OF assms(1) g(1)] by blast
  then show "map_of (flushed d') (path g) = Some (content d' (path g))"
    using assms(2,4) g by (simp add: closed_durable_def content_def)
qed

lemma keeps_logs_append:
  assumes "map_of (files d') p = Some (content d p @ t)"
    and "\<forall>q. map_of (files d') q \<noteq> map_of (files d) q \<longrightarrow> q \<in> {p, index_name b}"
  shows "keeps_logs d d'"
  unfolding keeps_logs_def
proof (intro allI impI)
  fix b' c assume c: "map_of (files d) (log_name b') = Some c"
  show "\<exists>t. map_of (files d') (log_name b') = Some (c @ t)"
  proof (cases "log_name b' = p")
    case True
    then show ?thesis using assms(1) c by (auto simp: content_def)
  next
    case False
    then have "map_of (files d') (log_name b') = map_of (files d) (log_name b')"
      using assms(2) by (metis insertE names_distinct(1) singletonD)
    then show ?thesis using c by simp
  qed
qed

lemma append_active_written:
  assumes repr: "store_repr s d bss"
    and b: "b = stamp (logEndOffset s) ts recs" "encodable b" "int (length (batch_bytes b)) \<le> maxBatchBytes s"
      "unat (logEndOffset s) + length recs < 2 ^ 64"
    and size: "segSize (active_seg s) + length (batch_bytes b) < 2 ^ 63"
    and app: "append_active ts (length recs) (batch_bytes b) (logEndOffset s) s d = (r, s', d')"
    and rel: "unat (logEndOffset s - baseOffset (active_seg s)) < 2 ^ 32"
    and sa: "SegAppend (active_seg s) (batch_bytes b) d = (Inr pos, g1, d1)"
  shows "append_post s d bss b (r, s', d')" "faults d = [] \<Longrightarrow> \<exists>res. r = Inr res"
proof -
  let ?a = "active_seg s" and ?relative = "logEndOffset s - baseOffset (active_seg s)"
  let ?stop = "logEndOffset s + of_nat (length recs)"
  note a = store_repr_active [OF repr] and l = store_repr_last [OF repr]
  note nm = store_repr_names [OF repr l(4)]
  have d1: "flushed d1 = flushed d" "faults d = [] \<longrightarrow> faults d1 = []" "pos = segSize ?a"
    "map_of (files d1) = (map_of (files d))(path ?a \<mapsto> content d (path ?a) @ batch_bytes b)"
    "g1 = ?a\<lparr>segSize := segSize ?a + length (batch_bytes b)\<rparr>"
    by (rule SegAppend_facts [OF sa nm(3,4)]; simp)+
  define s1 where "s1 = s\<lparr>logEndOffset := ?stop\<rparr>"
  define g2 where "g2 = ?a\<lparr>segSize := segSize ?a + length (batch_bytes b),
      maxTimestamp := (if sint ts > sint (maxTimestamp ?a) then ts else maxTimestamp ?a), nextOffset := ?stop\<rparr>"
  obtain g3 d3 where ai: "append_index s1 ?relative (segSize ?a) g2 d1 = (g3, d3)" by fastforce
  have g2: "(if sint ts > sint (maxTimestamp g1) then g1\<lparr>maxTimestamp := ts\<rparr> else g1)\<lparr>nextOffset := ?stop\<rparr> = g2"
    by (simp add: g2_def d1(5))
  have fin: "finish_append (logEndOffset s) (?stop - 1) (set_active g3 s1) d3 = (r, s', d')"
    using app rel g2 ai by (simp add: append_active_def Let_def sa d1(3) s1_def)
  have seg: "segments (set_active g3 s1) = butlast (segments s) @ [g3]"
  proof -
    have "segments (set_active g3 s1) = segments (set_active g3 s)" by (simp add: set_active_def s1_def)
    then show ?thesis by (simp add: a(3))
  qed
  note w = append_written [OF repr b size refl rel d1(4) g2_def ai seg]
  have s1: "activeSegment (set_active g3 s1) = activeSegment s" "config (set_active g3 s1) = config s"
    "\<not> closed (set_active g3 s1)" "\<not> writeFailed (set_active g3 s1)" "same_frame s (set_active g3 s1)"
    "earliestOffset (set_active g3 s1) = earliestOffset s" "logEndOffset (set_active g3 s1) = ?stop"
    "flushMode (set_active g3 s1) = flushMode s"
    using repr by (auto simp: set_active_def s1_def config_def store_repr_def same_frame_def)
  note w = w [OF s1(1-4,6,7)]
  note f = finish_append_ok [OF w(1) fin]
  have keep: "keeps_logs d d'"
    using w(4,5) nm(2) keeps_logs_append [of d3 "path ?a" d _ "baseOffset ?a"] f(1)
    by (auto intro: keeps_logs_trans [of d d3 d'])
  have dur: "closed_durable s' d' \<and> (flushMode s = sync_mode \<longrightarrow> durable s' d')" if "r = Inr res" "closed_durable s d" for res
    using s1(8) closed_durable_write [OF repr that(2) _ _ w(4)] seg w(2) d1(1) f(7,8) [OF that(1)] by simp
  have frame: "same_frame s s'" using f(2) s1(5) by (simp add: same_frame_def)
  show "append_post s d bss b (r, s', d')"
  proof (cases r)
    case (Inl e)
    then show ?thesis using keep frame f(4,5) w(3) d1(2) by (simp add: append_post_def)
  next
    case (Inr res)
    then have "store_repr s' d' (butlast bss @ [last bss @ [b]])" using f(6) by blast
    then show ?thesis
      using Inr keep frame dur f(3,4,6) w(3) d1(2) s1(7) by (auto simp: append_post_def b(1))
  qed
  show "faults d = [] \<Longrightarrow> \<exists>res. r = Inr res" using f(5) w(3) d1(2) by (cases r) auto
qed

lemma append_active_ok:
  assumes repr: "store_repr s d bss"
    and b: "b = stamp (logEndOffset s) ts recs" "encodable b" "int (length (batch_bytes b)) \<le> maxBatchBytes s"
      "unat (logEndOffset s) + length recs < 2 ^ 64"
    and size: "segSize (active_seg s) + length (batch_bytes b) < 2 ^ 63"
    and app: "append_active ts (length recs) (batch_bytes b) (logEndOffset s) s d = (r, s', d')"
  shows "append_post s d bss b (r, s', d')"
    "faults d = [] \<Longrightarrow> unat (logEndOffset s - baseOffset (active_seg s)) < 2 ^ 32 \<Longrightarrow> \<exists>res. r = Inr res"
proof -
  let ?a = "active_seg s" and ?relative = "logEndOffset s - baseOffset (active_seg s)"
  note nm = store_repr_names [OF repr store_repr_last(4) [OF repr]]
  obtain r1 g1 d1 where sa: "SegAppend ?a (batch_bytes b) d = (r1, g1, d1)" by (metis surj_pair)
  obtain n where n: "faults d = [] \<longrightarrow> faults d1 = [] \<and> r1 = Inr (segSize ?a)"
    "map_of (files d1) = (map_of (files d))(path ?a \<mapsto> content d (path ?a) @ take n (batch_bytes b))"
    by (rule SegAppend_facts [OF sa nm(3,4)])
  have k1: "keeps_logs d d1" using n(2) by (intro keeps_logs_append [of _ "path ?a"]) auto
  note written = append_active_written [OF repr b size app]
  consider (over) "unat ?relative > 2 ^ 32 - 1" | (fails) e where "unat ?relative < 2 ^ 32" "r1 = Inl e"
    | (ok) pos where "unat ?relative < 2 ^ 32" "r1 = Inr pos"
    by (cases r1; cases "unat ?relative > 2 ^ 32 - 1") auto
  then show "append_post s d bss b (r, s', d')"
  proof cases
    case over
    then show ?thesis using app by (auto simp: append_active_def Let_def append_post_def)
  next
    case fails
    then show ?thesis using app k1 n by (auto simp: append_active_def Let_def sa append_post_def)
  next
    case ok
    then show ?thesis using written(1) sa by simp
  qed
  show "faults d = [] \<Longrightarrow> unat ?relative < 2 ^ 32 \<Longrightarrow> \<exists>res. r = Inr res"
    using written(2) sa n(1) by simp
qed

section \<open>Append\<close>

lemma observe_simps [simp]:
  "logEndOffset (observe ev s) = logEndOffset s" "earliestOffset (observe ev s) = earliestOffset s"
  "writeFailed (observe ev s) = writeFailed s" "segments (observe ev s) = segments s" "closed (observe ev s) = closed s"
  "config (observe ev s) = config s" "durable (observe ev s) d = durable s d" "active_seg (observe ev s) = active_seg s"
  "closed_durable (observe ev s) d = closed_durable s d"
  by (simp_all add: observe_def config_def durable_def closed_durable_def active_seg_def)

lemma append_post_observe [simp]:
  "append_post s d bss b (r, observe ev s', d') \<longleftrightarrow> append_post s d bss b (r, s', d')"
  by (simp add: append_post_def split: sum.splits)

lemma appended_log:
  assumes "bss' \<in> {butlast bss @ [last bss @ [b]], bss @ [[b]]}" "bss \<noteq> []"
  shows "concat (concat bss') = concat (concat bss) @ b" "set (concat bss') = insert b (set (concat bss))"
proof -
  obtain xs y where "bss = xs @ [y]" using assms(2) by (metis append_butlast_last_id)
  then show "concat (concat bss') = concat (concat bss) @ b" "set (concat bss') = insert b (set (concat bss))"
    using assms(1) by auto
qed

lemma append_post_roll:
  assumes repr: "store_repr s d bss" and roll: "roll_segment n s d = (None, s1, d1)"
    and "bss1 \<in> {bss, bss @ [[]]}" "append_post s1 d1 bss1 b (r, s', d')"
  shows "append_post s d bss b (r, s', d')"
proof -
  note R = roll_segment_ok [OF repr roll]
  have "keeps_logs d1 d'" "same_frame s1 s'" using assms(4) by (auto simp: append_post_def Let_def)
  then have "keeps_logs d d'" "same_frame s s'" "flushMode s1 = flushMode s"
    using R(1,2) keeps_logs_trans by (auto simp: same_frame_def config_def)
  moreover have "bss' \<in> {butlast bss @ [last bss @ [b]], bss @ [[b]]}"
    if "store_repr s' d' bss'" "bss' \<in> {butlast bss1 @ [last bss1 @ [b]], bss1 @ [[b]]}" for bss'
  proof -
    have "bss' \<noteq> bss @ [[]] @ [[b]]" using that(1) by (auto simp: store_repr_def butlast_append)
    then show ?thesis using that(2) assms(3) by auto
  qed
  ultimately show ?thesis
    using assms(4) R(4,5,7) by (simp add: append_post_def Let_def split: sum.splits) blast
qed

lemma records_per_segment: "length (concat bs) * 24 \<le> length (log_bytes bs)"
proof (induction bs)
  case (Cons b bs)
  then show ?case using record_payload_ge [of b] by (simp add: length_batch_bytes)
qed simp

lemma append_locked_ok:
  assumes repr: "store_repr s d bss" and recs: "recs \<noteq> []" and ts: "- (2 ^ 63) < sint ts"
    and room: "unat (logEndOffset s) + length recs < 2 ^ 64"
    and b: "b = stamp (logEndOffset s) ts recs" "int (length (batch_bytes b)) \<le> maxBatchBytes s"
    and app: "append_locked ts recs s d = (r, n, s', d')"
  shows "append_post s d bss b (r, s', d')"
    "faults d = [] \<Longrightarrow> segmentMaxBytes s \<le> 2 ^ 36 \<Longrightarrow> \<exists>res. r = Inr res"
proof -
  have lim: "maxBatchBytes s < 2 ^ 31" "segmentMaxBytes s < 2 ^ 63" "\<not> closed s" "\<not> writeFailed s"
    using repr by (auto simp: store_repr_def limits_ok_def)
  have enc: "encodable b" using stamp_encodable [OF recs _ ts] b lim(1) by simp
  obtain r1 s1 d1 where roll: "roll_segment (length (batch_bytes b)) s d = (r1, s1, d1)" by (metis surj_pair)
  note R = roll_segment_ok [OF repr roll]
  have e: "EncodeBatch (stamp (logEndOffset s) ts recs) = Inr (batch_bytes b)"
    using EncodeBatch_batch_bytes recs b(1) by simp
  have eq: "append_locked ts recs s d = (case r1 of
       Some e \<Rightarrow> (Inl e, length (batch_bytes b), s1, d1)
     | None \<Rightarrow> let (r, s, d) = append_active ts (length recs) (batch_bytes b) (logEndOffset s) s1 d1
               in (r, length (batch_bytes b), s, d))"
    using b(2) lim(3,4) by (simp add: append_locked_def Let_def e roll split: option.splits)
  show "append_post s d bss b (r, s', d')"
    "faults d = [] \<Longrightarrow> segmentMaxBytes s \<le> 2 ^ 36 \<Longrightarrow> \<exists>res. r = Inr res"
  proof (atomize (full), cases r1)
    case (Some x)
    then show "append_post s d bss b (r, s', d') \<and> (faults d = [] \<longrightarrow> segmentMaxBytes s \<le> 2 ^ 36 \<longrightarrow> (\<exists>res. r = Inr res))"
      using app R(1-3,5) by (auto simp: eq append_post_def Let_def)
  next
    case None
    obtain bss1 where bss1: "store_repr s1 d1 bss1" "bss1 \<in> {bss, bss @ [[]]}"
      and fit: "segSize (active_seg s1) = 0 \<or> int (segSize (active_seg s1)) + int (length (batch_bytes b)) \<le> segmentMaxBytes s"
      using R(6) [OF None] by auto
    have app1: "append_active ts (length recs) (batch_bytes b) (logEndOffset s1) s1 d1 = (r, s', d')"
      using app by (auto simp: eq None R(4) split: prod.splits)
    have b1: "b = stamp (logEndOffset s1) ts recs" "int (length (batch_bytes b)) \<le> maxBatchBytes s1"
      "unat (logEndOffset s1) + length recs < 2 ^ 64"
      using b room R(2,4) by (simp_all add: same_frame_def config_def)
    have size: "segSize (active_seg s1) + length (batch_bytes b) < 2 ^ 63" using fit b(2) lim(1,2) by auto
    note A = append_active_ok [OF bss1(1) b1(1) enc b1(2,3) size app1]
    note l = store_repr_last [OF bss1(1)]
    have "unat (logEndOffset s1 - baseOffset (active_seg s1)) < 2 ^ 32" if "segmentMaxBytes s \<le> 2 ^ 36"
      using that fit records_per_segment [of "last bss1"] seg_reprD(2) [OF l(1)]
      unfolding l(5) relative_offset [OF seg_reprD(4) [OF l(1)]] by auto
    then show "append_post s d bss b (r, s', d') \<and> (faults d = [] \<longrightarrow> segmentMaxBytes s \<le> 2 ^ 36 \<longrightarrow> (\<exists>res. r = Inr res))"
      using A append_post_roll [OF repr roll [unfolded None] bss1(2) A(1)] R(5) by blast
  qed
qed

text \<open>The three outcomes: rejected without effect, written to the log, or out of service.\<close>

lemma Append_outcome:
  assumes repr: "store_repr s d bss" and ts: "- (2 ^ 63) < sint ts"
    and room: "unat (logEndOffset s) + length recs < 2 ^ 64"
    and app: "Append ts recs s d = (r, s', d')"
  obtains (rejected) ev where "recs = [] \<and> r = Inl ErrEmptyBatch \<or> r = Inl ErrBatchTooLarge \<and>
        int (length (batch_bytes (stamp (logEndOffset s) ts recs))) > maxBatchBytes s" "s' = observe ev s" "d' = d"
  | (tried) "recs \<noteq> []" "int (length (batch_bytes (stamp (logEndOffset s) ts recs))) \<le> maxBatchBytes s"
      "append_post s d bss (stamp (logEndOffset s) ts recs) (r, s', d')"
      "faults d = [] \<longrightarrow> segmentMaxBytes s \<le> 2 ^ 36 \<longrightarrow> (\<exists>res. r = Inr res)"
proof (cases "recs = []")
  case True
  then show ?thesis using app by (intro rejected) (auto simp: Append_def)
next
  case False
  let ?b = "stamp (logEndOffset s) ts recs"
  obtain r0 n s0 d0 where al: "append_locked ts recs s d = (r0, n, s0, d0)" by (metis surj_pair)
  have eq: "r = r0" "d' = d0" "\<exists>ev. s' = observe ev s0" using app False by (auto simp: Append_def al)
  show ?thesis
  proof (cases "int (length (batch_bytes ?b)) \<le> maxBatchBytes s")
    case True
    note A = append_locked_ok [OF repr False ts room refl True al]
    show ?thesis using A eq False True by (intro tried) auto
  next
    case large: False
    have "\<not> closed s" "\<not> writeFailed s" using repr by (auto simp: store_repr_def)
    then have "append_locked ts recs s d = (Inl ErrBatchTooLarge, length (batch_bytes ?b), s, d)"
      using large False EncodeBatch_batch_bytes [of ?b] by (simp add: append_locked_def Let_def)
    then show ?thesis using eq large by (elim exE) (rule rejected, auto simp: al)
  qed
qed

end
