(* ===== verification/Log_Reopen.thy ===== *)
theory Log_Reopen
  imports Log_Recovery
begin

text \<open>
  What \<^verbatim>\<open>OpenStore\<close> makes of a directory that holds a log: the proofs for the definitions of
  \<open>Log_Recovery\<close>. They hold for every pattern of disk failures; a disk without failures opens.
\<close>

section \<open>Scanning\<close>

text \<open>
  A torn tail is what a crash leaves of the batch that was being written: a proper prefix of an
  encoded batch.
\<close>

definition torn :: "int \<Rightarrow> bytes \<Rightarrow> bool" where
  "torn mb t \<longleftrightarrow> (\<exists>b u. encodable b \<and> int (length (batch_bytes b)) \<le> mb \<and> batch_bytes b = t @ u \<and> u \<noteq> [])"

lemma batch_prefix_fields:
  assumes "encodable b"
  shows "gslice (take 9 (batch_bytes b @ post)) 0 4 = MagicBytes" "take 9 (batch_bytes b @ post) ! 4 = FormatVersion1"
    "9 + unat (Uint32 (gslice (take 9 (batch_bytes b @ post)) 5 9)) = length (batch_bytes b)"
    "24 \<le> unat (Uint32 (gslice (take 9 (batch_bytes b @ post)) 5 9))"
proof -
  have at: "sub_at (batch_bytes b @ post) 0 (frame_bytes (batch_body b))"
    using sub_at_mid [of "[]" "batch_bytes b" post] by (simp add: batch_bytes_def)
  show "gslice (take 9 (batch_bytes b @ post)) 0 4 = MagicBytes"
    using frame_sub_at(1) [OF at] by (simp only: gslice_take [of 4 9, simplified])
  show "take 9 (batch_bytes b @ post) ! 4 = FormatVersion1" using frame_sub_at(2) [OF at] by (simp del: take_append)
  show len: "9 + unat (Uint32 (gslice (take 9 (batch_bytes b @ post)) 5 9)) = length (batch_bytes b)"
    by (rule batch_length_field [OF assms])
  then show "24 \<le> unat (Uint32 (gslice (take 9 (batch_bytes b @ post)) 5 9))"
    using length_batch_bytes_ge [of b] by linarith
qed

lemma recover_batch_ok:
  assumes ct: "content d (path seg) = pre @ batch_bytes b @ post" and enc: "encodable b"
    and mb: "int (length (batch_bytes b)) \<le> mb"
    and op: "\<not> handlesClosed seg" and size: "segSize seg = length (content d (path seg))"
  shows "reads_ok d (recover_batch mb act seg (length pre) d) (\<lambda>x. x = Some (b, length (batch_bytes b)))"
proof -
  let ?n = "length (batch_bytes b)" and ?pos = "length pre" and ?p = "take 9 (batch_bytes b @ post)"
  have n: "33 \<le> ?n" by (rule length_batch_bytes_ge)
  have sz: "?pos + ?n \<le> segSize seg" using ct size by simp
  have t9: "take 9 (drop ?pos (content d (path seg))) = ?p"
    and tn: "take ?n (drop ?pos (content d (path seg))) = batch_bytes b"
    using ct by simp_all
  have dec: "DecodeBatch (batch_bytes b) = Inr b" "b \<noteq> []"
    using DecodeBatch_batch_bytes [OF enc, of "[]"] enc by (simp_all add: encodable_def)
  have le9: "?pos + 9 \<le> length (content d (path seg))" using sz n size by simp
  note f = batch_prefix_fields [OF enc, of post]
  have guard: "\<not> ?pos + 9 > segSize seg" "\<not> ?pos + ?n > segSize seg" "\<not> int ?n > mb" using sz n mb by auto
  have min: "\<not> unat (Uint32 (gslice ?p 5 9)) < MinimumBatchRemainder" using f(4) by simp
  show ?thesis
  proof (rule ReadFull_cases [OF le9 op], goal_cases)
    case (1 d1)
    note r1 = this
    have c1: "content d1 (path seg) = content d (path seg)" by (rule content_cong [OF r1(1)])
    have len: "?pos + ?n \<le> length (content d1 (path seg))" using sz size c1 by simp
    have eq: "recover_batch mb act seg ?pos d =
      (case ReadFull seg ?n (int ?pos) d1 of
         (Inl e, d) \<Rightarrow> (Inl e, d)
       | (Inr batchBuf, d) \<Rightarrow>
           (rbind (DecodeBatch batchBuf) (\<lambda>recs. if recs = [] then Inl ErrEmptyBatch else Inr (Some (recs, ?n))), d))"
      unfolding recover_batch_def Let_def r1(3) t9 if_not_P [OF guard(1)] using f(1,2) min guard(2,3)
      by (simp only: prod.case sum.case f(3) if_False simp_thms)
    show ?case
    proof (rule ReadFull_cases [OF len op], goal_cases)
      case (1 d2)
      show ?case unfolding eq 1(3) c1 tn using 1 r1 dec by (auto simp: reads_ok_def)
    next
      case (2 d2)
      show ?case unfolding eq 2(3) using 2 r1 by (auto simp: reads_ok_def)
    qed
  next
    case (2 d1)
    then show ?case unfolding recover_batch_def Let_def 2(3) if_not_P [OF guard(1)] by (simp add: reads_ok_def)
  qed
qed

lemma recover_batch_torn:
  assumes ct: "content d (path seg) = pre @ t" and torn: "torn mb t"
    and op: "\<not> handlesClosed seg" and size: "segSize seg = length (content d (path seg))"
  shows "reads_ok d (recover_batch mb True seg (length pre) d) (\<lambda>x. x = None)"
proof (cases "length t < 9")
  case True
  then show ?thesis using ct size by (simp add: recover_batch_def reads_ok_def)
next
  case False
  obtain b u where b: "encodable b" "int (length (batch_bytes b)) \<le> mb" "batch_bytes b = t @ u" "u \<noteq> []"
    using torn by (auto simp: torn_def)
  have le9: "length pre + 9 \<le> length (content d (path seg))" using False ct by simp
  have t9: "take 9 (drop (length pre) (content d (path seg))) = take 9 (batch_bytes b @ [])"
    using False ct b(3) by simp
  note f = batch_prefix_fields [OF b(1), of "[]"]
  have guard: "\<not> length pre + 9 > segSize seg" "length pre + length (batch_bytes b) > segSize seg"
    "\<not> int (length (batch_bytes b)) > mb"
    using False ct size b by auto
  have min: "\<not> unat (Uint32 (gslice (take 9 (batch_bytes b @ [])) 5 9)) < MinimumBatchRemainder" using f(4) by simp
  show ?thesis
  proof (rule ReadFull_cases [OF le9 op], goal_cases)
    case (1 d1)
    have "recover_batch mb True seg (length pre) d = (Inr None, d1)"
      unfolding recover_batch_def Let_def 1(3) t9 if_not_P [OF guard(1)] using f(1,2) min guard(2,3)
      by (simp only: prod.case sum.case f(3) if_False if_True simp_thms)
    then show ?case using 1 by (simp add: reads_ok_def)
  next
    case (2 d1)
    then show ?case unfolding recover_batch_def Let_def 2(3) if_not_P [OF guard(1)] by (simp add: reads_ok_def)
  qed
qed

lemma check_offsets_batch:
  "\<forall>i < length rs. srOffset (rs ! i) = of_nat (off + i) \<Longrightarrow> check_offsets (of_nat off) rs"
proof (induction rs arbitrary: off)
  case (Cons r rs)
  have "srOffset r = of_nat off" "\<forall>i < length rs. srOffset (rs ! i) = of_nat (Suc off + i)"
    using Cons.prems by force+
  then show ?case using Cons.IH [of "Suc off"] by (simp add: add.commute)
qed simp

lemma raise_timestamp_append: "raise_timestamp mt (xs @ ys) = raise_timestamp (raise_timestamp mt xs) ys"
  by (simp add: raise_timestamp_def)

lemma raise_timestamp_Nil [simp]: "raise_timestamp mt [] = mt"
  by (simp add: raise_timestamp_def)

lemma raise_timestamp_zero: "raise_timestamp 0 rs = max_timestamp rs"
  by (simp add: raise_timestamp_def max_timestamp_def)

text \<open>The scan of a whole file finds every batch and stops before the torn tail.\<close>

lemma recover_loop_ok:
  assumes "content d (path seg) = log_bytes xs @ log_bytes ys @ t" "segSize seg = length (content d (path seg))"
    and "\<not> handlesClosed seg" "chain off ys fin" "fits mb ys" "t = [] \<or> act \<and> torn mb t"
  shows "reads_ok d (recover_loop mb act seg (length (log_bytes xs)) (of_nat off) mt d)
    (\<lambda>x. x = (length (log_bytes (xs @ ys)), t \<noteq> [], of_nat fin, raise_timestamp mt (concat ys)))"
  using assms
proof (induction ys arbitrary: xs off mt d)
  case Nil
  show ?case
  proof (cases "t = []")
    case True
    then show ?thesis using Nil by (subst recover_loop.simps) (simp add: reads_ok_def)
  next
    case False
    then have "reads_ok d (recover_batch mb True seg (length (log_bytes xs)) d) (\<lambda>x. x = None)" "act"
      using Nil by (auto intro!: recover_batch_torn)
    then show ?thesis
      using Nil False by (subst recover_loop.simps) (auto simp: reads_ok_def split: prod.splits sum.splits)
  qed
next
  case (Cons b ys)
  note prems = Cons.prems
  have b: "batch_at off b" and ch: "chain (off + length b) ys fin" using prems(4) by auto
  have pos: "length (log_bytes xs) < segSize seg"
    using prems(1,2) length_batch_bytes_ge [of b] by auto
  have rb: "reads_ok d (recover_batch mb act seg (length (log_bytes xs)) d) (\<lambda>x. x = Some (b, length (batch_bytes b)))"
    using prems(1,2,3,5) batch_atD(1) [OF b] by (intro recover_batch_ok) auto
  obtain r d1 where rd: "recover_batch mb act seg (length (log_bytes xs)) d = (r, d1)" by fastforce
  have d1: "files d1 = files d" "faults d = [] \<longrightarrow> d1 = d" using rb by (auto simp: rd reads_ok_def)
  show ?case
  proof (cases r)
    case (Inl e)
    then show ?thesis using rb pos by (subst recover_loop.simps) (auto simp: rd reads_ok_def)
  next
    case (Inr x)
    then have x: "x = Some (b, length (batch_bytes b))" using rb by (simp add: rd reads_ok_def)
    have "check_offsets (of_nat off) b" using b by (intro check_offsets_batch) (simp add: batch_at_def)
    then have step: "recover_loop mb act seg (length (log_bytes xs)) (of_nat off) mt d =
      recover_loop mb act seg (length (log_bytes (xs @ [b]))) (of_nat (off + length b)) (raise_timestamp mt b) d1"
      using pos by (subst recover_loop.simps) (simp add: rd Inr x)
    have "reads_ok d1 (recover_loop mb act seg (length (log_bytes (xs @ [b]))) (of_nat (off + length b)) (raise_timestamp mt b) d1)
      (\<lambda>x. x = (length (log_bytes ((xs @ [b]) @ ys)), t \<noteq> [], of_nat fin, raise_timestamp (raise_timestamp mt b) (concat ys)))"
      using prems(1,2,5) content_cong [OF d1(1)] by (intro Cons.IH [OF _ _ prems(3) ch _ prems(6)]) auto
    then show ?thesis
      unfolding step using d1 by (intro reads_ok_trans [of d1 _ _ d]) (simp_all add: raise_timestamp_append)
  qed
qed

section \<open>The index on disk\<close>

definition entry_at :: "bytes \<Rightarrow> nat \<Rightarrow> index_entry" where
  "entry_at buf i = \<lparr>RelativeOffset = Uint32 (gslice buf (i * 12) (i * 12 + 4)),
                    Position = Uint64 (gslice buf (i * 12 + 4) (i * 12 + 12))\<rparr>"

text \<open>
  What recovery relies on about an index file, which may be missing, cut anywhere, ahead of the log
  or overwritten: an entry at which the log has the magic bytes and the offset of the entry points
  at a batch, and not at bytes of a payload that look like one. When no payload does, every index
  file will do.
\<close>

definition looks_like :: "u64 \<Rightarrow> bytes \<Rightarrow> index_entry \<Rightarrow> bool" where
  "looks_like base c e \<longleftrightarrow> (let p = unat (Position e) in
     p + 33 \<le> length c \<and> gslice c p (p + 4) = MagicBytes \<and>
     Uint64 (gslice c (p + 13) (p + 21)) = base + ucast (RelativeOffset e))"

definition index_honest :: "u64 \<Rightarrow> batch list \<Rightarrow> bytes \<Rightarrow> bool" where
  "index_honest base bs buf \<longleftrightarrow>
     (\<forall>i. 12 * (i + 1) \<le> length buf \<longrightarrow> looks_like base (log_bytes bs) (entry_at buf i) \<longrightarrow> is_bound bs (entry_at buf i))"

definition unforged :: "u64 \<Rightarrow> batch list \<Rightarrow> bool" where
  "unforged base bs \<longleftrightarrow> (\<forall>e. looks_like base (log_bytes bs) e \<longrightarrow> is_bound bs e)"

lemma index_honest_Nil [simp]: "index_honest base bs []"
  by (simp add: index_honest_def)

lemma unforged_honest: "unforged base bs \<Longrightarrow> index_honest base bs buf"
  by (simp add: index_honest_def unforged_def)

lemma index_loop_entries:
  "index_loop buf n i lastRel lastPos = Inr es \<Longrightarrow> e \<in> set es \<Longrightarrow>
   (\<exists>j. j < i + n \<and> e = entry_at buf j) \<and> unat (Position e) < 2 ^ 63"
proof (induction n arbitrary: i lastRel lastPos es)
  case (Suc n)
  let ?e = "entry_at buf i"
  obtain es' where es': "es = ?e # es'" "index_loop buf n (i + 1) (RelativeOffset ?e) (Position ?e) = Inr es'"
    "unat (Position ?e) < 2 ^ 63"
    using Suc.prems(1) by (auto simp: Let_def rbind_Inr_iff entry_at_def split: if_splits)
  show ?case
  proof (cases "e = ?e")
    case True
    then have "i < i + Suc n \<and> e = entry_at buf i" by simp
    then show ?thesis using es'(3) True by blast
  next
    case False
    then show ?thesis using Suc.IH [OF es'(2)] Suc.prems(2) es'(1) by (metis add_Suc_right add_Suc plus_1_eq_Suc add.commute set_ConsD)
  qed
qed simp

lemma ReadIndexEntries_facts:
  assumes "ReadIndexEntries seg d = (r, d')"
  shows "files d' = files d" "faults d = [] \<Longrightarrow> faults d' = []"
    "r = Inr es \<Longrightarrow> e \<in> set es \<Longrightarrow> indexSize seg = length (content d (indexPath seg)) \<Longrightarrow>
       (\<exists>i. 12 * (i + 1) \<le> length (content d (indexPath seg)) \<and> e = entry_at (content d (indexPath seg)) i)
       \<and> unat (Position e) < 2 ^ 63"
proof -
  obtain f d1 where nf: "next_fault d = (f, d1)" by fastforce
  note D = next_faultD [OF nf]
  show "files d' = files d" "faults d = [] \<Longrightarrow> faults d' = []"
    using assms D by (auto simp: ReadIndexEntries_def sys_pread_def nf Let_def split: if_splits)
  assume r: "r = Inr es" "e \<in> set es" and sz: "indexSize seg = length (content d (indexPath seg))"
  let ?buf = "content d (indexPath seg)"
  have "indexSize seg \<noteq> 0" "indexSize seg mod 12 = 0" "index_loop ?buf (indexSize seg div 12) 0 0 0 = Inr es"
    using assms r D(4) sz by (auto simp: ReadIndexEntries_def sys_pread_def nf Let_def split: if_splits)
  note loop = index_loop_entries [OF this(3) r(2)] and this(2)
  obtain i where i: "i < indexSize seg div 12" "e = entry_at ?buf i" using loop(1) by auto
  then have "12 * (i + 1) \<le> length ?buf \<and> e = entry_at ?buf i" using sz by auto
  then show "(\<exists>i. 12 * (i + 1) \<le> length ?buf \<and> e = entry_at ?buf i) \<and> unat (Position e) < 2 ^ 63"
    using loop(1) by blast
qed

lemma ReadFull_facts:
  assumes "ReadFull seg n pos d = (r, d')"
  shows "files d' = files d" "faults d = [] \<Longrightarrow> faults d' = []"
proof -
  obtain f d1 where nf: "next_fault d = (f, d1)" by fastforce
  note D = next_faultD [OF nf]
  show "files d' = files d" "faults d = [] \<Longrightarrow> faults d' = []"
    using assms D by (auto simp: ReadFull_def ReadAt_def sys_pread_def nf Let_def split: if_splits)
qed

lemma ReadFull_Inr:
  assumes "ReadFull seg n pos d = (Inr bs, d')"
  shows "bs = take n (drop (nat pos) (content d (path seg)))" "length bs = n"
proof -
  obtain f d1 where nf: "next_fault d = (f, d1)" by fastforce
  have "content d1 q = content d q" for q using next_faultD(1) [OF nf] by (simp add: content_def)
  then show "bs = take n (drop (nat pos) (content d (path seg)))" "length bs = n"
    using assms by (auto simp: ReadFull_def ReadAt_def sys_pread_def nf Let_def split: if_splits)
qed

lemma gslice_shift: "b \<le> n \<Longrightarrow> gslice (take n (drop p c)) a b = gslice c (p + a) (p + b)"
  by (simp add: gslice_def drop_take min_def add.commute)

lemma validate_entry_facts:
  assumes "validate_entry seg n first lastRel lastPos e d = (v, d')"
  shows "files d' = files d" "faults d = [] \<Longrightarrow> faults d' = []"
    "v \<Longrightarrow> \<not> first \<longrightarrow> RelativeOffset e > lastRel \<and> Position e > lastPos"
    "v \<Longrightarrow> unat (Position e) < 2 ^ 63 \<Longrightarrow> n = length (content d (path seg)) \<Longrightarrow>
       looks_like (baseOffset seg) (content d (path seg)) e"
proof -
  obtain r1 d1 where e1: "ReadFull seg 9 (sint (Position e)) d = (r1, d1)" by fastforce
  obtain r2 d2 where e2: "ReadFull seg 33 (sint (Position e)) d1 = (r2, d2)" by fastforce
  show "files d' = files d" "faults d = [] \<Longrightarrow> faults d' = []"
    "v \<Longrightarrow> \<not> first \<longrightarrow> RelativeOffset e > lastRel \<and> Position e > lastPos"
    using assms ReadFull_facts [OF e1] ReadFull_facts [OF e2]
    by (auto simp: validate_entry_def e1 e2 Let_def split: if_splits sum.splits)
  assume v: v and pos: "unat (Position e) < 2 ^ 63" and n: "n = length (content d (path seg))"
  let ?p = "unat (Position e)" and ?c = "content d (path seg)"
  have p: "sint (Position e) = int ?p" by (rule sint_small [OF pos])
  have "\<exists>a b. r1 = Inr a \<and> r2 = Inr b \<and> gslice a 0 4 = MagicBytes \<and> sint (Position e) + 33 \<le> int n \<and>
    Uint64 (gslice b 13 21) = baseOffset seg + ucast (RelativeOffset e)"
    using assms v by (auto simp: validate_entry_def e1 e2 Let_def split: if_splits sum.splits)
  then obtain a b where ab: "r1 = Inr a" "r2 = Inr b" "gslice a 0 4 = MagicBytes" "?p + 33 \<le> length ?c"
    "Uint64 (gslice b 13 21) = baseOffset seg + ucast (RelativeOffset e)"
    using n by (auto simp only: p)
  have "content d1 (path seg) = ?c" using ReadFull_facts(1) [OF e1] by (rule content_cong)
  then have "a = take 9 (drop ?p ?c)" "b = take 33 (drop ?p ?c)"
    using ReadFull_Inr(1) [OF e1 [unfolded ab(1)]] ReadFull_Inr(1) [OF e2 [unfolded ab(2)]] p by simp_all
  then show "looks_like (baseOffset seg) ?c e"
    using ab(3-5) gslice_shift [of 4 9 ?p ?c 0] gslice_shift [of 21 33 ?p ?c 13] by (simp add: looks_like_def)
qed

lemma validate_loop_facts:
  assumes "validate_loop seg n first lastRel lastPos es d = (v, d')"
  shows "files d' = files d \<and> (faults d = [] \<longrightarrow> faults d' = []) \<and>
    (v \<longrightarrow> sorted_wrt entry_less es \<and>
       (n = length (content d (path seg)) \<longrightarrow>
         (\<forall>e \<in> set es. unat (Position e) < 2 ^ 63 \<longrightarrow> looks_like (baseOffset seg) (content d (path seg)) e)) \<and>
       (\<not> first \<longrightarrow> (\<forall>e \<in> set es. RelativeOffset e > lastRel \<and> Position e > lastPos)))"
  using assms
proof (induction es arbitrary: first lastRel lastPos d)
  case (Cons e es)
  obtain v1 d1 where e1: "validate_entry seg n first lastRel lastPos e d = (v1, d1)" by fastforce
  note F = validate_entry_facts [OF e1]
  show ?case
  proof (cases v1)
    case True
    then have "validate_loop seg n False (RelativeOffset e) (Position e) es d1 = (v, d')"
      using Cons.prems by (simp add: e1)
    note IH = Cons.IH [OF this]
    have c: "content d1 (path seg) = content d (path seg)" by (rule content_cong [OF F(1)])
    show ?thesis using IH F(1,2) F(3) [OF True] F(4) [OF True] unfolding c by (fastforce simp: entry_less_def)
  next
    case False
    then show ?thesis using Cons.prems F by (auto simp: e1)
  qed
qed simp

lemma validateIndexEntries_facts:
  assumes "validateIndexEntries seg es n d = (v, d')"
  shows "files d' = files d" "faults d = [] \<Longrightarrow> faults d' = []"
    "v \<Longrightarrow> es = [] \<Longrightarrow> n = 0"
    "v \<Longrightarrow> es \<noteq> [] \<Longrightarrow> hd es = \<lparr>RelativeOffset = 0, Position = 0\<rparr>"
    "v \<Longrightarrow> sorted_wrt entry_less es"
    "v \<Longrightarrow> n = length (content d (path seg)) \<Longrightarrow> e \<in> set es \<Longrightarrow> unat (Position e) < 2 ^ 63 \<Longrightarrow>
       looks_like (baseOffset seg) (content d (path seg)) e"
  using assms validate_loop_facts [of seg n True 0 0 es d v d']
  by (auto simp: validateIndexEntries_def split: if_splits)

text \<open>An index that passes the checks, from an honest file, is right.\<close>

lemma checked_index_ok:
  assumes rd: "ReadIndexEntries seg d0 = (Inr es, d)" and vd: "validateIndexEntries seg es (length (log_bytes bs)) d = (True, d')"
    and sz: "indexSize seg = length (content d0 (indexPath seg))" and ct: "content d0 (path seg) = log_bytes bs"
    and honest: "index_honest (baseOffset seg) bs (content d0 (indexPath seg))"
  shows "index_ok bs es"
proof -
  note V = validateIndexEntries_facts [OF vd]
  have c: "content d (path seg) = log_bytes bs" using ct content_cong [OF ReadIndexEntries_facts(1) [OF rd]] by simp
  have bound: "is_bound bs e" if "e \<in> set es" for e
  proof -
    note E = ReadIndexEntries_facts(3) [OF rd refl that sz]
    have "looks_like (baseOffset seg) (log_bytes bs) e" using V(6) [OF _ _ that] E c by simp
    then show ?thesis using E honest by (auto simp: index_honest_def)
  qed
  show ?thesis
    unfolding index_ok_def using V(3,4,5) bound by auto
qed

section \<open>Rebuilding the index\<close>

definition touches :: "gostring set \<Rightarrow> disk \<Rightarrow> disk \<Rightarrow> bool" where
  "touches P d d' \<longleftrightarrow> (\<forall>q. q \<notin> P \<longrightarrow> map_of (files d') q = map_of (files d) q) \<and> (faults d = [] \<longrightarrow> faults d' = [])"

lemma touches_trans: "touches P d d' \<Longrightarrow> touches Q d' d'' \<Longrightarrow> P \<union> Q \<subseteq> R \<Longrightarrow> touches R d d''"
  unfolding touches_def by (metis Un_iff subset_iff)

lemma touches_files: "files d' = files d \<Longrightarrow> (faults d = [] \<Longrightarrow> faults d' = []) \<Longrightarrow> touches P d d'"
  by (simp add: touches_def)

lemma touches_content: "touches P d d' \<Longrightarrow> q \<notin> P \<Longrightarrow> content d' q = content d q"
  by (simp add: touches_def content_def)

lemma batch_header_fields:
  assumes "encodable b"
  shows "Uint64 (gslice (take 33 (batch_bytes b @ post)) 13 21) = srOffset (hd b)"
    "9 + unat (Uint32 (gslice (take 33 (batch_bytes b @ post)) 5 9)) = length (batch_bytes b)"
    "Uint64 (gslice (take 33 (batch_bytes b @ post)) 25 33) = max_timestamp b"
proof -
  have at: "sub_at (batch_bytes b @ post) 0 (frame_bytes (batch_body b))"
    using sub_at_mid [of "[]" "batch_bytes b" post] by (simp add: batch_bytes_def)
  have f: "sub_at (batch_bytes b @ post) 13 (PutUint64 (srOffset (hd b)))"
    "sub_at (batch_bytes b @ post) 25 (PutUint64 (max_timestamp b))"
    using frame_sub_at(5) [OF at] by (simp_all add: batch_body_def sub_at_append)
  show "Uint64 (gslice (take 33 (batch_bytes b @ post)) 13 21) = srOffset (hd b)"
    "Uint64 (gslice (take 33 (batch_bytes b @ post)) 25 33) = max_timestamp b"
    using sub_at_gslice [OF f(1), of 21] sub_at_gslice [OF f(2), of 33]
    by (simp_all add: gslice_take del: take_append)
  show "9 + unat (Uint32 (gslice (take 33 (batch_bytes b @ post)) 5 9)) = length (batch_bytes b)"
    using batch_length_field [OF assms, of post] by (simp add: gslice_take del: take_append)
qed

text \<open>
  The loop invariant: the entries so far index the batches passed. The run either fails, with the
  temporary file as its only effect, or ends with an index of the whole log.
\<close>

definition rebuilt :: "gostring \<Rightarrow> batch list \<Rightarrow> i64 \<Rightarrow> disk \<Rightarrow> (err + index_entry list \<times> int \<times> i64) \<times> disk \<Rightarrow> bool" where
  "rebuilt tmp bs mt d rd \<longleftrightarrow> touches {tmp} d (snd rd) \<and>
     (map_of (files d) tmp \<noteq> None \<longrightarrow> map_of (files (snd rd)) tmp \<noteq> None) \<and>
     (case fst rd of
        Inl e \<Rightarrow> faults d = [] \<longrightarrow> length (concat bs) > 2 ^ 32
      | Inr (es, l, m) \<Rightarrow> index_ok bs es \<and> l = last_indexed es \<and> m = mt)"

lemma rebuilt_trans:
  assumes "rebuilt tmp bs mt d1 rd" "touches {tmp} d d1" "map_of (files d) tmp \<noteq> None \<longrightarrow> map_of (files d1) tmp \<noteq> None"
  shows "rebuilt tmp bs mt d rd"
proof -
  have "touches {tmp} d (snd rd)"
    using assms(1,2) by (intro touches_trans [OF assms(2)]) (auto simp: rebuilt_def)
  then show ?thesis using assms by (auto simp: rebuilt_def touches_def split: sum.splits)
qed

lemma index_batch_ok:
  assumes ib: "index_batch interval seg relative pos es lastIndexed d = (r, d')"
    and idx: "index_ok bs es" "lastIndexed = last_indexed es" and ch: "chain off bs fin"
    and rel: "unat relative = length (concat bs)" "unat relative < 2 ^ 32"
    and pos: "pos = length (log_bytes bs)" "pos < 2 ^ 63"
  shows "touches {indexPath seg @ tmp_suffix} d d'"
    "map_of (files d) (indexPath seg @ tmp_suffix) \<noteq> None \<longrightarrow> map_of (files d') (indexPath seg @ tmp_suffix) \<noteq> None"
    "r = Inr (es', l) \<Longrightarrow> index_ok (bs @ [b]) es' \<and> l = last_indexed es'" "faults d = [] \<Longrightarrow> \<exists>x. r = Inr x"
proof -
  let ?tmp = "indexPath seg @ tmp_suffix" and ?e = "\<lparr>RelativeOffset = ucast relative, Position = of_nat pos :: u64\<rparr>"
  obtain n er d1 where w: "sys_pwrite ?tmp (12 * length es) (entry_bytes ?e) d = ((n, er), d1)" by (metis surj_pair)
  note W = sys_pwrite_facts [OF w]
  have p: "unat (of_nat pos :: u64) = pos" using pos(2) by simp
  have snoc: "index_ok (bs @ [b]) (es @ [?e])"
    using rel pos by (intro index_ok_snoc [OF idx(1) ch]) (simp_all add: unat_ucast_u32)
  have li: "int pos = last_indexed (es @ [?e])" using p by (simp add: last_indexed_def)
  have grow: "es \<noteq> [] \<longrightarrow> index_ok (bs @ [b]) es" using index_ok_grow [OF idx(1)] by blast
  have eq: "(r, d') = (if es = [] \<or> int pos - lastIndexed \<ge> interval then
      (case er of Some e \<Rightarrow> (Inl e, d1) | None \<Rightarrow> if n \<noteq> 12 then (Inl ErrShortWrite, d1) else (Inr (es @ [?e], int pos), d1))
    else (Inr (es, lastIndexed), d))"
    unfolding ib [symmetric] index_batch_def Let_def w by (simp split: option.splits)
  show "touches {?tmp} d d'" "map_of (files d) ?tmp \<noteq> None \<longrightarrow> map_of (files d') ?tmp \<noteq> None"
    "r = Inr (es', l) \<Longrightarrow> index_ok (bs @ [b]) es' \<and> l = last_indexed es'" "faults d = [] \<Longrightarrow> \<exists>x. r = Inr x"
    using eq W snoc li grow idx(2) by (auto simp: touches_def entry_bytes_def split: if_splits option.splits)
qed

lemma rebuild_loop_ok:
  assumes "content d (path seg) = log_bytes (xs @ ys)" "\<not> handlesClosed seg" "path seg \<noteq> indexPath seg @ tmp_suffix"
    and "chain (unat (baseOffset seg)) (xs @ ys) fin" "fin < 2 ^ 64" "length (log_bytes (xs @ ys)) < 2 ^ 63"
    and "index_ok xs es" "lastIndexed = last_indexed es" "\<forall>b \<in> set ys. sint (max_timestamp b) \<le> sint mt"
  shows "rebuilt (indexPath seg @ tmp_suffix) (xs @ ys) mt d
    (rebuild_loop interval seg (length (log_bytes (xs @ ys))) (length (log_bytes xs)) es lastIndexed mt d)"
  using assms
proof (induction ys arbitrary: xs es lastIndexed d)
  case Nil
  then show ?case by (subst rebuild_loop.simps) (simp add: rebuilt_def touches_def)
next
  case (Cons b ys)
  note prems = Cons.prems
  let ?tmp = "indexPath seg @ tmp_suffix" and ?pos = "length (log_bytes xs)" and ?stop = "length (log_bytes (xs @ b # ys))"
  let ?h = "take 33 (batch_bytes b @ log_bytes ys)" and ?rel = "srOffset (hd b) - baseOffset seg"
  have ch: "chain (unat (baseOffset seg) + length (concat xs)) (b # ys) fin"
    "chain (unat (baseOffset seg)) xs (unat (baseOffset seg) + length (concat xs))"
    using prems(4) by (simp_all only: chain_append)
  have b: "batch_at (unat (baseOffset seg) + length (concat xs)) b" using ch(1) by simp
  have "hd b = b ! 0" and blen: "0 < length b" using batch_atD(2) [OF b] by (simp_all add: hd_conv_nth)
  then have "?rel = of_nat (length (concat xs))" using batch_atD(3) [OF b, of 0] by simp
  moreover have "length (concat xs) < 2 ^ 64" using chain_fin [OF prems(4)] prems(5) by simp
  ultimately have rel: "unat ?rel = length (concat xs)" by (simp only: unat_of_nat_u64)
  note h = batch_header_fields [OF batch_atD(1) [OF b], of "log_bytes ys"]
  have pos: "?pos < ?stop" "?pos + 33 \<le> length (content d (path seg))" "?pos < 2 ^ 63"
    using prems(1,6) length_batch_bytes_ge [of b] by auto
  have t33: "take 33 (drop ?pos (content d (path seg))) = ?h" using prems(1) by simp
  have mt: "(if sint (max_timestamp b) > sint mt then max_timestamp b else mt) = mt" using prems(9) by auto
  show ?case
  proof (rule ReadFull_cases [OF pos(2) prems(2)], goal_cases)
    case (2 d1)
    then show ?case using pos(1) by (subst rebuild_loop.simps) (simp add: rebuilt_def touches_def)
  next
    case (1 d1)
    obtain r d2 where ib: "index_batch interval seg ?rel ?pos es lastIndexed d1 = (r, d2)" by fastforce
    have step: "rebuild_loop interval seg ?stop ?pos es lastIndexed mt d =
      (if unat ?rel > 2 ^ 32 - 1 then (Inl ErrIndexOffsetOverflow, d1) else
       case r of Inl e \<Rightarrow> (Inl e, d2)
       | Inr (es, l) \<Rightarrow> rebuild_loop interval seg ?stop (length (log_bytes (xs @ [b]))) es l mt d2)"
      by (subst rebuild_loop.simps, subst if_P [OF pos(1)])
        (simp only: 1(3) t33 prod.case sum.case Let_def h mt ib, simp split: sum.splits)
    have t1: "touches {?tmp} d d1" using 1(1,2) by (intro touches_files) auto
    show ?case
    proof (cases "unat ?rel > 2 ^ 32 - 1")
      case True
      moreover have "length (concat (xs @ b # ys)) = length (concat xs) + length b + length (concat ys)" by simp
      ultimately have "length (concat (xs @ b # ys)) > 2 ^ 32" using rel blen by linarith
      then show ?thesis unfolding step if_P [OF True] using t1 1(1) by (simp add: rebuilt_def)
    next
      case False
      then have small: "unat ?rel < 2 ^ 32" by simp
      note I = index_batch_ok [OF ib prems(7,8) ch(2) rel small refl pos(3)]
      have t2: "touches {?tmp} d d2" by (rule touches_trans [OF t1 I(1)]) simp
      have f2: "map_of (files d) ?tmp \<noteq> None \<longrightarrow> map_of (files d2) ?tmp \<noteq> None" using I(2) 1(1) by simp
      show ?thesis
      proof (cases r)
        case (Inl e)
        then show ?thesis unfolding step if_not_P [OF False] using t2 f2 I(4) 1(2) by (auto simp: rebuilt_def)
      next
        case (Inr x)
        obtain es2 l2 where x: "x = (es2, l2)" by fastforce
        note I3 = I(3) [where es' = es2 and l = l2 and b = b, unfolded Inr x, OF refl]
        have "rebuilt ?tmp ((xs @ [b]) @ ys) mt d2 (rebuild_loop interval seg (length (log_bytes ((xs @ [b]) @ ys)))
            (length (log_bytes (xs @ [b]))) es2 l2 mt d2)"
          using prems(1,4,6,9) I3 touches_content [OF t2, of "path seg"] prems(3)
          by (intro Cons.IH [OF _ prems(2,3) _ prems(5)]) simp_all
        moreover have "(xs @ [b]) @ ys = xs @ b # ys" by simp
        ultimately have "rebuilt ?tmp (xs @ b # ys) mt d2 (rebuild_loop interval seg ?stop
            (length (log_bytes (xs @ [b]))) es2 l2 mt d2)" by (simp only:)
        then show ?thesis
          unfolding step if_not_P [OF False] Inr x sum.case prod.case by (rule rebuilt_trans [OF _ t2 f2])
      qed
    qed
  qed
qed

text \<open>A segment whose file and fields are right but for the index.\<close>

definition seg_bare :: "int \<Rightarrow> disk \<Rightarrow> segment \<Rightarrow> batch list \<Rightarrow> u64 \<Rightarrow> bool" where
  "seg_bare mb d g bs fin \<longleftrightarrow>
     path g = log_name (baseOffset g) \<and> indexPath g = index_name (baseOffset g) \<and>
     map_of (files d) (path g) = Some (log_bytes bs) \<and> segSize g = length (log_bytes bs) \<and> segSize g < 2 ^ 63 \<and>
     chain (unat (baseOffset g)) bs (unat fin) \<and> fits mb bs \<and> lastIndexedPosition g = -1 \<and>
     maxTimestamp g = max_timestamp (concat bs) \<and> \<not> handlesClosed g"

definition own_files :: "u64 \<Rightarrow> gostring set" where
  "own_files base = {log_name base, index_name base, index_name base @ tmp_suffix}"

lemma sys_rename_facts:
  assumes "sys_rename p q d = (r, d')"
  shows "touches {p, q} d d'" "faults d = [] \<Longrightarrow> map_of (files d) p \<noteq> None \<Longrightarrow> r = Inr ()"
    "r = Inr () \<Longrightarrow> map_of (files d') q = map_of (files d) p \<and> map_of (files d') q \<noteq> None"
proof -
  obtain f d1 where nf: "next_fault d = (f, d1)" by fastforce
  note D = next_faultD [OF nf]
  show "touches {p, q} d d'" "faults d = [] \<Longrightarrow> map_of (files d) p \<noteq> None \<Longrightarrow> r = Inr ()"
    "r = Inr () \<Longrightarrow> map_of (files d') q = map_of (files d) p \<and> map_of (files d') q \<noteq> None"
    using assms D by (auto simp: sys_rename_def nf Let_def touches_def split: if_splits option.splits)
qed

lemma sys_open_facts:
  assumes "sys_open p d = (r, d')"
  shows "files d' = files d" "faults d = [] \<Longrightarrow> faults d' = []" "faults d = [] \<Longrightarrow> map_of (files d) p \<noteq> None \<Longrightarrow> r = Inr ()"
proof -
  obtain f d1 where nf: "next_fault d = (f, d1)" by fastforce
  note D = next_faultD [OF nf]
  show "files d' = files d" "faults d = [] \<Longrightarrow> faults d' = []" "faults d = [] \<Longrightarrow> map_of (files d) p \<noteq> None \<Longrightarrow> r = Inr ()"
    using assms D by (auto simp: sys_open_def nf Let_def split: if_splits)
qed

lemma sys_open_trunc_facts:
  assumes "sys_open_trunc p d = (r, d')"
  shows "touches {p} d d'" "r = Inr () \<Longrightarrow> map_of (files d') p \<noteq> None" "faults d = [] \<Longrightarrow> r = Inr ()"
proof -
  obtain f d1 where nf: "next_fault d = (f, d1)" by fastforce
  note D = next_faultD [OF nf]
  show "touches {p} d d'" "r = Inr () \<Longrightarrow> map_of (files d') p \<noteq> None" "faults d = [] \<Longrightarrow> r = Inr ()"
    using assms D by (auto simp: sys_open_trunc_def nf Let_def touches_def split: if_splits)
qed

lemma sys_remove_touches: "touches {p} d (snd (sys_remove p d))"
proof -
  obtain f d1 where nf: "next_fault d = (f, d1)" by fastforce
  note D = next_faultD [OF nf]
  show ?thesis using D by (auto simp: sys_remove_def nf Let_def touches_def)
qed

lemma sys_close_touches: "touches P d (snd (sys_close d))"
  using sys_close_facts [of d] by (cases "sys_close d") (auto simp: touches_def)

lemma syncDirectory_facts:
  assumes "syncDirectory d = (r, d')"
  shows "files d' = files d" "faults d = [] \<Longrightarrow> r = None \<and> faults d' = []"
proof -
  obtain f d1 where nf: "next_fault d = (f, d1)" by fastforce
  obtain f2 d2 where nf2: "next_fault d1 = (f2, d2)" by fastforce
  note D = next_faultD [OF nf] next_faultD [OF nf2]
  obtain r3 d3 where cl: "sys_close (if fails f2 then d2 else d2\<lparr>entries := map fst (files d2)\<rparr>) = (r3, d3)" by fastforce
  note C = sys_close_facts [OF cl]
  show "files d' = files d" "faults d = [] \<Longrightarrow> r = None \<and> faults d' = []"
    using assms D C cl
    by (auto simp: syncDirectory_def sys_opendir_def sys_syncdir_def nf nf2 Let_def err_of_def split: if_splits)
qed

lemma touches_mono: "touches P d d' \<Longrightarrow> P \<subseteq> Q \<Longrightarrow> touches Q d d'"
  by (auto simp: touches_def)

lemma touches_step: "touches P d d' \<Longrightarrow> touches P d' d'' \<Longrightarrow> touches P d d''"
  by (rule touches_trans) auto

lemma drop_tmp_touches: "touches {tmp} d (drop_tmp tmp d)"
  unfolding drop_tmp_def by (rule sys_remove_touches)

lemma sys_fsync_touches:
  assumes "sys_fsync p d = (r, d')"
  shows "touches P d d'" "faults d = [] \<Longrightarrow> r = Inr ()" "files d' = files d"
  using assms by (cases rule: sys_fsync_cases; simp add: touches_def)+

lemma max_timestamp_le:
  assumes "b \<in> set bs"
  shows "sint (max_timestamp b) \<le> sint (max_timestamp (concat bs))"
proof -
  have ge: "sint m \<le> sint (raise_timestamp m rs)" for m rs
  proof (induction rs arbitrary: m)
    case (Cons r rs)
    have "raise_timestamp m (r # rs) = raise_timestamp (if sint (srTimestamp r) > sint m then srTimestamp r else m) rs"
      by (simp add: raise_timestamp_def)
    then show ?case using Cons.IH [of "srTimestamp r"] Cons.IH [of m] by (simp split: if_splits)
  qed simp
  have mono: "sint m \<le> sint m' \<Longrightarrow> sint (raise_timestamp m rs) \<le> sint (raise_timestamp m' rs)" for m m' rs
    by (induction rs arbitrary: m m') (auto simp: raise_timestamp_def)
  obtain xs ys where "bs = xs @ b # ys" using assms by (metis split_list)
  then have "raise_timestamp 0 (concat bs) = raise_timestamp (raise_timestamp (raise_timestamp 0 (concat xs)) b) (concat ys)"
    by (simp add: raise_timestamp_append)
  moreover have "sint (raise_timestamp 0 b) \<le> sint (raise_timestamp (raise_timestamp 0 (concat xs)) b)"
    using mono [OF ge] by simp
  ultimately show ?thesis using ge order_trans by (metis raise_timestamp_zero)
qed

text \<open>The outcome of any way to get a segment's index: an error, or a healthy segment.\<close>

definition indexed ::
  "int \<Rightarrow> segment \<Rightarrow> batch list \<Rightarrow> u64 \<Rightarrow> store \<Rightarrow> disk \<Rightarrow> err option \<times> segment \<times> store \<times> disk \<Rightarrow> bool" where
  "indexed mb g bs fin s d res \<longleftrightarrow> (let (r, g', s', d') = res; tmp = index_name (baseOffset g) @ tmp_suffix in
     touches {index_name (baseOffset g), tmp} d d' \<and> (s' = s \<or> s' = observe IndexRebuilt s) \<and>
     (r = None \<longrightarrow> baseOffset g' = baseOffset g \<and> seg_repr mb d' (g'\<lparr>nextOffset := fin\<rparr>) bs) \<and>
     (faults d = [] \<longrightarrow> length (concat bs) \<le> 2 ^ 32 \<longrightarrow> r = None))"

lemma seg_bare_index:
  assumes "seg_bare mb d g bs fin" "touches {index_name (baseOffset g), index_name (baseOffset g) @ tmp_suffix} d d'"
    "index_ok bs es" "l = last_indexed es"
  shows "seg_repr mb d' (g\<lparr>indexEntries := es, lastIndexedPosition := l, indexDirty := x, indexSize := n,
    maxTimestamp := maxTimestamp g, nextOffset := fin\<rparr>) bs"
  using assms by (auto simp: seg_bare_def seg_repr_def touches_def)

lemma rebuildIndex_ok:
  assumes bare: "seg_bare mb d g bs fin"
  shows "indexed mb g bs fin s d (rebuildIndex g (length (log_bytes bs)) s d)"
proof -
  let ?idx = "index_name (baseOffset g)" and ?tmp = "index_name (baseOffset g) @ tmp_suffix"
  have g: "indexPath g = ?idx" "path g \<noteq> ?tmp" "\<not> handlesClosed g" "content d (path g) = log_bytes bs"
    "chain (unat (baseOffset g)) bs (unat fin)" "length (log_bytes bs) < 2 ^ 63" "maxTimestamp g = max_timestamp (concat bs)"
    using bare by (auto simp: seg_bare_def content_def)
  obtain r1 d1 where e1: "sys_open_trunc ?tmp d = (r1, d1)" by fastforce
  obtain r2 d2 where e2: "rebuild_loop (indexIntervalBytes s) g (length (log_bytes bs)) 0 [] (-1) (maxTimestamp g) d1 = (r2, d2)"
    by fastforce
  obtain r3 d3 where e3: "sys_fsync ?tmp d2 = (r3, d3)" by fastforce
  obtain r4 d4 where e4: "sys_close d3 = (r4, d4)" by fastforce
  obtain r5 d5 where e5: "sys_close d4 = (r5, d5)" by fastforce
  obtain r6 d6 where e6: "sys_rename ?tmp ?idx d5 = (r6, d6)" by fastforce
  obtain r7 d7 where e7: "sys_open ?idx d6 = (r7, d7)" by fastforce
  obtain r8 d8 where e8: "syncDirectory d7 = (r8, d8)" by fastforce
  have rb: "rebuilt ?tmp bs (maxTimestamp g) d1 (r2, d2)"
    using rebuild_loop_ok [of d1 g "[]" bs "unat fin" "[]" "-1" "maxTimestamp g" "indexIntervalBytes s"]
      touches_content [OF sys_open_trunc_facts(1) [OF e1], of "path g"] g max_timestamp_le u64_less
    unfolding e2 [symmetric] by (simp add: last_indexed_def)
  let ?P = "{?idx, ?tmp}"
  have T: "touches ?P d d1" "touches ?P d1 d2" "touches ?P d2 d3" "touches ?P d3 d4" "touches ?P d4 d5" "touches ?P d5 d6"
    "touches ?P d6 d7" "touches ?P d7 d8"
    using sys_open_trunc_facts(1) [OF e1] rb sys_fsync_touches(1) [OF e3] sys_close_touches [of _ d3]
      sys_close_touches [of _ d4] sys_rename_facts(1) [OF e6] sys_open_facts(1,2) [OF e7] syncDirectory_facts [OF e8]
    by (auto simp: rebuilt_def e4 e5 touches_files intro: touches_mono)
  note S2 = touches_step [OF T(1,2)]
  note S3 = touches_step [OF S2 T(3)]
  note S4 = touches_step [OF S3 T(4)]
  note S5 = touches_step [OF S4 T(5)]
  note S6 = touches_step [OF S5 T(6)]
  note S7 = touches_step [OF S6 T(7)]
  note S8 = touches_step [OF S7 T(8)]
  have drop: "touches ?P d (drop_tmp ?tmp x)" if "touches ?P d x" for x
    by (rule touches_step [OF that touches_mono [OF drop_tmp_touches]]) simp
  have shut: "touches ?P d (snd (sys_close x))" if "touches ?P d x" for x
    by (rule touches_step [OF that sys_close_touches])
  have ok: "indexed mb g bs fin s d (r8, g\<lparr>indexEntries := es, lastIndexedPosition := l, indexDirty := False,
      indexSize := 12 * length es, maxTimestamp := m\<rparr>, observe IndexRebuilt s, d8)"
    if "r2 = Inr (es, l, m)" for es l m
    using that rb seg_bare_index [OF bare S8] S8 S7 syncDirectory_facts(2) [OF e8]
    by (auto simp: indexed_def rebuilt_def touches_def)
  have fail: "indexed mb g bs fin s d (Some e, g, s, x)"
    if "touches ?P d x" "faults d = [] \<longrightarrow> length (concat bs) > 2 ^ 32" for e x
    using that by (auto simp: indexed_def)
  have f0: "faults d1 = [] \<and> faults d2 = [] \<and> faults d3 = [] \<and> faults d4 = [] \<and> faults d5 = [] \<and> faults d6 = []"
    if "faults d = []" using that T(1) S2 S3 S4 S5 S6 by (simp add: touches_def)
  have tmp: "r1 = Inr () \<longrightarrow> map_of (files d5) ?tmp \<noteq> None"
    using sys_open_trunc_facts(2) [OF e1] rb sys_fsync_touches(3) [OF e3] sys_close_facts(1) [OF e4] sys_close_facts(1) [OF e5]
    by (simp add: rebuilt_def)
  have L: "r1 = Inl e \<Longrightarrow> faults d \<noteq> []" "r2 = Inl e \<Longrightarrow> faults d = [] \<longrightarrow> length (concat bs) > 2 ^ 32"
    "r3 = Inl e \<Longrightarrow> faults d \<noteq> []" "r4 = Inl e \<Longrightarrow> faults d \<noteq> []" "r1 = Inr () \<Longrightarrow> r6 = Inl e \<Longrightarrow> faults d \<noteq> []"
    "r6 = Inr () \<Longrightarrow> r7 = Inl e \<Longrightarrow> faults d \<noteq> []" for e
    using sys_open_trunc_facts(3) [OF e1] rb sys_fsync_touches(2) [OF e3] sys_close_facts(3) [OF e4] tmp
      sys_rename_facts(2,3) [OF e6] sys_open_facts(3) [OF e7] f0
    by (auto simp: rebuilt_def)
  note eqs = rebuildIndex_def g(1) Let_def e1 e2 e3 e4 e5 e6 e7 e8
  consider (a) e where "r1 = Inl e" | (b) e where "r1 = Inr ()" "r2 = Inl e"
    | (c) x e where "r1 = Inr ()" "r2 = Inr x" "r3 = Inl e"
    | (d) x e where "r1 = Inr ()" "r2 = Inr x" "r3 = Inr ()" "r4 = Inl e"
    | (e) x e where "r1 = Inr ()" "r2 = Inr x" "r3 = Inr ()" "r4 = Inr ()" "r6 = Inl e"
    | (f) x e where "r1 = Inr ()" "r2 = Inr x" "r3 = Inr ()" "r4 = Inr ()" "r6 = Inr ()" "r7 = Inl e"
    | (g) x where "r1 = Inr ()" "r2 = Inr x" "r3 = Inr ()" "r4 = Inr ()" "r6 = Inr ()" "r7 = Inr ()"
    by (metis (full_types) old.sum.exhaust old.unit.exhaust)
  then show ?thesis
  proof cases
    case a
    show ?thesis using fail [OF T(1)] L(1) [OF a] a by (simp add: eqs)
  next
    case b
    show ?thesis using fail [OF drop [OF shut [OF S2]]] L(2) [OF b(2)] b by (simp add: eqs)
  next
    case c
    obtain es l m where x: "x = (es, l, m)" by (metis surj_pair)
    show ?thesis using fail [OF drop [OF shut [OF S3]]] L(3) [OF c(3)] c by (simp add: eqs x)
  next
    case d
    obtain es l m where x: "x = (es, l, m)" by (metis surj_pair)
    show ?thesis using fail [OF drop [OF S4]] L(4) [OF d(4)] d by (simp add: eqs x)
  next
    case e
    obtain es l m where x: "x = (es, l, m)" by (metis surj_pair)
    show ?thesis using fail [OF drop [OF S6]] L(5) [OF e(1,5)] e by (simp add: eqs x)
  next
    case f
    obtain es l m where x: "x = (es, l, m)" by (metis surj_pair)
    show ?thesis using fail [OF S7] L(6) [OF f(5,6)] f by (simp add: eqs x)
  next
    case g
    obtain es l m where x: "x = (es, l, m)" by (metis surj_pair)
    show ?thesis using ok [of es l m] g by (simp add: eqs x)
  qed
qed

lemma indexed_trans:
  assumes "indexed mb g bs fin s d1 res" "files d1 = files d" "faults d = [] \<Longrightarrow> faults d1 = []"
  shows "indexed mb g bs fin s d res"
proof -
  have "touches P d d1" for P using assms(2,3) by (rule touches_files)
  then show ?thesis using assms touches_step by (fastforce simp: indexed_def Let_def split: prod.splits)
qed

lemma recover_index_ok:
  assumes bare: "seg_bare mb d g bs fin"
    and sz: "indexSize g = length (content d (indexPath g))" and honest: "index_honest (baseOffset g) bs (content d (indexPath g))"
  shows "indexed mb g bs fin s d (recover_index g (length (log_bytes bs)) s d)"
proof -
  obtain r1 d1 where e1: "ReadIndexEntries g d = (r1, d1)" by fastforce
  note R = ReadIndexEntries_facts [OF e1]
  have ct: "content d (path g) = log_bytes bs" using bare by (auto simp: seg_bare_def content_def)
  have rebuild: "indexed mb g bs fin s d (rebuildIndex g (length (log_bytes bs)) s d')"
    if "files d' = files d" "faults d = [] \<Longrightarrow> faults d' = []" for d'
  proof (rule indexed_trans [OF rebuildIndex_ok that])
    show "seg_bare mb d' g bs fin" using bare that(1) by (auto simp: seg_bare_def)
  qed
  show ?thesis
  proof (cases r1)
    case (Inl e)
    then show ?thesis using rebuild [OF R(1,2)] by (simp add: recover_index_def e1)
  next
    case (Inr es)
    obtain v d2 where e2: "validateIndexEntries g es (length (log_bytes bs)) d1 = (v, d2)" by fastforce
    note V = validateIndexEntries_facts [OF e2]
    have F: "files d2 = files d" "faults d = [] \<Longrightarrow> faults d2 = []" using R V by auto
    show ?thesis
    proof (cases v)
      case False
      then show ?thesis using rebuild [OF F] by (simp add: recover_index_def e1 e2 Inr)
    next
      case True
      have "validateIndexEntries g es (length (log_bytes bs)) d1 = (True, d2)" using e2 True by simp
      from checked_index_ok [OF e1 [unfolded Inr] this sz ct honest] have ix: "index_ok bs es" .
      have p: "unat (Position (last es)) < 2 ^ 63" if "es \<noteq> []" using R(3) [OF Inr last_in_set [OF that] sz] by simp
      have l: "(if es = [] then -1 else sint (Position (last es))) = last_indexed es"
        using p by (simp add: last_indexed_def sint_small)
      have t: "touches P d d2" for P by (rule touches_files [OF F])
      have "seg_repr mb d2 (g\<lparr>indexEntries := es, lastIndexedPosition := (if es = [] then -1 else sint (Position (last es))),
          nextOffset := fin\<rparr>) bs"
        using seg_bare_index [OF bare t ix l, where x = "indexDirty g" and n = "indexSize g"] by simp
      moreover have "lastIndexedPosition g = -1" using bare by (simp add: seg_bare_def)
      then have "recover_index g (length (log_bytes bs)) s d =
        (None, g\<lparr>indexEntries := es, lastIndexedPosition := (if es = [] then -1 else sint (Position (last es)))\<rparr>, s, d2)"
        by (simp add: recover_index_def e1 e2 Inr True)
      ultimately show ?thesis using t by (simp add: indexed_def split del: if_split)
    qed
  qed
qed

text \<open>A log file on disk, with its index file.\<close>

definition seg_file :: "int \<Rightarrow> disk \<Rightarrow> u64 \<Rightarrow> batch list \<Rightarrow> bytes \<Rightarrow> u64 \<Rightarrow> bool" where
  "seg_file mb d base bs t fin \<longleftrightarrow>
     map_of (files d) (log_name base) = Some (log_bytes bs @ t) \<and> chain (unat base) bs (unat fin) \<and> fits mb bs \<and>
     length (log_bytes bs @ t) < 2 ^ 63 \<and> index_honest base bs (content d (index_name base))"

lemma truncateLog_facts:
  assumes "truncateLog g n d = (r, g', d')" "\<not> handlesClosed g" "n \<le> length (content d (path g))"
  shows "touches {path g} d d'" "faults d = [] \<Longrightarrow> r = None"
    "r = None \<Longrightarrow> g' = g\<lparr>segSize := n\<rparr> \<and> map_of (files d') (path g) = Some (take n (content d (path g)))"
    "r \<noteq> None \<Longrightarrow> files d' = files d"
proof -
  obtain f d1 where nf: "next_fault d = (f, d1)" by fastforce
  note D = next_faultD [OF nf]
  show "touches {path g} d d'" "faults d = [] \<Longrightarrow> r = None"
    "r = None \<Longrightarrow> g' = g\<lparr>segSize := n\<rparr> \<and> map_of (files d') (path g) = Some (take n (content d (path g)))"
    "r \<noteq> None \<Longrightarrow> files d' = files d"
    using assms D by (auto simp: truncateLog_def sys_truncate_def nf Let_def touches_def split: if_splits)
qed

text \<open>The outcome for one segment.\<close>

definition recovered ::
  "int \<Rightarrow> u64 \<Rightarrow> batch list \<Rightarrow> u64 \<Rightarrow> store \<Rightarrow> disk \<Rightarrow> (err + u64) \<times> segment \<times> store \<times> disk \<Rightarrow> bool" where
  "recovered mb base bs fin s d res \<longleftrightarrow> (let (r, g', s', d') = res in
     touches (own_files base) d d' \<and> (s' = s \<or> s' = observe IndexRebuilt s) \<and>
     (case r of
        Inl e \<Rightarrow> faults d = [] \<longrightarrow> length (concat bs) > 2 ^ 32
      | Inr next \<Rightarrow> next = fin \<and> baseOffset g' = base \<and> seg_repr mb d' (g'\<lparr>nextOffset := fin\<rparr>) bs))"

lemma recovered_index:
  assumes "indexed mb g bs fin s d1 (r, g', s', d')" "touches (own_files (baseOffset g)) d d1"
  shows "recovered mb (baseOffset g) bs fin s d
    (case r of Some e \<Rightarrow> (Inl e, g', s', d') | None \<Rightarrow> (Inr fin, g', s', d'))"
proof -
  have "touches (own_files (baseOffset g)) d d'"
    using assms by (intro touches_trans [OF assms(2)]) (auto simp: indexed_def own_files_def)
  then show ?thesis
    using assms by (auto simp: recovered_def indexed_def touches_def split: option.splits)
qed

lemma recoverSegment_ok:
  assumes sf: "seg_file (maxBatchBytes s) d base bs t fin"
    and g: "baseOffset g = base" "path g = log_name base" "indexPath g = index_name base"
      "segSize g = length (content d (log_name base))" "indexSize g = length (content d (index_name base))"
      "lastIndexedPosition g = -1" "maxTimestamp g = 0" "\<not> handlesClosed g"
    and t: "t = [] \<or> act \<and> torn (maxBatchBytes s) t"
  shows "recovered (maxBatchBytes s) base bs fin s d (recoverSegment g act s d)"
proof -
  let ?mb = "maxBatchBytes s" and ?n = "length (log_bytes bs)" and ?g = "g\<lparr>maxTimestamp := max_timestamp (concat bs)\<rparr>"
  have f: "content d (log_name base) = log_bytes bs @ t" "chain (unat base) bs (unat fin)" "fits ?mb bs"
    "length (log_bytes bs @ t) < 2 ^ 63" "index_honest base bs (content d (index_name base))"
    using sf by (auto simp: seg_file_def content_def)
  have "reads_ok d (recover_loop ?mb act g (length (log_bytes [])) (of_nat (unat base)) 0 d)
    (\<lambda>x. x = (length (log_bytes ([] @ bs)), t \<noteq> [], of_nat (unat fin), raise_timestamp 0 (concat bs)))"
    using f g t by (intro recover_loop_ok) auto
  then have loop: "reads_ok d (recover_loop ?mb act g 0 base 0 d) (\<lambda>x. x = (?n, t \<noteq> [], fin, max_timestamp (concat bs)))"
    by (simp add: raise_timestamp_zero)
  obtain r1 d1 where e1: "recover_loop ?mb act g 0 base 0 d = (r1, d1)" by fastforce
  have F1: "files d1 = files d" "faults d = [] \<longrightarrow> d1 = d" using loop by (auto simp: e1 reads_ok_def)
  have T1: "touches P d d1" for P using F1 by (intro touches_files) auto
  show ?thesis
  proof (cases r1)
    case (Inl e)
    then show ?thesis using loop T1 by (auto simp: recoverSegment_def g e1 recovered_def reads_ok_def)
  next
    case (Inr x)
    then have x: "x = (?n, t \<noteq> [], fin, max_timestamp (concat bs))" using loop by (simp add: e1 reads_ok_def)
    obtain r2 g2 d2 where e2: "(if t \<noteq> [] then truncateLog ?g ?n d1 else (None, ?g, d1)) = (r2, g2, d2)" by (metis surj_pair)
    have ct1: "content d1 (log_name base) = log_bytes bs @ t" using content_cong [OF F1(1)] f(1) by simp
    have tr: "touches (own_files base) d1 d2 \<and> (faults d1 = [] \<longrightarrow> r2 = None) \<and>
      (r2 = None \<longrightarrow> g2 = ?g\<lparr>segSize := ?n\<rparr> \<and> map_of (files d2) (log_name base) = Some (log_bytes bs) \<and>
         content d2 (index_name base) = content d (index_name base))"
    proof (cases "t = []")
      case True
      then show ?thesis using e2 g(4) f(1) sf F1 content_cong [OF F1(1)] by (auto simp: touches_def seg_file_def)
    next
      case False
      then have tl: "truncateLog ?g ?n d1 = (r2, g2, d2)" using e2 by simp
      note L = truncateLog_facts [OF tl]
      have "touches {log_name base} d1 d2" using L(1) g ct1 by simp
      then show ?thesis
        using L(2,3) g ct1 content_cong [OF F1(1)] touches_content [of "{log_name base}" d1 d2 "index_name base"]
        by (auto simp: own_files_def intro: touches_mono)
    qed
    have T2: "touches (own_files base) d d2" using touches_step [OF T1] tr by blast
    show ?thesis
    proof (cases r2)
      case (Some e)
      then have "faults d \<noteq> []" using tr F1(2) by auto
      then show ?thesis using T2 Some e2 by (auto simp: recoverSegment_def g e1 Inr x recovered_def)
    next
      case None
      have bare: "seg_bare ?mb d2 g2 bs fin" and i2: "indexSize g2 = length (content d2 (indexPath g2))"
        "index_honest (baseOffset g2) bs (content d2 (indexPath g2))" "baseOffset g2 = base"
        using tr None g f(2-5) by (auto simp: seg_bare_def)
      obtain r3 g3 s3 d3 where e3: "recover_index g2 ?n s d2 = (r3, g3, s3, d3)" by (metis surj_pair)
      have "recovered ?mb base bs fin s d (case r3 of Some e \<Rightarrow> (Inl e, g3, s3, d3) | None \<Rightarrow> (Inr fin, g3, s3, d3))"
        using recovered_index [of ?mb g2 bs fin s d2 r3 g3 s3 d3 d] recover_index_ok [OF bare i2(1,2), of s] T2 i2(3) e3 by simp
      then show ?thesis using e2 e3 None by (simp add: recoverSegment_def g e1 Inr x split: option.splits)
    qed
  qed
qed

section \<open>Loading the segments\<close>

text \<open>
  A directory as a store leaves it: the segments \<open>segs\<close> with their base offsets, all but the last
  one complete and not empty, the last one with a tail \<open>t\<close>; the log ends at \<open>fin\<close>.
\<close>

fun dir_segs :: "int \<Rightarrow> disk \<Rightarrow> (u64 \<times> batch list) list \<Rightarrow> bytes \<Rightarrow> u64 \<Rightarrow> bool" where
  "dir_segs mb d [] t fin = False"
| "dir_segs mb d [(base, bs)] t fin = seg_file mb d base bs t fin"
| "dir_segs mb d ((base, bs) # (base', bs') # segs) t fin =
     (bs \<noteq> [] \<and> seg_file mb d base bs [] base' \<and> dir_segs mb d ((base', bs') # segs) t fin)"

lemma seg_file_cong:
  assumes "seg_file mb d base bs t fin" "map_of (files d') (log_name base) = map_of (files d) (log_name base)"
    "content d' (index_name base) = content d (index_name base)"
  shows "seg_file mb d' base bs t fin"
  using assms by (simp add: seg_file_def)

lemma seg_file_less: "seg_file mb d base bs t fin \<Longrightarrow> bs \<noteq> [] \<Longrightarrow> base < fin"
proof -
  assume "seg_file mb d base bs t fin" "bs \<noteq> []"
  then have ch: "chain (unat base) bs (unat fin)" and "0 < length (concat bs)"
    by (cases bs; auto simp: seg_file_def dest: batch_atD)+
  then show ?thesis using chain_fin [OF ch] unfolding word_less_nat_alt by linarith
qed

lemma dir_segs_bases:
  "dir_segs mb d segs t fin \<Longrightarrow> sorted_wrt (<) (map fst segs)"
proof (induction mb d segs t fin rule: dir_segs.induct)
  case (3 mb d base bs base' bs' segs t fin)
  then have "base < base'" using seg_file_less by (metis dir_segs.simps(3))
  then show ?case using 3 by (auto intro: order_less_trans)
qed auto

lemma dir_segs_cong:
  assumes "dir_segs mb d segs t fin" "\<forall>b \<in> fst ` set segs. map_of (files d') (log_name b) = map_of (files d) (log_name b) \<and>
    content d' (index_name b) = content d (index_name b)"
  shows "dir_segs mb d' segs t fin"
  using assms by (induction mb d segs t fin rule: dir_segs.induct) (auto intro: seg_file_cong)

lemma own_files_disjoint: "a \<noteq> b \<Longrightarrow> log_name a \<notin> own_files b \<and> index_name a \<notin> own_files b"
  by (simp add: own_files_def)

lemma NewSegment_touches: "NewSegment base act d = (r, d') \<Longrightarrow> touches (own_files base) d d'"
proof -
  assume ns: "NewSegment base act d = (r, d')"
  show ?thesis
    using NewSegment_facts(2) [OF ns] NewSegment_facts(3) [OF ns] unfolding touches_def own_files_def by blast
qed

lemma NewSegment_recover:
  assumes sf: "seg_file (maxBatchBytes s) d base bs t fin" and ns: "NewSegment base act d = (Inr g, d1)"
    and t: "t = [] \<or> act \<and> torn (maxBatchBytes s) t"
  shows "recovered (maxBatchBytes s) base bs fin s d (recoverSegment g act s d1)"
proof -
  note N = NewSegment_facts [OF ns]
  have ct: "content d1 q = content d q" for q using N(3) [of q] by (auto simp: content_def)
  have lg: "map_of (files d1) (log_name base) = map_of (files d) (log_name base)"
    using N(3) [of "log_name base"] sf by (auto simp: seg_file_def)
  have "recovered (maxBatchBytes s) base bs fin s d1 (recoverSegment g act s d1)"
    using conjunct2 [OF N(4) [OF refl]] seg_file_cong [OF sf lg ct] t ct by (intro recoverSegment_ok) auto
  moreover have "faults d = [] \<longrightarrow> faults d1 = []" using N(2) by blast
  ultimately show ?thesis
    using touches_step [OF NewSegment_touches [OF ns]]
    by (fastforce simp: recovered_def split: prod.splits sum.splits)
qed

lemma SegClose_touches: "SegClose g d = (r, g', d') \<Longrightarrow> touches P d d'"
proof -
  assume c: "SegClose g d = (r, g', d')"
  obtain r1 d1 where e1: "sys_close d = (r1, d1)" by fastforce
  obtain r2 d2 where e2: "sys_close d1 = (r2, d2)" by fastforce
  show ?thesis
    using c sys_close_facts [OF e1] sys_close_facts [OF e2]
    by (auto simp: SegClose_def e1 e2 touches_def split: if_splits)
qed

lemma close_segments_touches: "close_segments gs d = (r, gs', d') \<Longrightarrow> touches P d d'"
proof (induction gs arbitrary: d r gs' d')
  case (Cons g gs)
  obtain r1 g1 d1 where e1: "SegClose g d = (r1, g1, d1)" by (metis surj_pair)
  obtain r2 gs2 d2 where e2: "close_segments gs d1 = (r2, gs2, d2)" by (metis surj_pair)
  show ?case using touches_step [OF SegClose_touches [OF e1] Cons.IH [OF e2]] Cons.prems by (auto simp: e1 e2)
qed (simp add: touches_def)

lemma closeAllOpenSegments_touches: "closeAllOpenSegments s d = (s', d') \<Longrightarrow> touches P d d'"
  using close_segments_touches by (auto simp: closeAllOpenSegments_def split: prod.splits)

lemma store_upd_swap: "s\<lparr>observer := obs, segments := gs\<rparr> = s\<lparr>segments := gs, observer := obs\<rparr>" for s :: store
  by (cases s) simp

lemma load_step:
  assumes sf: "seg_file (maxBatchBytes s) d base bs t fin" and t: "t = [] \<or> rest = [] \<and> torn (maxBatchBytes s) t"
  obtains (fail) e s' d' where "load_segments (base # rest) base s d = (Inl e, s', d')" "touches (own_files base) d d'"
      "faults d = [] \<longrightarrow> length (concat bs) > 2 ^ 32"
  | (ok) g obs d' where "load_segments (base # rest) base s d =
        load_segments rest fin (s\<lparr>segments := segments s @ [g], observer := obs\<rparr>) d'"
      "touches (own_files base) d d'" "seg_repr (maxBatchBytes s) d' g bs" "baseOffset g = base" "nextOffset g = fin"
proof -
  obtain r1 d1 where e1: "NewSegment base (rest = []) d = (r1, d1)" by fastforce
  note T1 = NewSegment_touches [OF e1]
  show ?thesis
  proof (cases r1)
    case (Inl e)
    obtain s2 d2 where e2: "closeAllOpenSegments s d1 = (s2, d2)" by fastforce
    have "faults d \<noteq> []" using NewSegment_facts(2) [OF e1] Inl by auto
    then show ?thesis
      using touches_step [OF T1 closeAllOpenSegments_touches [OF e2]] e1 e2 Inl by (intro fail [of e s2 d2]) simp_all
  next
    case (Inr g)
    obtain r2 g2 s2 d2 where e2: "recoverSegment g (rest = []) s d1 = (r2, g2, s2, d2)" by (metis surj_pair)
    have R: "recovered (maxBatchBytes s) base bs fin s d (r2, g2, s2, d2)"
      using NewSegment_recover [OF sf e1 [unfolded Inr]] t e2 by auto
    show ?thesis
    proof (cases r2)
      case f: (Inl e)
      obtain s3 d3 where e3: "closeAllOpenSegments (s2\<lparr>segments := segments s2 @ [g2]\<rparr>) d2 = (s3, d3)" by fastforce
      have "touches (own_files base) d d3"
        using R closeAllOpenSegments_touches [OF e3] touches_step by (auto simp: recovered_def)
      then show ?thesis using R e1 e2 e3 Inr f by (intro fail [of e s3 d3]) (simp_all add: recovered_def)
    next
      case n: (Inr nx)
      show ?thesis
        using R e1 e2 Inr n
        by (intro ok [where g = "g2\<lparr>nextOffset := fin\<rparr>" and obs = "observer s2" and d' = d2])
          (auto simp: recovered_def observe_def store_upd_swap)
    qed
  qed
qed

definition all_own :: "(u64 \<times> batch list) list \<Rightarrow> gostring set" where
  "all_own segs = (\<Union>b \<in> fst ` set segs. own_files b)"

definition loaded ::
  "int \<Rightarrow> (u64 \<times> batch list) list \<Rightarrow> u64 \<Rightarrow> store \<Rightarrow> disk \<Rightarrow> (err + u64) \<times> store \<times> disk \<Rightarrow> bool" where
  "loaded mb segs fin s d res \<longleftrightarrow> (let (r, s', d') = res in
     touches (all_own segs) d d' \<and>
     (case r of
        Inl e \<Rightarrow> faults d = [] \<longrightarrow> (\<exists>(b, bs) \<in> set segs. length (concat bs) > 2 ^ 32)
      | Inr next \<Rightarrow> next = fin \<and>
          (\<exists>gs obs. s' = s\<lparr>segments := segments s @ gs, observer := obs\<rparr> \<and> list_all2 (seg_repr mb d') gs (map snd segs) \<and>
             linked gs \<and> map baseOffset gs = map fst segs \<and> nextOffset (last gs) = fin)))"

lemma loaded_Cons:
  assumes L: "loaded mb (y # segs) fin s1 d1 res" and T: "touches (own_files base) d d1"
    and g: "seg_repr mb d1 g bs" "baseOffset g = base" "nextOffset g = fst y"
    and s1: "s1 = s\<lparr>segments := segments s @ [g], observer := obs\<rparr>" and lt: "\<forall>b \<in> fst ` set (y # segs). base \<noteq> b"
  shows "loaded mb ((base, bs) # y # segs) fin s d res"
proof -
  obtain r s' d' where res: "res = (r, s', d')" by (metis surj_pair)
  have T1: "touches (all_own (y # segs)) d1 d'" using L by (simp add: loaded_def res)
  have T2: "touches (all_own ((base, bs) # y # segs)) d d'"
    by (rule touches_trans [OF T T1]) (auto simp: all_own_def)
  have faults: "faults d = [] \<longrightarrow> faults d1 = []" using T by (simp add: touches_def)
  have "log_name base \<notin> all_own (y # segs)" using lt own_files_disjoint by (force simp: all_own_def)
  then have "map_of (files d') (path g) = map_of (files d1) (path g)"
    using T1 g(1,2) by (simp add: touches_def seg_repr_def)
  then have g': "seg_repr mb d' g bs" using g(1) seg_repr_files by blast
  show ?thesis
  proof (cases r)
    case (Inl e)
    then show ?thesis using L T2 faults by (fastforce simp: loaded_def res)
  next
    case (Inr n)
    then obtain gs obs' where gs: "n = fin" "s' = s1\<lparr>segments := segments s1 @ gs, observer := obs'\<rparr>"
      "list_all2 (seg_repr mb d') gs (map snd (y # segs))" "linked gs" "map baseOffset gs = map fst (y # segs)"
      "nextOffset (last gs) = fin"
      using L by (auto simp: loaded_def res)
    then have "linked (g # gs)" "gs \<noteq> []" using g(3) by (cases gs; auto simp: linked_def)+
    then show ?thesis
      using gs g g' T2 by (auto simp: loaded_def res Inr s1 intro!: exI [of _ "g # gs"] exI [of _ obs'])
  qed
qed

lemma load_segments_ok:
  assumes "dir_segs (maxBatchBytes s) d segs t fin" "t = [] \<or> torn (maxBatchBytes s) t"
  shows "loaded (maxBatchBytes s) segs fin s d (load_segments (map fst segs) (fst (hd segs)) s d)"
  using assms
proof (induction segs arbitrary: s d rule: induct_list012)
  case (2 x)
  obtain base bs where x: "x = (base, bs)" by fastforce
  have sf: "seg_file (maxBatchBytes s) d base bs t fin" and t: "t = [] \<or> [] = [] \<and> torn (maxBatchBytes s) t"
    using 2 by (simp_all add: x)
  show ?case
  proof (rule load_step [OF sf t], goal_cases)
    case (1 e s' d')
    then show ?case by (simp add: loaded_def all_own_def x)
  next
    case (2 g obs d')
    then show ?case by (auto simp: loaded_def all_own_def linked_def x intro!: exI [of _ "[g]"])
  qed
next
  case (3 x y segs)
  obtain base bs base' bs' where x: "x = (base, bs)" "y = (base', bs')" by fastforce
  have sf: "seg_file (maxBatchBytes s) d base bs [] base'" and ds: "dir_segs (maxBatchBytes s) d (y # segs) t fin"
    using "3.prems"(1) by (simp_all add: x)
  have lt: "\<forall>b \<in> fst ` set (y # segs). base \<noteq> b" using dir_segs_bases [OF "3.prems"(1)] by (auto simp: x)
  have step: "[] = [] \<or> map fst (y # segs) = [] \<and> torn (maxBatchBytes s) []" by simp
  show ?case
  proof (rule load_step [OF sf step], goal_cases)
    case (1 e s' d')
    have "touches (all_own (x # y # segs)) d d'" using 1(2) by (rule touches_mono) (auto simp: all_own_def x)
    then show ?case using 1 by (auto simp: loaded_def x)
  next
    case (2 g obs d1)
    define s1 where "s1 = s\<lparr>segments := segments s @ [g], observer := obs\<rparr>"
    have "dir_segs (maxBatchBytes s1) d1 (y # segs) t fin"
      unfolding s1_def using 2(2) lt own_files_disjoint touches_content [OF 2(2)]
      by (simp, intro dir_segs_cong [OF ds] ballI conjI) (auto simp: touches_def)
    from "3.IH"(2) [OF this] "3.prems"(2)
    have IH: "loaded (maxBatchBytes s) (y # segs) fin s1 d1 (load_segments (map fst (y # segs)) base' s1 d1)"
      by (simp add: s1_def x)
    have eq: "load_segments (map fst (x # y # segs)) (fst (hd (x # y # segs))) s d = load_segments (map fst (y # segs)) base' s1 d1"
      using 2(1) by (simp add: x s1_def)
    show ?case
      unfolding eq unfolding x(1) by (rule loaded_Cons [OF IH 2(2-4) _ s1_def lt]) (simp add: 2(5) x(2))
  qed
qed simp

section \<open>Names in the directory\<close>

lemma has_suffix_append [simp]: "has_suffix suf (p @ suf)"
  by (simp add: has_suffix_def)

lemma has_suffixD: "has_suffix suf n \<Longrightarrow> n = take (length n - length suf) n @ suf"
  by (metis append_take_drop_id has_suffix_def)

lemma base_of_log_name [simp]: "base_of (log_name b) = Some b"
  using ParseUint_dec_put [of b] by (simp add: base_of_def log_name_def)

lemma base_of_Some: "base_of n = Some b \<longleftrightarrow> n = log_name b"
proof
  assume b: "base_of n = Some b"
  let ?p = "take (length n - length log_suffix) n"
  have n: "n = ?p @ log_suffix" "length ?p = 20" "ParseUint ?p = Some b"
    using b by (auto simp: base_of_def Let_def dest: has_suffixD split: if_splits)
  have "?p = dec_put 20 (unat b)" by (rule ParseUint_inverse [OF n(3,2)])
  then show "n = log_name b" using n(1) unfolding log_name_def by metis
qed simp

lemma tmp_names:
  assumes "has_suffix (index_suffix @ tmp_suffix) n"
  shows "n \<noteq> log_name b" "n \<noteq> index_name b"
proof -
  have "last n = last tmp_suffix" using has_suffixD [OF assms] by (metis append_is_Nil_conv last_append list.discI tmp_suffix_def)
  moreover have "last (log_name b) = 0x67" "last (index_name b) = 0x78" "last tmp_suffix = 0x70"
    by (simp_all add: log_name_def index_name_def log_suffix_def index_suffix_def tmp_suffix_def)
  ultimately show "n \<noteq> log_name b" "n \<noteq> index_name b" by auto
qed

lemma not_tmp [simp]:
  "\<not> has_suffix (index_suffix @ tmp_suffix) (log_name b)" "\<not> has_suffix (index_suffix @ tmp_suffix) (index_name b)"
  using tmp_names by blast+

lemma remove_tmps_touches: "touches {n. has_suffix (index_suffix @ tmp_suffix) n} d (remove_tmps names d)"
proof (induction names arbitrary: d)
  case (Cons n names)
  let ?d = "if has_suffix (index_suffix @ tmp_suffix) n then snd (sys_remove n d) else d"
  have "touches {n. has_suffix (index_suffix @ tmp_suffix) n} d ?d"
    using touches_mono [OF sys_remove_touches [of n d]] by (auto simp: touches_files)
  from touches_step [OF this Cons.IH] show ?case by (simp add: remove_tmps_def)
qed (simp add: remove_tmps_def touches_files)

text \<open>The names give back the base offsets, in order.\<close>

lemma directory_bases:
  assumes "\<forall>b. map_of fs (log_name b) \<noteq> None \<longleftrightarrow> b \<in> set bases" "sorted_wrt (<) bases"
  shows "sort (List.map_filter base_of (sort (remdups (map fst fs)))) = bases"
proof -
  let ?m = "List.map_filter base_of (sort (remdups (map fst fs)))"
  have "set ?m = set bases"
  proof (intro set_eqI iffI)
    fix b assume "b \<in> set ?m"
    then have "log_name b \<in> set (map fst fs)" by (force simp: map_filter_def base_of_Some)
    then show "b \<in> set bases" using assms(1) by (simp add: map_of_eq_None_iff)
  next
    fix b assume "b \<in> set bases"
    then have "map_of fs (log_name b) \<noteq> None" using assms(1) by blast
    then have "log_name b \<in> set (sort (remdups (map fst fs)))" using map_of_eq_None_iff [of fs "log_name b"] by simp
    then show "b \<in> set ?m" by (force simp: map_filter_def)
  qed
  moreover have "inj_on (the \<circ> base_of) {n \<in> set (sort (remdups (map fst fs))). base_of n \<noteq> None}"
    by (auto simp: inj_on_def base_of_Some)
  then have "distinct ?m"
    by (auto simp: map_filter_def distinct_map distinct_filter)
  ultimately show ?thesis
    using assms(2) by (intro sorted_distinct_set_unique) (auto simp: strict_sorted_iff)
qed

section \<open>OpenStore\<close>

definition log_dir :: "int \<Rightarrow> disk \<Rightarrow> (u64 \<times> batch list) list \<Rightarrow> bytes \<Rightarrow> u64 \<Rightarrow> bool" where
  "log_dir mb d segs t fin \<longleftrightarrow>
     dir_segs mb d segs t fin \<and> (t = [] \<or> torn mb t) \<and>
     (\<forall>b. map_of (files d) (log_name b) \<noteq> None \<longleftrightarrow> b \<in> fst ` set segs)"

definition start_store :: "int \<Rightarrow> int \<Rightarrow> int \<Rightarrow> gostring \<Rightarrow> obs_event list \<Rightarrow> store" where
  "start_store segMax batchMax interval mode obs =
     \<lparr>segmentMaxBytes = segMax, maxBatchBytes = batchMax, indexIntervalBytes = interval,
      flushMode = to_lower mode, closed = False, writeFailed = False, segments = [],
      activeSegment = 0, logEndOffset = 0, earliestOffset = 0, observer = obs\<rparr>"

lemma sys_readdir_facts:
  assumes "sys_readdir d = (r, d')"
  shows "files d' = files d" "faults d = [] \<Longrightarrow> d' = d \<and> (\<exists>ns. r = Inr ns)" "r = Inr ns \<Longrightarrow> ns = sort (remdups (map fst (files d)))"
proof -
  obtain f d1 where nf: "next_fault d = (f, d1)" by fastforce
  show "files d' = files d" "faults d = [] \<Longrightarrow> d' = d \<and> (\<exists>ns. r = Inr ns)" "r = Inr ns \<Longrightarrow> ns = sort (remdups (map fst (files d)))"
    using assms next_faultD [OF nf] by (auto simp: sys_readdir_def nf split: if_splits)
qed

lemma loaded_store_repr:
  assumes gs: "list_all2 (seg_repr mb d') gs (map snd segs)" "linked gs" "map baseOffset gs = map fst segs"
    and T: "touches (all_own segs) d d'" and ex: "\<forall>b. map_of (files d) (log_name b) \<noteq> None \<longrightarrow> b \<in> fst ` set segs"
    and ds: "dir_segs mb d0 segs t fin" and lims: "mb < 2 ^ 31" "segmentMaxBytes s < 2 ^ 63"
    and s: "segments s = gs" "maxBatchBytes s = mb" "activeSegment s = length gs - 1" "\<not> closed s" "\<not> writeFailed s"
      "earliestOffset s = fst (hd segs)" "logEndOffset s = nextOffset (last gs)"
  shows "store_repr s d' (map snd segs)"
proof -
  have ne: "segs \<noteq> []" "gs \<noteq> []" using ds gs(1) by auto
  have full: "\<forall>bs \<in> set (butlast (map snd segs)). bs \<noteq> []"
    using ds by (induction mb d0 segs t fin rule: dir_segs.induct) auto
  have strays: "no_strays d' gs"
    unfolding no_strays_def
  proof (intro allI impI)
    fix b assume b: "map_of (files d') (log_name b) \<noteq> None"
    have "b \<in> fst ` set segs"
    proof (rule ccontr)
      assume n: "b \<notin> fst ` set segs"
      then have "log_name b \<notin> all_own segs" using own_files_disjoint by (force simp: all_own_def)
      then show False using T b ex n by (simp add: touches_def)
    qed
    then show "b \<in> baseOffset ` set gs" using gs(3) by (metis list.set_map)
  qed
  have "baseOffset (hd gs) = fst (hd segs)" using gs(3) ne by (metis hd_map)
  then show ?thesis
    using gs ne full strays lims s by (simp add: store_repr_def limits_ok_def)
qed

lemma open_store_ok:
  assumes dir: "log_dir batchMax d segs t fin" and lims: "batchMax < 2 ^ 31" "segMax < 2 ^ 63"
    and op: "open_store segMax batchMax interval mode obs d = (r, s, d')"
  shows "r = None \<Longrightarrow> store_repr s d' (map snd segs) \<and> logEndOffset s = fin \<and>
      earliestOffset s = fst (hd segs) \<and> config s = (segMax, batchMax, interval, to_lower mode)"
    "faults d = [] \<Longrightarrow> \<forall>(b, bs) \<in> set segs. length (concat bs) \<le> 2 ^ 32 \<Longrightarrow> r = None \<and> faults d' = []"
proof -
  let ?bases = "map fst segs" and ?s0 = "(start_store segMax batchMax interval mode obs)\<lparr>earliestOffset := fst (hd segs)\<rparr>"
  have D: "dir_segs batchMax d segs t fin" "t = [] \<or> torn batchMax t"
    "\<forall>b. map_of (files d) (log_name b) \<noteq> None \<longleftrightarrow> b \<in> set ?bases"
    using dir unfolding log_dir_def set_map by blast+
  obtain r1 d1 where e1: "sys_mkdir d = (r1, d1)" by fastforce
  obtain r2 d2 where e2: "sys_readdir d1 = (r2, d2)" by fastforce
  note F1 = sys_mkdir_facts [OF e1] and F2 = sys_readdir_facts [OF e2]
  define d3 where "d3 = remove_tmps (sort (remdups (map fst (files d)))) d2"
  have T3: "touches {n. has_suffix (index_suffix @ tmp_suffix) n} d2 d3" unfolding d3_def by (rule remove_tmps_touches)
  have keep: "map_of (files d3) (log_name b) = map_of (files d) (log_name b)"
    "content d3 (index_name b) = content d (index_name b)" for b
    using T3 F1(1) F2(1) by (simp_all add: touches_def content_def)
  have dir3: "dir_segs batchMax d3 segs t fin" using keep by (intro dir_segs_cong [OF D(1)]) auto
  have bases: "sort (List.map_filter base_of (sort (remdups (map fst (files d))))) = ?bases"
    by (rule directory_bases [OF D(3) dir_segs_bases [OF D(1)]])
  obtain r4 s4 d4 where e4: "load_segments ?bases (fst (hd segs)) ?s0 d3 = (r4, s4, d4)" by (metis surj_pair)
  have L: "loaded batchMax segs fin ?s0 d3 (r4, s4, d4)"
    using load_segments_ok [of ?s0 d3 segs t fin] dir3 D(2) e4 by (simp add: start_store_def)
  have run: "open_store segMax batchMax interval mode obs d =
     (case r4 of
        Inl e \<Rightarrow> (Some e, s4, d4)
      | Inr nx \<Rightarrow> (None, updateGaugesLocked (s4\<lparr>logEndOffset := nx, activeSegment := length (segments s4) - 1\<rparr>), d4))"
    if "r1 = Inr ()" "r2 = Inr ns" for ns
  proof -
    have ns: "ns = sort (remdups (map fst (files d)))" using F2(3) [OF that(2)] F1(1) by simp
    have ne: "?bases \<noteq> []" "hd ?bases = fst (hd segs)" using D(1) by (cases segs; simp)+
    have "segments s4 \<noteq> []" if "r4 = Inr nx" for nx
      using L that D(1) by (auto simp: loaded_def start_store_def)
    then show ?thesis
      using that ne by (simp add: open_store_def e1 e2 ns bases Let_def e4 [unfolded start_store_def, simplified] d3_def [symmetric] split: sum.splits)
  qed
  show "store_repr s d' (map snd segs) \<and> logEndOffset s = fin \<and>
      earliestOffset s = fst (hd segs) \<and> config s = (segMax, batchMax, interval, to_lower mode)"
    if none: "r = None"
  proof -
    have "\<exists>ns. r1 = Inr () \<and> r2 = Inr ns"
      using op none by (auto simp: open_store_def e1 e2 Let_def split: sum.splits)
    then have op4: "(case r4 of Inl e \<Rightarrow> (Some e, s4, d4)
        | Inr nx \<Rightarrow> (None, updateGaugesLocked (s4\<lparr>logEndOffset := nx, activeSegment := length (segments s4) - 1\<rparr>), d4)) = (r, s, d')"
      using run op by metis
    then obtain gs obs' where gs: "r4 = Inr fin" "s4 = ?s0\<lparr>segments := gs, observer := obs'\<rparr>" "d4 = d'"
      "list_all2 (seg_repr batchMax d') gs (map snd segs)" "linked gs" "map baseOffset gs = map fst segs"
      "nextOffset (last gs) = fin" "touches (all_own segs) d3 d'"
      using L none by (auto simp: loaded_def start_store_def split: sum.splits)
    then have s: "s = updateGaugesLocked (?s0\<lparr>segments := gs, observer := obs', logEndOffset := fin, activeSegment := length gs - 1\<rparr>)"
      using op4 by simp
    have "\<forall>b. map_of (files d3) (log_name b) \<noteq> None \<longrightarrow> b \<in> fst ` set segs" using keep(1) D(3) by simp
    from loaded_store_repr [OF gs(4-6,8) this D(1) lims(1)] show ?thesis
      using lims gs(7) by (simp add: s updateGaugesLocked_def observe_def start_store_def config_def)
  qed
  show "r = None \<and> faults d' = []" if "faults d = []" "\<forall>(b, bs) \<in> set segs. length (concat bs) \<le> 2 ^ 32"
  proof -
    have ok: "r1 = Inr ()" "\<exists>ns. r2 = Inr ns" "faults d3 = []"
      using F1(2) F2(2) T3 that(1) by (auto simp: touches_def)
    have "\<exists>nx. r4 = Inr nx" "faults d4 = []"
      using L that(2) ok(3) by (auto simp: loaded_def touches_def split: sum.splits)
    then show ?thesis using run ok(1,2) op by auto
  qed
qed

end
