(* ===== verification/Log_Retention.thy ===== *)
theory Log_Retention
  imports Log_Reopen
begin

text \<open>
  \<^verbatim>\<open>Store.ApplyRetention\<close>: closed segments are deleted oldest first, by age and then by size. The
  lemmas show that what is left is a suffix of the log that the store still serves, under every
  pattern of disk failures, and which segments may go.
\<close>

section \<open>The operation\<close>

fun total_bytes :: "segment list \<Rightarrow> u64 \<Rightarrow> disk \<Rightarrow> (err + u64) \<times> disk" where
  "total_bytes [] acc d = (Inr acc, d)"
| "total_bytes (g # gs) acc d =
     (case sys_stat (path g) d of
        (Inl e, d) \<Rightarrow> (Inl e, d)
      | (Inr logSize, d) \<Rightarrow>
          (case sys_stat (indexPath g) d of
             (Inl e, d) \<Rightarrow> (Inl e, d)
           | (Inr indexInfoSize, d) \<Rightarrow> total_bytes gs (acc + of_nat (logSize + indexInfoSize)) d))"

definition calculateTotalBytes :: "store \<Rightarrow> disk \<Rightarrow> (err + u64) \<times> disk" where
  "calculateTotalBytes s d = total_bytes (segments s) 0 d"

definition deleteSegmentAtIndex :: "nat \<Rightarrow> store \<Rightarrow> disk \<Rightarrow> err option \<times> store \<times> disk" where
  "deleteSegmentAtIndex idx s d =
     (let seg = segments s ! idx in
      case sys_remove (path seg) d of
        (Inl e, d) \<Rightarrow> (Some e, s, d)
      | (Inr _, d) \<Rightarrow>
          let s = observe SegmentDeleted s;
              gs = take idx (segments s) @ drop (idx + 1) (segments s);
              s = s\<lparr>segments := gs,
                    activeSegment := (if idx < activeSegment s then activeSegment s - 1 else activeSegment s),
                    earliestOffset := (if gs = [] then earliestOffset s else baseOffset (hd gs))\<rparr>;
              (r1, d) = sys_remove (indexPath seg) d;
              e1 = (case r1 of Inl e \<Rightarrow> if e = ENOENT then None else Some e | Inr _ \<Rightarrow> None);
              (e2, _, d) = SegClose seg d;
              (e3, d) = syncDirectory d in
          (join_err e1 (join_err e2 e3), s, d))"

lemma delete_shorter:
  "deleteSegmentAtIndex 0 s d = (None, s', d') \<Longrightarrow> segments s \<noteq> [] \<Longrightarrow> length (segments s') < length (segments s)"
  by (auto simp: deleteSegmentAtIndex_def Let_def observe_def split: sum.splits prod.splits)

function age_loop :: "int \<Rightarrow> store \<Rightarrow> disk \<Rightarrow> err option \<times> store \<times> disk" where
  "age_loop cutoff s d =
     (if length (segments s) \<le> 1 then (None, s, d)
      else if activeSegment s = 0 then (None, s, d)
      else if sint (maxTimestamp (hd (segments s))) \<le> cutoff then
        case deleteSegmentAtIndex 0 s d of
          (Some e, s, d) \<Rightarrow> (Some e, s, d)
        | (None, s, d) \<Rightarrow> age_loop cutoff s d
      else (None, s, d))"
  by pat_completeness auto
termination
  by (relation "measure (\<lambda>(cutoff, s, d). length (segments s))") (auto dest!: delete_shorter [OF sym])

declare age_loop.simps [simp del]

function size_loop :: "u64 \<Rightarrow> store \<Rightarrow> disk \<Rightarrow> err option \<times> store \<times> disk" where
  "size_loop maxPartitionBytes s d =
     (if length (segments s) \<le> 1 then (None, s, d)
      else
      case calculateTotalBytes s d of
        (Inl e, d) \<Rightarrow> (Some e, s, d)
      | (Inr totalBytes, d) \<Rightarrow>
          if totalBytes \<le> maxPartitionBytes then (None, s, d)
          else if activeSegment s = 0 then (None, s, d)
          else
          (case deleteSegmentAtIndex 0 s d of
             (Some e, s, d) \<Rightarrow> (Some e, s, d)
           | (None, s, d) \<Rightarrow> size_loop maxPartitionBytes s d))"
  by pat_completeness auto
termination
  by (relation "measure (\<lambda>(maxPartitionBytes, s, d). length (segments s))") (auto dest!: delete_shorter [OF sym])

declare size_loop.simps [simp del]

text \<open>
  \<open>now\<close> is the clock in nanoseconds. A \<^verbatim>\<open>time.Duration\<close> is an \<^verbatim>\<open>int64\<close>, so its negation wraps at the
  least value; \<^verbatim>\<open>UnixMilli\<close> rounds down.
\<close>

definition cutoff_of :: "int \<Rightarrow> i64 \<Rightarrow> int" where
  "cutoff_of now maxAge = (now + sint (- maxAge)) div 1000000"

definition ApplyRetention :: "int \<Rightarrow> i64 \<Rightarrow> u64 \<Rightarrow> store \<Rightarrow> disk \<Rightarrow> err option \<times> store \<times> disk" where
  "ApplyRetention now maxAge maxPartitionBytes s d =
     (if closed s \<or> writeFailed s then (None, s, d)
      else
      let (e1, s, d) = age_loop (cutoff_of now maxAge) s d;
          (e2, s, d) = size_loop maxPartitionBytes s d in
      (join_err e1 e2, updateGaugesLocked s, d))"

section \<open>Deleting the oldest segment\<close>

lemma sys_remove_facts:
  assumes "sys_remove p d = (r, d')"
  shows "r = Inr () \<Longrightarrow> map_of (files d') = (map_of (files d))(p := None)" "r \<noteq> Inr () \<Longrightarrow> files d' = files d"
    "faults d = [] \<Longrightarrow> faults d' = []" "faults d = [] \<Longrightarrow> r = (if map_of (files d) p = None then Inl ENOENT else Inr ())"
    "flushed d' = flushed d"
proof -
  obtain f d1 where nf: "next_fault d = (f, d1)" by fastforce
  note D = next_faultD [OF nf]
  show "r = Inr () \<Longrightarrow> map_of (files d') = (map_of (files d))(p := None)" "r \<noteq> Inr () \<Longrightarrow> files d' = files d"
    "faults d = [] \<Longrightarrow> faults d' = []" "faults d = [] \<Longrightarrow> r = (if map_of (files d) p = None then Inl ENOENT else Inr ())"
    "flushed d' = flushed d"
    using assms D by (auto simp: sys_remove_def nf Let_def del_file_def delete_conv' split: if_splits)
qed

text \<open>A store without its oldest segment, when it has another one.\<close>

lemma store_repr_tl:
  assumes repr: "store_repr s d (bs # bss)" and more: "length (segments s) > 1"
    and gone: "map_of (files d') (path (hd (segments s))) = None"
    and T: "touches {path (hd (segments s)), indexPath (hd (segments s))} d d'"
    and s': "segments s' = tl (segments s)" "activeSegment s' = activeSegment s - 1" "config s' = config s"
      "closed s' = closed s" "writeFailed s' = writeFailed s" "logEndOffset s' = logEndOffset s"
      "earliestOffset s' = baseOffset (hd (tl (segments s)))"
  shows "store_repr s' d' bss"
proof -
  obtain g gs where gs: "segments s = g # gs" "gs \<noteq> []" using more by (cases "segments s") auto
  have R: "seg_repr (maxBatchBytes s) d g bs" "list_all2 (seg_repr (maxBatchBytes s) d) gs bss" "linked gs"
    "no_strays d (g # gs)" "\<forall>bs \<in> set (butlast bss). bs \<noteq> []" "bss \<noteq> []"
    using repr gs by (cases gs; cases bss; auto simp: store_repr_def linked_def)+
  have names: "path x = log_name (baseOffset x)" "indexPath x = index_name (baseOffset x)" if "x \<in> set (g # gs)" for x
    using store_repr_names [OF repr] that gs(1) by auto
  have lt: "baseOffset g < baseOffset x" if "x \<in> set gs" for x
    using store_repr_bases [OF repr] that gs(1) by simp
  have same: "list_all2 (seg_repr (maxBatchBytes s) d') gs bss"
  proof (rule list.rel_mono_strong [OF R(2)])
    fix x y assume x: "x \<in> set gs" "seg_repr (maxBatchBytes s) d x y"
    then have "map_of (files d') (path x) = map_of (files d) (path x)"
      using T names [of x] names [of g] lt [OF x(1)] gs(1) by (auto simp: touches_def)
    then show "seg_repr (maxBatchBytes s) d' x y" using x(2) seg_repr_files by blast
  qed
  have "no_strays d' gs"
    unfolding no_strays_def
  proof (intro allI impI)
    fix b assume b: "map_of (files d') (log_name b) \<noteq> None"
    then have "b \<noteq> baseOffset g" using gone names [of g] gs(1) by auto
    then have "map_of (files d) (log_name b) \<noteq> None" using b T names [of g] gs(1) by (auto simp: touches_def)
    then show "b \<in> baseOffset ` set gs" using R(4) \<open>b \<noteq> baseOffset g\<close> by (auto simp: no_strays_def)
  qed
  moreover have "limits_ok s'" "maxBatchBytes s' = maxBatchBytes s"
    using repr s'(3) by (auto simp: store_repr_def limits_ok_def config_def)
  ultimately show ?thesis
    using repr gs R same s' by (simp add: store_repr_def)
qed

definition seg_files :: "segment list \<Rightarrow> gostring set" where
  "seg_files gs = (\<Union>g \<in> set gs. {path g, indexPath g})"

lemma SegClose_faults: "SegClose g d = (r, g', d') \<Longrightarrow> faults d = [] \<Longrightarrow> r = None"
proof -
  assume c: "SegClose g d = (r, g', d')" and f: "faults d = []"
  obtain r1 d1 where e1: "sys_close d = (r1, d1)" by fastforce
  obtain r2 d2 where e2: "sys_close d1 = (r2, d2)" by fastforce
  show ?thesis
    using c sys_close_facts [OF e1] sys_close_facts [OF e2] f
    by (auto simp: SegClose_def e1 e2 err_of_def join_err_def split: if_splits)
qed

text \<open>
  Deleting the oldest of several segments: either its log file could not be removed and nothing
  has changed, or the store holds the rest of the log.
\<close>

lemma delete_ok:
  assumes repr: "store_repr s d (bs # bss)" and more: "length (segments s) > 1"
    and del: "deleteSegmentAtIndex 0 s d = (r, s', d')"
  obtains (kept) "r \<noteq> None" "s' = s" "files d' = files d" "faults d \<noteq> []"
  | (deleted) "store_repr s' d' bss" "segments s' = tl (segments s)" "logEndOffset s' = logEndOffset s"
      "config s' = config s" "touches (seg_files [hd (segments s)]) d d'" "faults d = [] \<longrightarrow> r = None"
proof -
  let ?g = "hd (segments s)"
  have g: "segments s \<noteq> []" "segments s ! 0 = ?g" "?g \<in> set (segments s)" "activeSegment s = length (segments s) - 1"
    "tl (segments s) \<noteq> []"
    using more repr by (cases "segments s"; simp add: store_repr_def)+
  note nm = store_repr_names [OF repr g(3)]
  obtain r1 d1 where e1: "sys_remove (path ?g) d = (r1, d1)" by fastforce
  obtain r2 d2 where e2: "sys_remove (indexPath ?g) d1 = (r2, d2)" by fastforce
  obtain r3 g3 d3 where e3: "SegClose ?g d2 = (r3, g3, d3)" by (metis surj_pair)
  obtain r4 d4 where e4: "syncDirectory d3 = (r4, d4)" by fastforce
  note F1 = sys_remove_facts [OF e1] and F2 = sys_remove_facts [OF e2] and F4 = syncDirectory_facts [OF e4]
  have T3: "touches P d2 d3" for P by (rule SegClose_touches [OF e3])
  show ?thesis
  proof (cases r1)
    case (Inl e)
    then show ?thesis using del F1(2,4) nm(5) by (intro kept) (auto simp: deleteSegmentAtIndex_def g(2) e1)
  next
    case (Inr u)
    have Inr: "r1 = Inr ()" using Inr by simp
    have T: "touches (seg_files [?g]) d d4"
      using F1(1) [OF Inr] F1(3) F2(1-3) T3 [of "{}"] F4 by (cases "r2 = Inr ()") (auto simp: touches_def seg_files_def)
    have "map_of (files d2) (path ?g) = None"
      using F1(1) [OF Inr] F2(1,2) by (cases "r2 = Inr ()") simp_all
    then have gone: "map_of (files d4) (path ?g) = None" using T3 [of "{}"] F4(1) by (simp add: touches_def)
    have fs: "faults d = [] \<longrightarrow> r4 = None \<and> r3 = None \<and> (\<forall>e. r2 = Inl e \<longrightarrow> e = ENOENT)"
      using F1(3) F2(3,4) T3 [of "{}"] F4(2) SegClose_faults [OF e3] by (auto simp: touches_def split: if_splits)
    have s': "d' = d4" "segments s' = tl (segments s)" "activeSegment s' = activeSegment s - 1" "config s' = config s"
      "closed s' = closed s" "writeFailed s' = writeFailed s" "logEndOffset s' = logEndOffset s"
      "earliestOffset s' = baseOffset (hd (tl (segments s)))" "faults d = [] \<longrightarrow> r = None"
      using del g more fs
      by (auto simp: deleteSegmentAtIndex_def g(2) e1 e2 e3 e4 Inr Let_def observe_def config_def join_err_def
          drop_Suc split: sum.splits if_splits)
    have "store_repr s' d4 bss"
      using T gone s' by (intro store_repr_tl [OF repr more]) (simp_all add: seg_files_def)
    then show ?thesis using s' T by (intro deleted) simp_all
  qed
qed

section \<open>The loops\<close>

text \<open>The store lost its first \<open>k\<close> segments and nothing else.\<close>

definition trimmed :: "nat \<Rightarrow> store \<Rightarrow> disk \<Rightarrow> batch list list \<Rightarrow> store \<Rightarrow> disk \<Rightarrow> bool" where
  "trimmed k s d bss s' d' \<longleftrightarrow>
     k < length bss \<and> store_repr s' d' (drop k bss) \<and> segments s' = drop k (segments s) \<and>
     logEndOffset s' = logEndOffset s \<and> config s' = config s \<and> touches (seg_files (take k (segments s))) d d'"

lemma trimmed_0:
  assumes "store_repr s d bss" "files d' = files d" "faults d = [] \<Longrightarrow> faults d' = []"
  shows "trimmed 0 s d bss s d'"
proof -
  have "bss \<noteq> []" using assms(1) by (auto simp: store_repr_def)
  moreover have "touches {} d d'" by (rule touches_files [OF assms(2,3)])
  ultimately show ?thesis using assms(1) store_repr_files [OF assms(2)] by (simp add: trimmed_def seg_files_def)
qed

lemma trimmed_Suc:
  assumes "segments s1 = tl (segments s)" "logEndOffset s1 = logEndOffset s" "config s1 = config s"
    "touches (seg_files [hd (segments s)]) d d1" "segments s \<noteq> []" "trimmed k s1 d1 bss s' d'"
  shows "trimmed (Suc k) s d (bs # bss) s' d'"
proof -
  have "touches (seg_files (take (Suc k) (segments s))) d d'"
    using assms by (intro touches_trans [OF assms(4), of "seg_files (take k (segments s1))"])
      (cases "segments s"; auto simp: trimmed_def seg_files_def)+
  then show ?thesis using assms by (cases "segments s") (auto simp: trimmed_def)
qed

definition expired :: "int \<Rightarrow> batch list \<Rightarrow> bool" where
  "expired cutoff bs \<longleftrightarrow> sint (max_timestamp (concat bs)) \<le> cutoff"

lemma store_repr_oldest:
  assumes "store_repr s d (bs # bss)"
  shows "maxTimestamp (hd (segments s)) = max_timestamp (concat bs)" "segments s \<noteq> []"
    "length (segments s) = Suc (length bss)" "activeSegment s = length bss"
proof -
  have all: "list_all2 (seg_repr (maxBatchBytes s) d) (segments s) (bs # bss)" "activeSegment s = length (segments s) - 1"
    using assms by (simp_all add: store_repr_def)
  then obtain g gs where gs: "segments s = g # gs" "seg_repr (maxBatchBytes s) d g bs" by (auto simp: list_all2_Cons2)
  show len: "length (segments s) = Suc (length bss)" using list_all2_lengthD [OF all(1)] by simp
  then show "activeSegment s = length bss" using all(2) by simp
  show "maxTimestamp (hd (segments s)) = max_timestamp (concat bs)" "segments s \<noteq> []"
    using gs by (simp_all add: seg_repr_def)
qed

lemma age_loop_ok:
  assumes "store_repr s d bss" "age_loop cutoff s d = (r, s', d')"
  shows "\<exists>k. trimmed k s d bss s' d' \<and> (\<forall>i < k. expired cutoff (bss ! i)) \<and>
    (r = None \<longrightarrow> Suc k = length bss \<or> \<not> expired cutoff (bss ! k)) \<and> (faults d = [] \<longrightarrow> r = None)"
  using assms
proof (induction bss arbitrary: s d)
  case Nil
  then show ?case by (auto simp: store_repr_def)
next
  case (Cons bs bss)
  note O = store_repr_oldest [OF Cons.prems(1)]
  show ?case
  proof (cases "bss = [] \<or> \<not> expired cutoff bs")
    case True
    then have "age_loop cutoff s d = (None, s, d)" using O by (subst age_loop.simps) (auto simp: expired_def)
    then show ?thesis using Cons.prems True trimmed_0 [OF Cons.prems(1)] by (intro exI [of _ 0]) auto
  next
    case False
    then have more: "length (segments s) > 1" using O by (cases bss) auto
    obtain r1 s1 d1 where del: "deleteSegmentAtIndex 0 s d = (r1, s1, d1)" by (metis surj_pair)
    have eq: "age_loop cutoff s d = (case r1 of Some e \<Rightarrow> (Some e, s1, d1) | None \<Rightarrow> age_loop cutoff s1 d1)"
      using False more O by (subst age_loop.simps) (simp add: del expired_def split: option.splits)
    from Cons.prems(1) more del show ?thesis
    proof (cases rule: delete_ok)
      case kept
      have "trimmed 0 s d (bs # bss) s d1" using trimmed_0 [OF Cons.prems(1) kept(3)] kept(4) by blast
      moreover have "r = r1" "s' = s" "d' = d1" using kept Cons.prems(2) eq by auto
      ultimately show ?thesis using kept by (intro exI [of _ 0]) auto
    next
      case deleted
      note suc = trimmed_Suc [OF deleted(2-5) O(2)]
      show ?thesis
      proof (cases r1)
        case (Some e)
        then have eqs: "s' = s1" "d' = d1" "r = Some e" using eq Cons.prems(2) by auto
        have "trimmed 0 s1 d1 bss s1 d1" by (rule trimmed_0 [OF deleted(1)]) simp_all
        from suc [OF this] show ?thesis using False deleted(6) Some eqs by (intro exI [of _ 1]) simp
      next
        case None
        then have "age_loop cutoff s1 d1 = (r, s', d')" using eq Cons.prems(2) by simp
        from Cons.IH [OF deleted(1) this] obtain k where k: "trimmed k s1 d1 bss s' d'"
          "\<forall>i < k. expired cutoff (bss ! i)" "r = None \<longrightarrow> Suc k = length bss \<or> \<not> expired cutoff (bss ! k)"
          "faults d1 = [] \<longrightarrow> r = None" by blast
        have "\<forall>i < Suc k. expired cutoff ((bs # bss) ! i)" using k(2) False by (auto simp: less_Suc_eq_0_disj)
        then show ?thesis
          using suc [OF k(1)] k(3,4) deleted(5) by (intro exI [of _ "Suc k"]) (auto simp: touches_def)
      qed
    qed
  qed
qed

definition total_size :: "disk \<Rightarrow> segment list \<Rightarrow> nat" where
  "total_size d gs = sum_list (map (\<lambda>g. length (content d (path g)) + length (content d (indexPath g))) gs)"

lemma total_bytes_facts:
  assumes "total_bytes gs acc d = (r, d')"
  shows "files d' = files d" "faults d = [] \<Longrightarrow> faults d' = []" "r = Inr n \<Longrightarrow> n = acc + of_nat (total_size d gs)"
proof -
  have "files d' = files d \<and> (faults d = [] \<longrightarrow> faults d' = []) \<and> (\<forall>n. r = Inr n \<longrightarrow> n = acc + of_nat (total_size d gs))"
    using assms
  proof (induction gs arbitrary: acc d)
    case (Cons g gs)
    obtain r1 d1 where e1: "sys_stat (path g) d = (r1, d1)" by fastforce
    obtain r2 d2 where e2: "sys_stat (indexPath g) d1 = (r2, d2)" by fastforce
    note F1 = sys_stat_facts [OF e1] and F2 = sys_stat_facts [OF e2]
    show ?case
    proof (cases "\<exists>a b. r1 = Inr a \<and> r2 = Inr b")
      case True
      then obtain a b where ab: "r1 = Inr a" "r2 = Inr b" by blast
      then have "total_bytes gs (acc + of_nat (a + b)) d2 = (r, d')" using Cons.prems by (simp add: e1 e2)
      from Cons.IH [OF this] F1(1,3) F2(1,3) F1(5) [OF ab(1)] F2(5) [OF ab(2)] content_cong [OF F1(1)] content_cong [OF F2(1)]
      show ?thesis by (simp add: total_size_def algebra_simps)
    next
      case False
      then show ?thesis using Cons.prems F1(1,3) F2(1,3) by (auto simp: e1 e2 split: sum.splits)
    qed
  qed (auto simp: total_size_def)
  then show "files d' = files d" "faults d = [] \<Longrightarrow> faults d' = []" "r = Inr n \<Longrightarrow> n = acc + of_nat (total_size d gs)"
    by blast+
qed

text \<open>The files of the segments that stay are not touched, so their total is the one before.\<close>

lemma total_size_touches:
  assumes "touches P d d'" "P \<inter> seg_files gs = {}"
  shows "total_size d' gs = total_size d gs"
proof -
  have "content d' (path g) = content d (path g) \<and> content d' (indexPath g) = content d (indexPath g)" if "g \<in> set gs" for g
    using touches_content [OF assms(1)] assms(2) that by (auto simp: seg_files_def)
  then show ?thesis unfolding total_size_def by (metis (mono_tags, lifting) map_eq_conv)
qed

lemma seg_files_disjoint:
  assumes "store_repr s d bss"
  shows "seg_files (take k (segments s)) \<inter> seg_files (drop k (segments s)) = {}"
proof -
  have "sorted_wrt (\<lambda>a b. baseOffset a < baseOffset b) (take k (segments s) @ drop k (segments s))"
    using store_repr_bases [OF assms] by simp
  then have lt: "baseOffset g < baseOffset x" if "g \<in> set (take k (segments s))" "x \<in> set (drop k (segments s))" for g x
    using that unfolding sorted_wrt_append by blast
  have False if q: "q \<in> seg_files (take k (segments s))" "q \<in> seg_files (drop k (segments s))" for q
  proof -
    obtain g x where gx: "g \<in> set (take k (segments s))" "q \<in> {path g, indexPath g}"
      "x \<in> set (drop k (segments s))" "q \<in> {path x, indexPath x}"
      using q unfolding seg_files_def by blast
    have "g \<in> set (segments s)" "x \<in> set (segments s)" using gx(1,3) by (auto dest: in_set_takeD in_set_dropD)
    then have "path g = log_name (baseOffset g)" "indexPath g = index_name (baseOffset g)"
      "path x = log_name (baseOffset x)" "indexPath x = index_name (baseOffset x)"
      by (simp_all only: store_repr_names(1,2) [OF assms])
    then show False using lt [OF gx(1,3)] gx(2,4) by auto
  qed
  then show ?thesis by blast
qed

lemma seg_files_disjoint_tl:
  "store_repr s d bss \<Longrightarrow> seg_files [hd (segments s)] \<inter> seg_files (tl (segments s)) = {}"
  using seg_files_disjoint [of s d bss 1] by (cases "segments s") (simp_all add: seg_files_def)

definition too_big :: "u64 \<Rightarrow> disk \<Rightarrow> segment list \<Rightarrow> bool" where
  "too_big maxBytes d gs \<longleftrightarrow> of_nat (total_size d gs) > maxBytes"

lemma size_loop_ok:
  assumes "store_repr s d bss" "size_loop mb s d = (r, s', d')"
  shows "\<exists>k. trimmed k s d bss s' d' \<and> (\<forall>i < k. too_big mb d (drop i (segments s))) \<and>
    (r = None \<longrightarrow> Suc k = length bss \<or> \<not> too_big mb d (drop k (segments s)))"
  using assms
proof (induction bss arbitrary: s d)
  case Nil
  then show ?case by (auto simp: store_repr_def)
next
  case (Cons bs bss)
  note O = store_repr_oldest [OF Cons.prems(1)]
  obtain r0 d0 where tb: "calculateTotalBytes s d = (r0, d0)" by fastforce
  note B = total_bytes_facts [OF tb [unfolded calculateTotalBytes_def]]
  have t0: "trimmed 0 s d (bs # bss) s d0" by (rule trimmed_0 [OF Cons.prems(1) B(1,2)])
  have big: "n > mb \<longleftrightarrow> too_big mb d (segments s)" if "r0 = Inr n" for n using B(3) [OF that] by (simp add: too_big_def)
  consider (one) "bss = []" | (err) e where "bss \<noteq> []" "r0 = Inl e" | (small) n where "bss \<noteq> []" "r0 = Inr n" "\<not> n > mb"
    | (del) n where "bss \<noteq> []" "r0 = Inr n" "n > mb" by (cases r0) auto
  then show ?case
  proof cases
    case one
    then have "size_loop mb s d = (None, s, d)" using O by (subst size_loop.simps) simp
    moreover have "trimmed 0 s d (bs # bss) s d" by (rule trimmed_0 [OF Cons.prems(1)]) simp_all
    ultimately show ?thesis using Cons.prems(2) one by (intro exI [of _ 0]) simp
  next
    case err
    then have "size_loop mb s d = (Some e, s, d0)" using O by (subst size_loop.simps) (simp add: tb)
    then show ?thesis using Cons.prems(2) t0 by (intro exI [of _ 0]) simp
  next
    case small
    then have "size_loop mb s d = (None, s, d0)" using O by (subst size_loop.simps) (simp add: tb not_less)
    then show ?thesis using Cons.prems(2) t0 small big by (intro exI [of _ 0]) simp
  next
    case del
    have more: "length (segments s) > 1" using O del(1) by (cases bss) auto
    have repr0: "store_repr s d0 (bs # bss)" using Cons.prems(1) store_repr_files [OF B(1)] by simp
    obtain r1 s1 d1 where dl: "deleteSegmentAtIndex 0 s d0 = (r1, s1, d1)" by (metis surj_pair)
    have gt: "\<not> n \<le> mb" using del(3) by simp
    have eq: "size_loop mb s d = (case r1 of Some e \<Rightarrow> (Some e, s1, d1) | None \<Rightarrow> size_loop mb s1 d1)"
      using del(2) gt more O(4) del(1) by (subst size_loop.simps) (simp add: dl tb split: option.splits)
    have b0: "too_big mb d (segments s)" using big [OF del(2)] del(3) by blast
    from repr0 more dl show ?thesis
    proof (cases rule: delete_ok)
      case kept
      have "faults d \<noteq> []" "files d1 = files d" using kept(3,4) B(1,2) by auto
      then have "trimmed 0 s d (bs # bss) s d1" by (intro trimmed_0 [OF Cons.prems(1)]) simp_all
      moreover have "r = r1" "s' = s" "d' = d1" using kept Cons.prems(2) eq by auto
      ultimately show ?thesis using kept by (intro exI [of _ 0]) auto
    next
      case deleted
      have td: "touches (seg_files [hd (segments s)]) d d1"
        by (rule touches_step [OF touches_files [OF B(1,2)] deleted(5)])
      note suc = trimmed_Suc [OF deleted(2-4) td O(2)]
      show ?thesis
      proof (cases r1)
        case (Some e)
        then have eqs: "s' = s1" "d' = d1" "r = Some e" using eq Cons.prems(2) by auto
        have "trimmed 0 s1 d1 bss s1 d1" by (rule trimmed_0 [OF deleted(1)]) simp_all
        from suc [OF this] show ?thesis using b0 eqs by (intro exI [of _ 1]) simp
      next
        case None
        then have "size_loop mb s1 d1 = (r, s', d')" using eq Cons.prems(2) by simp
        from Cons.IH [OF deleted(1) this] obtain k where k: "trimmed k s1 d1 bss s' d'"
          "\<forall>i < k. too_big mb d1 (drop i (segments s1))" "r = None \<longrightarrow> Suc k = length bss \<or> \<not> too_big mb d1 (drop k (segments s1))"
          by blast
        have same: "too_big mb d1 (drop i (segments s1)) \<longleftrightarrow> too_big mb d (drop (Suc i) (segments s))" for i
        proof -
          have "seg_files (drop i (tl (segments s))) \<subseteq> seg_files (tl (segments s))"
            by (auto simp: seg_files_def dest: in_set_dropD)
          then have "total_size d1 (drop i (tl (segments s))) = total_size d (drop i (tl (segments s)))"
            using seg_files_disjoint_tl [OF Cons.prems(1)] by (intro total_size_touches [OF td]) blast
          then show ?thesis by (simp add: too_big_def deleted(2) drop_Suc)
        qed
        have "\<forall>i < Suc k. too_big mb d (drop i (segments s))"
          using k(2) b0 unfolding same by (metis drop0 less_Suc_eq_0_disj)
        then show ?thesis using suc [OF k(1)] k(3) unfolding same by (intro exI [of _ "Suc k"]) simp
      qed
    qed
  qed
qed

lemma trimmed_trans:
  assumes "trimmed k s d bss s1 d1" "trimmed j s1 d1 (drop k bss) s' d'"
  shows "trimmed (k + j) s d bss s' d'"
proof -
  have "touches (seg_files (take (k + j) (segments s))) d d'"
  proof (rule touches_trans)
    show "touches (seg_files (take k (segments s))) d d1" "touches (seg_files (take j (segments s1))) d1 d'"
      using assms by (simp_all add: trimmed_def)
    show "seg_files (take k (segments s)) \<union> seg_files (take j (segments s1)) \<subseteq> seg_files (take (k + j) (segments s))"
      using assms(1) by (auto simp: trimmed_def seg_files_def take_add)
  qed
  moreover have "k + j < length bss" using assms(2) by (auto simp: trimmed_def)
  ultimately show ?thesis using assms by (simp add: trimmed_def add.commute)
qed

lemma trimmed_total:
  assumes "store_repr s d bss" "trimmed k s d bss s1 d1"
  shows "too_big mb d1 (drop i (segments s1)) \<longleftrightarrow> too_big mb d (drop (k + i) (segments s))"
proof -
  have "seg_files (drop i (drop k (segments s))) \<subseteq> seg_files (drop k (segments s))"
    unfolding seg_files_def by (rule UN_mono [OF set_drop_subset order_refl])
  then have dis: "seg_files (take k (segments s)) \<inter> seg_files (drop i (drop k (segments s))) = {}"
    using seg_files_disjoint [OF assms(1), of k] by blast
  have t: "touches (seg_files (take k (segments s))) d d1" "segments s1 = drop k (segments s)"
    using assms(2) by (simp_all add: trimmed_def)
  show ?thesis using total_size_touches [OF t(1) dis] by (simp add: too_big_def t(2) add.commute)
qed

text \<open>
  The whole operation: the log loses \<open>k\<close> segments at its start, the first \<open>j\<close> of them because they
  are expired and the others because the partition is above the limit.
\<close>

lemma ApplyRetention_ok:
  assumes repr: "store_repr s d bss" and ret: "ApplyRetention now maxAge mb s d = (r, s', d')"
  shows "\<exists>j k. j \<le> k \<and> trimmed k s d bss s' d' \<and>
    (\<forall>i < j. expired (cutoff_of now maxAge) (bss ! i)) \<and> (\<forall>i. j \<le> i \<and> i < k \<longrightarrow> too_big mb d (drop i (segments s))) \<and>
    (r = None \<longrightarrow> (Suc j = length bss \<or> \<not> expired (cutoff_of now maxAge) (bss ! j)) \<and>
       (Suc k = length bss \<or> \<not> too_big mb d (drop k (segments s))))"
proof -
  obtain r1 s1 d1 where e1: "age_loop (cutoff_of now maxAge) s d = (r1, s1, d1)" by (metis surj_pair)
  obtain r2 s2 d2 where e2: "size_loop mb s1 d1 = (r2, s2, d2)" by (metis surj_pair)
  obtain j where j: "trimmed j s d bss s1 d1" "\<forall>i < j. expired (cutoff_of now maxAge) (bss ! i)"
    "r1 = None \<longrightarrow> Suc j = length bss \<or> \<not> expired (cutoff_of now maxAge) (bss ! j)"
    using age_loop_ok [OF repr e1] by blast
  have "store_repr s1 d1 (drop j bss)" using j(1) by (simp add: trimmed_def)
  from size_loop_ok [OF this e2] obtain m where m: "trimmed m s1 d1 (drop j bss) s2 d2"
    "\<forall>i < m. too_big mb d1 (drop i (segments s1))"
    "r2 = None \<longrightarrow> Suc m = length (drop j bss) \<or> \<not> too_big mb d1 (drop m (segments s1))" by blast
  note tot = trimmed_total [OF repr j(1)]
  have fin: "r = join_err r1 r2" "s' = updateGaugesLocked s2" "d' = d2"
    using ret repr by (auto simp: ApplyRetention_def e1 e2 store_repr_def)
  have t: "trimmed (j + m) s d bss s' d'"
    using trimmed_trans [OF j(1) m(1)] unfolding fin by (simp add: trimmed_def updateGaugesLocked_def)
  have big: "\<forall>i. j \<le> i \<and> i < j + m \<longrightarrow> too_big mb d (drop i (segments s))"
  proof (intro allI impI)
    fix i assume "j \<le> i \<and> i < j + m"
    then have "i - j < m" "j + (i - j) = i" by auto
    then show "too_big mb d (drop i (segments s))" using m(2) tot [of mb "i - j"] by simp
  qed
  have "r = None \<longrightarrow> (Suc j = length bss \<or> \<not> expired (cutoff_of now maxAge) (bss ! j)) \<and>
       (Suc (j + m) = length bss \<or> \<not> too_big mb d (drop (j + m) (segments s)))"
  proof (intro impI conjI)
    assume "r = None"
    then have rs: "r1 = None" "r2 = None" by (simp_all add: fin(1) join_err_def split: option.splits)
    show "Suc j = length bss \<or> \<not> expired (cutoff_of now maxAge) (bss ! j)" using j(3) rs(1) by blast
    have "Suc m = length (drop j bss) \<longrightarrow> Suc (j + m) = length bss" using j(1) by (auto simp: trimmed_def)
    then show "Suc (j + m) = length bss \<or> \<not> too_big mb d (drop (j + m) (segments s))" using m(3) rs(2) tot [of mb m] by blast
  qed
  then show ?thesis using t j(2) big by (intro exI [of _ j] exI [of _ "j + m"]) simp
qed

end
