(* ===== verification/Log_Crash.thy ===== *)
theory Log_Crash
  imports Log_Retention
begin

text \<open>
  Crashes and restarts: what an interrupted \<open>Append\<close> leaves in the directory, what a loss of power
  leaves of data that was not flushed, and what \<^verbatim>\<open>OpenStore\<close> makes of it. A process that dies
  between or inside two system calls is the case where all later calls fail.
\<close>

section \<open>The log files of a directory\<close>

text \<open>\<open>dir_segs\<close> without its condition on the index files.\<close>

definition seg_log :: "int \<Rightarrow> disk \<Rightarrow> u64 \<Rightarrow> batch list \<Rightarrow> bytes \<Rightarrow> u64 \<Rightarrow> bool" where
  "seg_log mb d base bs t fin \<longleftrightarrow>
     map_of (files d) (log_name base) = Some (log_bytes bs @ t) \<and> chain (unat base) bs (unat fin) \<and> fits mb bs \<and>
     length (log_bytes bs @ t) < 2 ^ 63"

fun closed_logs :: "int \<Rightarrow> disk \<Rightarrow> (u64 \<times> batch list) list \<Rightarrow> u64 \<Rightarrow> bool" where
  "closed_logs mb d [] nx = True"
| "closed_logs mb d ((base, bs) # segs) nx =
     (bs \<noteq> [] \<and> seg_log mb d base bs [] (case segs of [] \<Rightarrow> nx | (b, _) # _ \<Rightarrow> b) \<and> closed_logs mb d segs nx)"

definition disk_log :: "int \<Rightarrow> disk \<Rightarrow> (u64 \<times> batch list) list \<Rightarrow> bytes \<Rightarrow> u64 \<Rightarrow> bool" where
  "disk_log mb d segs t fin \<longleftrightarrow>
     segs \<noteq> [] \<and> closed_logs mb d (butlast segs) (fst (last segs)) \<and>
     seg_log mb d (fst (last segs)) (snd (last segs)) t fin \<and> (t = [] \<or> torn mb t) \<and>
     (\<forall>b. map_of (files d) (log_name b) \<noteq> None \<longleftrightarrow> b \<in> fst ` set segs)"

lemma dir_segs_logs:
  assumes "closed_logs mb d xs base" "seg_log mb d base bs t fin"
    "\<forall>(b, bs) \<in> set (xs @ [(base, bs)]). index_honest b bs (content d (index_name b))"
  shows "dir_segs mb d (xs @ [(base, bs)]) t fin"
  using assms
proof (induction xs)
  case Nil
  then show ?case by (simp add: seg_file_def seg_log_def)
next
  case (Cons x xs)
  obtain b cs where x: "x = (b, cs)" by fastforce
  obtain b' cs' ys where nx: "xs @ [(base, bs)] = (b', cs') # ys" "(case xs of [] \<Rightarrow> base | (b, _) # _ \<Rightarrow> b) = b'"
    by (cases xs) auto
  have "dir_segs mb d (xs @ [(base, bs)]) t fin" using Cons by (simp add: x)
  then show ?case using Cons.prems nx by (simp add: x seg_file_def seg_log_def)
qed

lemma disk_log_dir:
  assumes "disk_log mb d segs t fin" "\<forall>(b, bs) \<in> set segs. index_honest b bs (content d (index_name b))"
  shows "log_dir mb d segs t fin"
proof -
  have "segs = butlast segs @ [(fst (last segs), snd (last segs))]" using assms(1) by (simp add: disk_log_def)
  then have "dir_segs mb d segs t fin"
    using dir_segs_logs [of mb d "butlast segs" "fst (last segs)" "snd (last segs)" t fin] assms
    by (simp add: disk_log_def)
  then show ?thesis using assms(1) by (simp add: log_dir_def disk_log_def)
qed

lemma closed_logs_cong:
  assumes "closed_logs mb d xs nx" "\<forall>b \<in> fst ` set xs. map_of (files d') (log_name b) = map_of (files d) (log_name b)"
  shows "closed_logs mb d' xs nx"
  using assms by (induction mb d xs nx rule: closed_logs.induct) (auto simp: seg_log_def)

lemma disk_log_cong:
  assumes "disk_log mb d segs t fin" "\<forall>b. map_of (files d') (log_name b) = map_of (files d) (log_name b)"
  shows "disk_log mb d' segs t fin"
  using assms closed_logs_cong [of mb d "butlast segs" "fst (last segs)" d'] by (simp add: disk_log_def seg_log_def)

text \<open>The directory of a healthy store.\<close>

definition disk_segs :: "store \<Rightarrow> batch list list \<Rightarrow> (u64 \<times> batch list) list" where
  "disk_segs s bss = zip (map baseOffset (segments s)) bss"

lemma seg_repr_log: "seg_repr mb d g bs \<Longrightarrow> seg_log mb d (baseOffset g) bs [] (nextOffset g)"
  by (auto simp: seg_log_def seg_repr_def)

lemma closed_logs_segments:
  assumes "list_all2 (seg_repr mb d) gs bss" "linked (gs @ [g])" "\<forall>bs \<in> set bss. bs \<noteq> []"
  shows "closed_logs mb d (zip (map baseOffset gs) bss) (baseOffset g)"
  using assms
proof (induction gs bss rule: list_all2_induct)
  case (Cons x xs y ys)
  have nx: "(case zip (map baseOffset xs) ys of [] \<Rightarrow> baseOffset g | (b, _) # _ \<Rightarrow> b) = nextOffset x"
    using Cons.prems(1) Cons.hyps(2) by (cases xs; cases ys) (auto simp: linked_def)
  have "linked (xs @ [g])" using Cons.prems(1) by (cases xs) (auto simp: linked_def)
  then show ?case using Cons nx seg_repr_log [OF Cons.hyps(1)] by simp
qed simp

lemma store_repr_disk:
  assumes "store_repr s d bss"
  shows "disk_log (maxBatchBytes s) d (disk_segs s bss) [] (logEndOffset s)"
    "map snd (disk_segs s bss) = bss" "butlast (disk_segs s bss) = zip (map baseOffset (butlast (segments s))) (butlast bss)"
    "last (disk_segs s bss) = (baseOffset (active_seg s), last bss)" "disk_segs s bss \<noteq> []"
    "map fst (disk_segs s bss) = map baseOffset (segments s)" "fst (hd (disk_segs s bss)) = earliestOffset s"
proof -
  note l = store_repr_last [OF assms] and a = store_repr_active [OF assms]
  have len: "length (butlast (segments s)) = length (butlast bss)" by (rule list_all2_lengthD [OF l(3)])
  have "disk_segs s bss = zip (map baseOffset (butlast (segments s) @ [active_seg s])) (butlast bss @ [last bss])"
    using l(2) a(2) by (simp add: disk_segs_def)
  then have eq: "disk_segs s bss = zip (map baseOffset (butlast (segments s))) (butlast bss) @ [(baseOffset (active_seg s), last bss)]"
    using len by simp
  then show bl: "butlast (disk_segs s bss) = zip (map baseOffset (butlast (segments s))) (butlast bss)"
    "last (disk_segs s bss) = (baseOffset (active_seg s), last bss)" "disk_segs s bss \<noteq> []" by simp_all
  have all: "list_all2 (seg_repr (maxBatchBytes s) d) (segments s) bss" "linked (butlast (segments s) @ [active_seg s])"
    "\<forall>bs \<in> set (butlast bss). bs \<noteq> []" "no_strays d (segments s)"
    using assms a(2) by (auto simp: store_repr_def)
  show "map snd (disk_segs s bss) = bss" using list_all2_lengthD [OF all(1)] by (simp add: disk_segs_def)
  show bases: "map fst (disk_segs s bss) = map baseOffset (segments s)"
    using list_all2_lengthD [OF all(1)] by (simp add: disk_segs_def)
  have "segments s \<noteq> []" "earliestOffset s = baseOffset (hd (segments s))" using assms by (simp_all add: store_repr_def)
  then show "fst (hd (disk_segs s bss)) = earliestOffset s" using arg_cong [OF bases, of hd] bl(3) by (simp add: hd_map)
  have "fst ` set (disk_segs s bss) = baseOffset ` set (segments s)" using bases by (metis list.set_map)
  then have strays: "map_of (files d) (log_name b) \<noteq> None \<longleftrightarrow> b \<in> fst ` set (disk_segs s bss)" for b
    using all(4) store_repr_names(1,5) [OF assms] by (auto simp: no_strays_def)
  have "seg_log (maxBatchBytes s) d (baseOffset (active_seg s)) (last bss) [] (logEndOffset s)"
    using seg_repr_log [OF l(1)] l(5) by simp
  then show "disk_log (maxBatchBytes s) d (disk_segs s bss) [] (logEndOffset s)"
    using closed_logs_segments [OF l(3) all(2,3)] strays by (simp only: disk_log_def bl fst_conv snd_conv) simp
qed

section \<open>Logs without lookalikes\<close>

text \<open>
  The check of an index entry reads the magic bytes and the offset at its position. A batch is clean
  when the magic occurs only at its start; in a log of clean batches no index file, whatever is in
  it, passes the check with a wrong entry.
\<close>

definition clean :: "batch \<Rightarrow> bool" where
  "clean b \<longleftrightarrow> (\<forall>p \<in> {1..<length (batch_bytes b) - 3}. gslice (batch_bytes b) p (p + 4) \<noteq> MagicBytes)"

lemma batch_bytes_0: "batch_bytes b ! 0 = 0x50"
  by (simp add: batch_bytes_def frame_bytes_def MagicBytes_def)

lemma gslice_nth: "i < k \<Longrightarrow> p + k \<le> length c \<Longrightarrow> gslice c p (p + k) ! i = c ! (p + i)"
  by (simp add: gslice_def)

lemma gslice_append_left: "q \<le> length xs \<Longrightarrow> gslice (xs @ ys) p q = gslice xs p q"
  by (simp add: gslice_def)

lemma gslice_append_right: "length xs \<le> p \<Longrightarrow> gslice (xs @ ys) p q = gslice ys (p - length xs) (q - length xs)"
  by (simp add: gslice_def diff_diff_right)

lemma clean_magic:
  assumes "\<forall>b \<in> set bs. clean b" "p + 33 \<le> length (log_bytes bs)" "gslice (log_bytes bs) p (p + 4) = MagicBytes"
  shows "\<exists>xs b ys. bs = xs @ b # ys \<and> p = length (log_bytes xs)"
  using assms
proof (induction bs arbitrary: p)
  case (Cons b bs)
  let ?n = "length (batch_bytes b)"
  note n = length_batch_bytes_ge [of b]
  consider "p = 0" | (inside) "0 < p" "p + 4 \<le> ?n" | (straddle) "p < ?n" "?n < p + 4" | (after) "?n \<le> p" by linarith
  then show ?case
  proof cases
    case 1
    then show ?thesis by (intro exI [of _ "[]"] exI [of _ b] exI [of _ bs]) simp
  next
    case inside
    then have "gslice (batch_bytes b) p (p + 4) = MagicBytes" using Cons.prems(3) by (simp add: gslice_append_left)
    then show ?thesis using Cons.prems(1) inside by (auto simp: clean_def)
  next
    case straddle
    obtain c cs where bs: "bs = c # cs" using Cons.prems(2) straddle n by (cases bs) auto
    have "gslice (log_bytes (b # bs)) p (p + 4) ! (?n - p) = log_bytes (b # bs) ! (p + (?n - p))"
      using Cons.prems(2) straddle by (intro gslice_nth) auto
    also have "\<dots> = batch_bytes c ! 0"
      using straddle length_batch_bytes_ge [of c] by (auto simp: bs nth_append)
    finally have "MagicBytes ! (?n - p) = 0x50" using Cons.prems(3) batch_bytes_0 by simp
    moreover have "?n - p \<in> {1, 2, 3}" using straddle by auto
    ultimately show ?thesis by (auto simp: MagicBytes_def)
  next
    case after
    then have "gslice (log_bytes bs) (p - ?n) (p - ?n + 4) = MagicBytes" "p - ?n + 33 \<le> length (log_bytes bs)"
      using Cons.prems by (simp_all add: gslice_append_right)
    then obtain xs c ys where "bs = xs @ c # ys" "p - ?n = length (log_bytes xs)"
      using Cons.IH [of "p - ?n"] Cons.prems(1) by auto
    then show ?thesis using after by (intro exI [of _ "b # xs"] exI [of _ c] exI [of _ ys]) simp
  qed
qed simp

lemma clean_unforged:
  assumes "\<forall>b \<in> set bs. clean b" "chain (unat base) bs (unat (fin :: u64))"
  shows "unforged base bs"
  unfolding unforged_def
proof (intro allI impI)
  fix e assume "looks_like base (log_bytes bs) e"
  then have L: "unat (Position e) + 33 \<le> length (log_bytes bs)"
    "gslice (log_bytes bs) (unat (Position e)) (unat (Position e) + 4) = MagicBytes"
    "Uint64 (gslice (log_bytes bs) (unat (Position e) + 13) (unat (Position e) + 21)) = base + ucast (RelativeOffset e)"
    by (simp_all add: looks_like_def Let_def)
  from clean_magic [OF assms(1) L(1,2)] obtain xs b ys
    where bs: "bs = xs @ b # ys" and p: "unat (Position e) = length (log_bytes xs)" by blast
  have ch: "batch_at (unat base + length (concat xs)) b" "length (concat xs) < 2 ^ 64"
    using assms(2) chain_fin [OF assms(2)] unsigned_less [of fin, where 'a = nat] by (auto simp: bs chain_append)
  then have "srOffset (hd b) = base + of_nat (length (concat xs))"
    using batch_atD(2) [OF ch(1)] batch_atD(3) [OF ch(1), of 0] by (simp add: hd_conv_nth)
  moreover have "gslice (log_bytes bs) (unat (Position e) + 13) (unat (Position e) + 21) = gslice (batch_bytes b @ log_bytes ys) 13 21"
    by (simp add: bs p gslice_append_right)
  moreover have "gslice (batch_bytes b @ log_bytes ys) 13 21 = gslice (take 33 (batch_bytes b @ log_bytes ys)) 13 21"
    by (simp only: gslice_take [of 21 33, simplified])
  ultimately have "base + of_nat (length (concat xs)) = base + ucast (RelativeOffset e)"
    using L(3) batch_header_fields [OF batch_atD(1) [OF ch(1)], of "log_bytes ys"] by simp
  then have "unat (of_nat (length (concat xs)) :: u64) = unat (ucast (RelativeOffset e) :: u64)" by simp
  then have "unat (RelativeOffset e) = length (concat xs)" using ch(2) by (simp only: unat_of_nat_u64 unat_ucast_u64)
  then show "is_bound bs e" by (simp add: is_bound_def bs p bounds_append)
qed

section \<open>An interrupted append\<close>

lemma last_base_fresh:
  assumes "store_repr s d bss" "x \<in> set (butlast (disk_segs s bss))"
  shows "fst x \<noteq> baseOffset (active_seg s)"
proof -
  have "fst x \<in> set (map fst (zip (map baseOffset (butlast (segments s))) (butlast bss)))"
    using assms(2) unfolding store_repr_disk(3) [OF assms(1)] by force
  then have "fst x \<in> set (map baseOffset (butlast (segments s)))" using set_zip_leftD by fastforce
  then obtain g where g: "g \<in> set (butlast (segments s))" "fst x = baseOffset g" by auto
  have "sorted_wrt (\<lambda>a b. baseOffset a < baseOffset b) (butlast (segments s) @ [active_seg s])"
    using store_repr_bases [OF assms(1)] store_repr_active(2) [OF assms(1)] by simp
  then show ?thesis using g by (auto simp: sorted_wrt_append)
qed

text \<open>The active log file with bytes added at its end, a part of a batch or a whole one.\<close>

lemma disk_log_written:
  assumes repr: "store_repr s d bss" and n: "n \<le> length (batch_bytes b)"
    and b: "batch_at (unat (logEndOffset s)) b" "int (length (batch_bytes b)) \<le> maxBatchBytes s"
      "unat (logEndOffset s) + length b < 2 ^ 64" "segSize (active_seg s) + length (batch_bytes b) < 2 ^ 63"
    and d': "\<forall>q. map_of (files d') (log_name q) =
      ((map_of (files d))(path (active_seg s) \<mapsto> content d (path (active_seg s)) @ take n (batch_bytes b))) (log_name q)"
  shows "\<exists>segs t fin. disk_log (maxBatchBytes s) d' segs t fin \<and> map fst segs = map baseOffset (segments s) \<and>
    (map snd segs = bss \<and> n < length (batch_bytes b) \<or>
     map snd segs = butlast bss @ [last bss @ [b]] \<and> n = length (batch_bytes b))"
proof -
  note D = store_repr_disk [OF repr] and l = store_repr_last [OF repr]
  let ?segs = "disk_segs s bss" and ?base = "baseOffset (active_seg s)"
  have a: "path (active_seg s) = log_name ?base" using store_repr_names(1) [OF repr l(4)] .
  have L: "closed_logs (maxBatchBytes s) d (butlast ?segs) ?base"
    "seg_log (maxBatchBytes s) d ?base (last bss) [] (logEndOffset s)"
    "\<forall>b. map_of (files d) (log_name b) \<noteq> None \<longleftrightarrow> b \<in> fst ` set ?segs"
    using D(1) by (simp_all add: disk_log_def D(4))
  have cl: "closed_logs (maxBatchBytes s) d' (butlast ?segs) ?base"
    using last_base_fresh [OF repr] d' by (intro closed_logs_cong [OF L(1)]) (auto simp: a)
  have ct: "content d (log_name ?base) = log_bytes (last bss)" using L(2) by (simp add: seg_log_def content_def)
  have fl: "map_of (files d') (log_name ?base) = Some (log_bytes (last bss) @ take n (batch_bytes b))"
    using d' a ct by simp
  have bsz: "length (log_bytes (last bss)) + length (batch_bytes b) < 2 ^ 63" using b(4) seg_reprD(2) [OF l(1)] by simp
  have split: "?segs = butlast ?segs @ [(?base, last bss)]" using D(4,5) by (metis append_butlast_last_id)
  then have "set ?segs = set (butlast ?segs @ [(?base, last bss)])" by (rule arg_cong)
  then have bases: "fst ` set ?segs = fst ` set (butlast ?segs) \<union> {?base}" by simp
  have names: "map_of (files d') (log_name q) \<noteq> None \<longleftrightarrow> q \<in> fst ` set ?segs" for q
    using L(3) d' a bases by auto
  show ?thesis
  proof (cases "n < length (batch_bytes b)")
    case True
    let ?t = "take n (batch_bytes b)"
    have "torn (maxBatchBytes s) ?t"
      unfolding torn_def using True b(2) batch_atD(1) [OF b(1)]
      by (intro exI [of _ b] exI [of _ "drop n (batch_bytes b)"]) simp
    moreover have "seg_log (maxBatchBytes s) d' ?base (last bss) ?t (logEndOffset s)"
      using L(2) fl bsz n by (simp add: seg_log_def)
    ultimately have "disk_log (maxBatchBytes s) d' ?segs ?t (logEndOffset s)" using cl D(4,5) names by (simp add: disk_log_def)
    then show ?thesis using D(2,6) True by blast
  next
    case False
    then have n: "n = length (batch_bytes b)" using n by simp
    let ?fin = "logEndOffset s + of_nat (length b)" and ?new = "butlast ?segs @ [(?base, last bss @ [b])]"
    have fin: "unat ?fin = unat (logEndOffset s) + length b"
      using b(3) by (simp add: unat_word_ariths unat_of_nat take_bit_nat_eq_self)
    have "seg_log (maxBatchBytes s) d' ?base (last bss @ [b]) [] ?fin"
      using L(2) fl b(1,2) bsz chain_fin [of "unat ?base" "last bss" "unat (logEndOffset s)"]
      by (auto simp: seg_log_def n fin chain_append)
    moreover have "fst ` set ?new = fst ` set ?segs" using bases by simp
    ultimately have "disk_log (maxBatchBytes s) d' ?new [] ?fin" using cl names by (simp add: disk_log_def)
    moreover have "map snd ?new = butlast bss @ [last bss @ [b]]" using D(2) by (simp add: map_butlast)
    moreover have "map fst ?new = map baseOffset (segments s)"
      using D(6) arg_cong [OF split, of "map fst"] by simp
    ultimately show ?thesis using n by blast
  qed
qed

lemma append_index_logs:
  assumes "append_index s relative pos g d = (g', d')" "indexPath g = index_name base"
  shows "map_of (files d') (log_name q) = map_of (files d) (log_name q)"
proof -
  obtain r1 g1 d1 where ai: "AppendIndexEntry g \<lparr>RelativeOffset = ucast relative, Position = of_nat pos\<rparr> d = (r1, g1, d1)"
    by (metis surj_pair)
  have "map_of (files d1) (log_name q) = map_of (files d) (log_name q)"
    by (rule AppendIndexEntry_facts [OF ai]) (simp add: assms(2))
  then show ?thesis using assms(1) by (auto simp: append_index_def ai split: if_splits)
qed

lemma finish_append_files: "finish_append base lst s d = (r, s', d') \<Longrightarrow> files d' = files d"
proof -
  assume fin: "finish_append base lst s d = (r, s', d')"
  obtain r1 g1 d1 where fl: "Flush (active_seg s) d = (r1, g1, d1)" by (metis surj_pair)
  show ?thesis using fin Flush_facts(1) [OF fl] by (auto simp: finish_append_def fl split: if_splits option.splits)
qed

lemma append_active_logs:
  assumes repr: "store_repr s d bss" and app: "append_active ts count enc base s d = (r, s', d')"
  shows "\<exists>n \<le> length enc. (\<forall>q. map_of (files d') (log_name q) =
    ((map_of (files d))(path (active_seg s) \<mapsto> content d (path (active_seg s)) @ take n enc)) (log_name q)) \<and>
    ((\<exists>x. r = Inr x) \<longrightarrow> n = length enc)"
proof -
  let ?a = "active_seg s" and ?relative = "base - baseOffset (active_seg s)"
  note nm = store_repr_names [OF repr store_repr_last(4) [OF repr]]
  obtain r1 g1 d1 where sa: "SegAppend ?a enc d = (r1, g1, d1)" by (metis surj_pair)
  obtain n where n: "n \<le> length enc"
    "map_of (files d1) = (map_of (files d))(path ?a \<mapsto> content d (path ?a) @ take n enc)"
    "case r1 of Inl e \<Rightarrow> g1 = ?a | Inr pos \<Rightarrow> n = length enc \<and> pos = segSize ?a \<and> g1 = ?a\<lparr>segSize := segSize ?a + length enc\<rparr>"
    by (rule SegAppend_facts [OF sa nm(3,4)])
  show ?thesis
  proof (cases "unat ?relative > 2 ^ 32 - 1")
    case True
    have "map_of (files d) (path ?a) = Some (content d (path ?a))" using nm(5) by (auto simp: content_def)
    then show ?thesis using app True by (intro exI [of _ 0]) (auto simp: append_active_def)
  next
    case False
    show ?thesis
    proof (cases r1)
      case (Inl e)
      then show ?thesis using app False n by (intro exI [of _ n]) (auto simp: append_active_def sa Let_def)
    next
      case (Inr pos)
      define s1 where "s1 = s\<lparr>logEndOffset := base + of_nat count - 1 + 1\<rparr>"
      define g2 where "g2 = (if sint ts > sint (maxTimestamp g1) then g1\<lparr>maxTimestamp := ts\<rparr> else g1)\<lparr>nextOffset := logEndOffset s1\<rparr>"
      obtain g3 d3 where ai: "append_index s1 ?relative pos g2 d1 = (g3, d3)" by fastforce
      have "finish_append base (base + of_nat count - 1) (set_active g3 s1) d3 = (r, s', d')"
        using app False ai by (simp add: append_active_def sa Inr Let_def s1_def g2_def)
      then have "files d' = files d3" by (rule finish_append_files)
      moreover have "indexPath g2 = index_name (baseOffset ?a)" using n(3) nm(2) by (simp add: g2_def Inr)
      ultimately have "map_of (files d') (log_name q) = map_of (files d1) (log_name q)" for q
        using append_index_logs [OF ai] by simp
      then show ?thesis using n Inr by (intro exI [of _ n]) simp
    qed
  qed
qed

text \<open>A roll that fails leaves the log files as they were, at most with a new empty one.\<close>

lemma roll_failed_disk:
  assumes repr: "store_repr s d bss" and roll: "roll_segment n s d = (Some e, s', d')"
  shows "\<exists>segs. disk_log (maxBatchBytes s) d' segs [] (logEndOffset s) \<and> map snd segs \<in> {bss, bss @ [[]]} \<and>
    fst (hd segs) = earliestOffset s"
proof -
  note D = store_repr_disk [OF repr] and L = store_repr_last [OF repr]
  let ?segs = "disk_segs s bss" and ?nx = "logEndOffset s" and ?mb = "maxBatchBytes s"
  obtain r1 g1 d1 where fl: "Flush (active_seg s) d = (r1, g1, d1)" by (metis surj_pair)
  obtain r2 d2 where ns: "NewSegment ?nx True d1 = (r2, d2)" by fastforce
  note F = Flush_facts(1) [OF fl] and N = NewSegment_facts(3) [OF ns]
  have full: "segSize (active_seg s) > 0" using roll by (auto simp: roll_segment_def split: if_splits)
  note fresh = store_repr_end_fresh [OF repr full]
  have "files d' = files d \<or> d' = d2"
    using roll F by (auto simp: roll_segment_def fl ns Let_def set_active_def split: if_splits option.splits sum.splits)
  moreover have ?thesis if "files d' = files d"
    using disk_log_cong [OF D(1), of d'] that D(2,7) by auto
  moreover have ?thesis if "d' = d2" "map_of (files d2) (log_name ?nx) = map_of (files d) (log_name ?nx)"
  proof -
    have "map_of (files d') (log_name q) = map_of (files d) (log_name q)" for q
      using N [of "log_name q"] that F by (cases "q = ?nx") auto
    then show ?thesis using disk_log_cong [OF D(1), of d'] D(2,7) by auto
  qed
  moreover have ?thesis if "d' = d2" "map_of (files d2) (log_name ?nx) = Some []"
  proof -
    have other: "map_of (files d') (log_name q) = map_of (files d) (log_name q)" if "q \<noteq> ?nx" for q
      using N [of "log_name q"] \<open>d' = d2\<close> F that by auto
    have ne: "b \<noteq> ?nx" if "b \<in> fst ` set ?segs" for b using D(1) fresh(1) that by (metis disk_log_def)
    have sl: "seg_log ?mb d' (baseOffset (active_seg s)) (last bss) [] ?nx" "baseOffset (active_seg s) \<in> fst ` set ?segs"
      using D(1,4,5) ne other last_in_set [OF D(5)] by (force simp: disk_log_def seg_log_def)+
    have cl0: "closed_logs ?mb d (butlast ?segs) (baseOffset (active_seg s))" using D(1,4) by (simp add: disk_log_def)
    have cl: "closed_logs ?mb d' (butlast ?segs) (baseOffset (active_seg s))"
    proof (rule closed_logs_cong [OF cl0], rule ballI)
      fix b assume "b \<in> fst ` set (butlast ?segs)"
      then have "b \<noteq> ?nx" by (intro ne) (auto dest: in_set_butlastD)
      then show "map_of (files d') (log_name b) = map_of (files d) (log_name b)" by (rule other)
    qed
    have snoc: "closed_logs mb d (xs @ [(b, bs)]) nx" if "closed_logs mb d xs b" "bs \<noteq> []" "seg_log mb d b bs [] nx" for mb d xs b bs nx
      using that by (induction mb d xs b rule: closed_logs.induct) (auto split: list.splits)
    have "closed_logs ?mb d' (butlast ?segs @ [(baseOffset (active_seg s), last bss)]) ?nx" by (rule snoc [OF cl fresh(2) sl(1)])
    then have "closed_logs ?mb d' ?segs ?nx" using D(4,5) by (metis append_butlast_last_id)
    moreover have "seg_log ?mb d' ?nx [] [] ?nx" using that by (simp add: seg_log_def)
    moreover have "map_of (files d') (log_name q) \<noteq> None \<longleftrightarrow> q \<in> fst ` set (?segs @ [(?nx, [])])" for q
      using other [of q] D(1) that by (cases "q = ?nx") (auto simp: disk_log_def)
    ultimately have "disk_log ?mb d' (?segs @ [(?nx, [])]) [] ?nx" unfolding disk_log_def by simp
    then show ?thesis using D(2,5,7) by (intro exI [of _ "?segs @ [(?nx, [])]"]) simp
  qed
  ultimately show ?thesis using N [of "log_name ?nx"] F by auto
qed

text \<open>The batches a directory holds after an append, whatever happened to it.\<close>

definition grown :: "store \<Rightarrow> batch list list \<Rightarrow> batch \<Rightarrow> bool \<Rightarrow> batch list list \<Rightarrow> bool" where
  "grown s bss b acked bss' \<longleftrightarrow>
     (concat (concat bss') = concat (concat bss) @ b \<or> concat (concat bss') = concat (concat bss) \<and> \<not> acked) \<and>
     set (concat bss') \<subseteq> insert b (set (concat bss)) \<and>
     (\<forall>bs \<in> set bss'. bs \<in> set bss \<or> int (length (log_bytes bs)) \<le> max (segmentMaxBytes s) (maxBatchBytes s))"

lemma append_locked_disk:
  assumes repr: "store_repr s d bss" and recs: "recs \<noteq> []" and ts: "- (2 ^ 63) < sint ts"
    and room: "unat (logEndOffset s) + length recs < 2 ^ 64"
    and b: "b = stamp (logEndOffset s) ts recs" "int (length (batch_bytes b)) \<le> maxBatchBytes s"
    and app: "append_locked ts recs s d = (r, n, s', d')"
  shows "\<exists>segs t fin. disk_log (maxBatchBytes s) d' segs t fin \<and> grown s bss b (\<exists>x. r = Inr x) (map snd segs) \<and>
    fst (hd segs) = earliestOffset s"
proof -
  have lim: "maxBatchBytes s < 2 ^ 31" "segmentMaxBytes s < 2 ^ 63" "\<not> closed s" "\<not> writeFailed s"
    using repr by (auto simp: store_repr_def limits_ok_def)
  have enc: "encodable b" using stamp_encodable [OF recs _ ts] b lim(1) by simp
  have lenb: "length b = length recs" using b(1) by simp
  obtain r1 s1 d1 where roll: "roll_segment (length (batch_bytes b)) s d = (r1, s1, d1)" by (metis surj_pair)
  note R = roll_segment_ok [OF repr roll]
  have e: "EncodeBatch (stamp (logEndOffset s) ts recs) = Inr (batch_bytes b)"
    using EncodeBatch_batch_bytes recs b(1) by simp
  have eq: "append_locked ts recs s d = (case r1 of
       Some e \<Rightarrow> (Inl e, length (batch_bytes b), s1, d1)
     | None \<Rightarrow> let (r, s, d) = append_active ts (length recs) (batch_bytes b) (logEndOffset s) s1 d1
               in (r, length (batch_bytes b), s, d))"
    using b(2) lim(3,4) by (simp add: append_locked_def Let_def e roll split: option.splits)
  show ?thesis
  proof (cases r1)
    case (Some x)
    have "d' = d1" "r = Inl x" using app by (simp_all add: eq Some)
    moreover obtain segs where "disk_log (maxBatchBytes s) d1 segs [] (logEndOffset s)" "map snd segs \<in> {bss, bss @ [[]]}" "fst (hd segs) = earliestOffset s"
      using roll_failed_disk [OF repr roll [unfolded Some]] by blast
    moreover have "grown s bss b False bss'" if "bss' \<in> {bss, bss @ [[]]}" for bss' using that b(2) by (auto simp: grown_def)
    ultimately show ?thesis by auto
  next
    case None
    obtain bss1 where bss1: "store_repr s1 d1 bss1" "bss1 \<in> {bss, bss @ [[]]}"
      and fit: "segSize (active_seg s1) = 0 \<or> int (segSize (active_seg s1)) + int (length (batch_bytes b)) \<le> segmentMaxBytes s"
      using R(6) [OF None] by blast
    have app1: "append_active ts (length recs) (batch_bytes b) (logEndOffset s) s1 d1 = (r, s', d')"
      using app by (auto simp: eq None split: prod.splits)
    have same: "maxBatchBytes s1 = maxBatchBytes s" "logEndOffset s1 = logEndOffset s"
      using R(2,4) by (simp_all add: same_frame_def config_def)
    have size: "segSize (active_seg s1) + length (batch_bytes b) < 2 ^ 63" using fit b(2) lim(1,2) by auto
    have ba: "batch_at (unat (logEndOffset s1)) b" using stamp_batch_at enc b(1) same(2) by simp
    obtain k where k: "k \<le> length (batch_bytes b)" "(\<exists>x. r = Inr x) \<longrightarrow> k = length (batch_bytes b)"
      "\<forall>q. map_of (files d') (log_name q) = ((map_of (files d1))(path (active_seg s1) \<mapsto>
         content d1 (path (active_seg s1)) @ take k (batch_bytes b))) (log_name q)"
      using append_active_logs [OF bss1(1) app1] by blast
    obtain segs t fin where S: "disk_log (maxBatchBytes s) d' segs t fin" "map fst segs = map baseOffset (segments s1)" "map snd segs = bss1 \<and> k < length (batch_bytes b) \<or>
        map snd segs = butlast bss1 @ [last bss1 @ [b]] \<and> k = length (batch_bytes b)"
      using disk_log_written [OF bss1(1) k(1) ba _ _ size k(3)] b(2) room lenb same by auto
    have grow: "grown s bss b (\<exists>x. r = Inr x) bss1" if "k < length (batch_bytes b)"
      using that k(2) bss1(2) b(2) by (auto simp: grown_def)
    note l = store_repr_last [OF bss1(1)]
    have sz: "int (length (log_bytes (last bss1 @ [b]))) \<le> max (segmentMaxBytes s) (maxBatchBytes s)"
      using fit b(2) seg_reprD(2) [OF l(1)] by auto
    obtain xs y where xy: "bss1 = xs @ [y]" using l(2) by blast
    have sub: "set (concat (butlast bss1 @ [last bss1 @ [b]])) = insert b (set (concat bss1))"
      "concat (concat (butlast bss1 @ [last bss1 @ [b]])) = concat (concat bss1) @ b"
      by (auto simp: xy)
    have "x \<in> set bss \<or> x = []" if "x \<in> set (butlast bss1)" for x using that bss1(2) by (auto dest: in_set_butlastD)
    moreover have "int (length (log_bytes [])) \<le> max (segmentMaxBytes s) (maxBatchBytes s)" using b(2) by simp
    ultimately have "grown s bss b (\<exists>x. r = Inr x) (butlast bss1 @ [last bss1 @ [b]])"
      unfolding grown_def sub using bss1(2) sz by (auto dest: in_set_butlastD)
    moreover have "fst (hd segs) = earliestOffset s1" "earliestOffset s1 = earliestOffset s"
      using bss1(1) arg_cong [OF S(2), of hd] S(1) R(2) by (simp_all add: store_repr_def disk_log_def hd_map same_frame_def)
    ultimately show ?thesis using S(1,3) grow by metis
  qed
qed

section \<open>Restart\<close>

lemma closed_logs_chain: "closed_logs mb d xs nx \<Longrightarrow> (base, bs) \<in> set xs \<Longrightarrow> \<exists>fin :: u64. chain (unat base) bs (unat fin)"
  by (induction mb d xs nx rule: closed_logs.induct) (auto simp: seg_log_def)

lemma disk_log_chain:
  assumes "disk_log mb d segs t fin" "(base, bs) \<in> set segs"
  shows "\<exists>fin :: u64. chain (unat base) bs (unat fin)"
proof -
  have "segs = butlast segs @ [last segs]" using assms(1) by (simp add: disk_log_def)
  then have "(base, bs) \<in> set (butlast segs) \<or> (base, bs) = last segs"
    using assms(2) by (metis Un_iff empty_iff insert_iff list.set(1,2) set_append)
  then show ?thesis
  proof
    assume "(base, bs) \<in> set (butlast segs)"
    then show ?thesis using assms(1) closed_logs_chain by (auto simp: disk_log_def)
  next
    assume "(base, bs) = last segs"
    then have "fst (last segs) = base" "snd (last segs) = bs" by (metis fst_conv, metis snd_conv)
    then show ?thesis using assms(1) by (auto simp: disk_log_def seg_log_def)
  qed
qed

text \<open>
  A process that starts on such a directory, without failures, serves the whole batches in it. A
  record takes at least 24 bytes, so the bound on the files keeps the offsets of a segment within
  the 32 bits of an index entry.
\<close>

definition small :: "nat \<Rightarrow> batch list list \<Rightarrow> bool" where
  "small n bss \<longleftrightarrow> (\<forall>bs \<in> set bss. length (log_bytes bs) \<le> n)"

lemma disk_log_honest:
  assumes "disk_log mb d segs t fin" "\<forall>b \<in> set (concat (map snd segs)). clean b"
  shows "\<forall>(b, bs) \<in> set segs. index_honest b bs (content d (index_name b))"
proof (clarify)
  fix b bs assume m: "(b, bs) \<in> set segs"
  then obtain fin' where "chain (unat b) bs (unat (fin' :: u64))" using disk_log_chain [OF assms(1)] by blast
  moreover have "\<forall>x \<in> set bs. clean x" using assms(2) m by force
  ultimately show "index_honest b bs (content d (index_name b))" by (intro unforged_honest clean_unforged)
qed

lemma small_counts:
  assumes "small (24 * 2 ^ 32) (map snd segs)"
  shows "\<forall>(b, bs) \<in> set segs. length (concat bs) \<le> 2 ^ 32"
proof (clarify)
  fix b bs assume "(b, bs) \<in> set segs"
  then have "length (log_bytes bs) \<le> 24 * 2 ^ 32" using assms by (force simp: small_def)
  then show "length (concat bs) \<le> 2 ^ 32" using records_per_segment [of bs] by simp
qed

lemma reopen_ok:
  assumes dl: "disk_log batchMax d segs t fin" and clean: "\<forall>b \<in> set (concat (map snd segs)). clean b"
    and small: "small (24 * 2 ^ 32) (map snd segs)" and lims: "batchMax < 2 ^ 31" "segMax < 2 ^ 63"
    and op: "open_store segMax batchMax interval mode obs (restarted d) = (r, s, d')"
  shows "r = None \<and> store_repr s d' (map snd segs) \<and> logEndOffset s = fin \<and>
    earliestOffset s = fst (hd segs) \<and> config s = (segMax, batchMax, interval, to_lower mode) \<and> faults d' = []"
proof -
  have dl': "disk_log batchMax (restarted d) segs t fin" using disk_log_cong [OF dl] by (simp add: restarted_def)
  show ?thesis
    using open_store_ok [OF disk_log_dir [OF dl' disk_log_honest [OF dl' clean]] lims op] small_counts [OF small]
    by (simp add: restarted_def)
qed

section \<open>Loss of power\<close>

text \<open>
  What a loss of power may leave of a log file: its bytes up to some point that is not before what
  was flushed last. (The names of the files stay: the file systems the broker runs on write the
  directory entry with the first \<^verbatim>\<open>fsync\<close> of a new file.)
\<close>

definition power_cut :: "disk \<Rightarrow> disk \<Rightarrow> bool" where
  "power_cut d d' \<longleftrightarrow> (\<forall>b. cut_file (log_name b) d d')"

text \<open>A log file cut anywhere is some whole batches and a torn one.\<close>

lemma log_bytes_cut:
  assumes "\<forall>b \<in> set bs. encodable b" "fits mb bs" "n \<le> length (log_bytes bs)"
  shows "\<exists>xs ys t. bs = xs @ ys \<and> take n (log_bytes bs) = log_bytes xs @ t \<and> (t = [] \<or> torn mb t)"
  using assms
proof (induction bs arbitrary: n)
  case (Cons b bs)
  show ?case
  proof (cases "n < length (batch_bytes b)")
    case True
    have "torn mb (take n (batch_bytes b))"
      unfolding torn_def using Cons.prems(1,2) True
      by (intro exI [of _ b] exI [of _ "drop n (batch_bytes b)"]) simp
    then show ?thesis using True by (intro exI [of _ "[]"] exI [of _ "b # bs"] exI [of _ "take n (batch_bytes b)"]) simp
  next
    case False
    have "\<exists>xs ys t. bs = xs @ ys \<and> take (n - length (batch_bytes b)) (log_bytes bs) = log_bytes xs @ t \<and> (t = [] \<or> torn mb t)"
      using Cons.prems False by (intro Cons.IH) auto
    then obtain xs ys t where X: "bs = xs @ ys" "take (n - length (batch_bytes b)) (log_bytes bs) = log_bytes xs @ t" "t = [] \<or> torn mb t"
      by blast
    have "take n (log_bytes (b # bs)) = log_bytes (b # xs) @ t" using False X(2) by simp
    then show ?thesis using X(1,3) by (metis append_Cons)
  qed
qed simp

lemma chain_encodable: "chain off bs fin \<Longrightarrow> b \<in> set bs \<Longrightarrow> encodable b"
  by (induction off bs fin rule: chain.induct) (auto dest: batch_atD)

lemma power_cut_refl: "power_cut d d"
  by (auto simp: power_cut_def cut_file_def split: option.splits)

lemma power_cut_kept:
  assumes "power_cut d d'" "map_of (files d) (log_name b) = Some c"
    "c \<noteq> [] \<Longrightarrow> map_of (flushed d) (log_name b) = Some c"
  shows "map_of (files d') (log_name b) = Some c"
  using spec [OF assms(1) [unfolded power_cut_def cut_file_def], of b] assms(2,3) by (cases "c = []") auto

lemma power_cut_disk:
  assumes repr: "store_repr s d bss" and cut: "power_cut d d'" and dur: "closed_durable s d"
  shows "\<exists>segs t fin xs ys. disk_log (maxBatchBytes s) d' segs t fin \<and> map snd segs = butlast bss @ [xs] \<and>
    last bss = xs @ ys \<and> (durable s d \<longrightarrow> ys = []) \<and> fst (hd segs) = earliestOffset s"
proof -
  note D = store_repr_disk [OF repr] and l = store_repr_last [OF repr] and a = store_repr_active [OF repr]
  let ?segs = "disk_segs s bss" and ?base = "baseOffset (active_seg s)" and ?mb = "maxBatchBytes s"
  have L: "closed_logs ?mb d (butlast ?segs) ?base" "seg_log ?mb d ?base (last bss) [] (logEndOffset s)"
    "\<forall>b. map_of (files d) (log_name b) \<noteq> None \<longleftrightarrow> b \<in> fst ` set ?segs"
    using D(1) by (simp_all add: disk_log_def D(4))
  have nm: "path g = log_name (baseOffset g)" "map_of (files d) (log_name (baseOffset g)) = Some (content d (path g))"
    "segSize g = length (content d (path g))" if "g \<in> set (segments s)" for g
    using store_repr_names [OF repr that] by (auto simp: content_def)
  have keep: "map_of (files d') (log_name (baseOffset g)) = map_of (files d) (log_name (baseOffset g))"
    if "g \<in> set (segments s)" "segSize g > 0 \<longrightarrow> map_of (flushed d) (path g) = Some (content d (path g))" for g
    using power_cut_kept [OF cut nm(2) [OF that(1)]] nm [OF that(1)] that(2) by auto
  have cl: "closed_logs ?mb d' (butlast ?segs) ?base"
  proof (rule closed_logs_cong [OF L(1)], rule ballI)
    fix b assume "b \<in> fst ` set (butlast ?segs)"
    then have "b \<in> baseOffset ` set (butlast (segments s))"
      unfolding D(3) using set_zip_leftD by fastforce
    then obtain g where g: "g \<in> set (butlast (segments s))" "b = baseOffset g" by auto
    then show "map_of (files d') (log_name b) = map_of (files d) (log_name b)"
      using keep [of g] dur by (auto simp: closed_durable_def dest: in_set_butlastD)
  qed
  have enc: "\<forall>b \<in> set (last bss). encodable b" "fits ?mb (last bss)" "content d (log_name ?base) = log_bytes (last bss)"
    "map_of (files d) (log_name ?base) = Some (log_bytes (last bss))" "length (log_bytes (last bss)) < 2 ^ 63"
    using L(2) chain_encodable by (auto simp: seg_log_def content_def)
  obtain n where n: "n \<le> length (log_bytes (last bss))" "map_of (files d') (log_name ?base) = Some (take n (log_bytes (last bss)))"
    using spec [OF cut [unfolded power_cut_def cut_file_def], of ?base] enc(4) by auto
  have dn: "n = length (log_bytes (last bss))" if "durable s d"
    using keep [OF l(4)] that l(4) n enc(4) by (auto simp: durable_def)
  obtain xs ys t where X: "last bss = xs @ ys" "take n (log_bytes (last bss)) = log_bytes xs @ t" "t = [] \<or> torn ?mb t"
    "durable s d \<longrightarrow> ys = []"
  proof (cases "n = length (log_bytes (last bss))")
    case True
    then show ?thesis by (intro that [of "last bss" "[]" "[]"]) simp_all
  next
    case False
    then show ?thesis using log_bytes_cut [OF enc(1,2) n(1)] dn that by blast
  qed
  let ?fin = "?base + of_nat (length (concat xs))"
  have ch: "chain (unat ?base) xs (unat ?base + length (concat xs))" "unat ?base + length (concat xs) < 2 ^ 64"
    using L(2) chain_fin [of "unat ?base" "xs @ ys" "unat (logEndOffset s)"] unsigned_less [of "logEndOffset s", where 'a = nat]
    by (auto simp: seg_log_def X(1) chain_append)
  then have fin: "unat ?fin = unat ?base + length (concat xs)"
    by (simp add: unat_word_ariths unat_of_nat take_bit_nat_eq_self)
  have "length (log_bytes xs @ t) < 2 ^ 63" using arg_cong [OF X(2), of length] enc(5) n(1) by simp
  then have "seg_log ?mb d' ?base xs t ?fin"
    using n(2) ch(1) fin enc(2) X(2) by (simp add: seg_log_def X(1) fits_def)
  moreover have "map_of (files d') (log_name q) \<noteq> None \<longleftrightarrow> map_of (files d) (log_name q) \<noteq> None" for q
    using spec [OF cut [unfolded power_cut_def cut_file_def], of q] by (auto split: option.splits)
  moreover have "fst ` set (butlast ?segs @ [(?base, xs)]) = fst ` set ?segs"
  proof -
    have "?segs = butlast ?segs @ [(?base, last bss)]" using D(4,5) by (metis append_butlast_last_id)
    then have "set ?segs = set (butlast ?segs @ [(?base, last bss)])" by (rule arg_cong)
    then show ?thesis by simp
  qed
  ultimately have "disk_log ?mb d' (butlast ?segs @ [(?base, xs)]) t ?fin" using cl L(3) X(3) by (simp add: disk_log_def)
  moreover have "map snd (butlast ?segs @ [(?base, xs)]) = butlast bss @ [xs]" using D(2) by (simp add: map_butlast)
  moreover have "fst (hd (butlast ?segs @ [(?base, xs)])) = earliestOffset s"
    using D(4,5,7) by (cases "butlast ?segs") (auto simp: hd_append neq_Nil_conv split: if_splits)
  ultimately show ?thesis using X(1,4) by blast
qed

end
