(* ===== verification/Log_Contract.thy ===== *)
theory Log_Contract
  imports Log_Crash
begin

text \<open>
  What the partition store promises its callers, as theorems about the operations of \<open>store.go\<close>
  on every healthy store and under every pattern of disk failures. The witnesses are a store of two
  segments, a closed one with a batch of two records and an empty active one.
\<close>

section \<open>A sample store\<close>

definition sample_segments :: "segment list" where
  "sample_segments =
     [\<lparr>baseOffset = 7, nextOffset = 9, segSize = length (batch_bytes sample_batch), path = log_name 7,
       indexPath = index_name 7, indexEntries = [\<lparr>RelativeOffset = 0, Position = 0\<rparr>], lastIndexedPosition = 0,
       indexSize = 12, indexDirty = False, active = False, maxTimestamp = 1000, handlesClosed = False\<rparr>,
      \<lparr>baseOffset = 9, nextOffset = 9, segSize = 0, path = log_name 9, indexPath = index_name 9, indexEntries = [],
       lastIndexedPosition = -1, indexSize = 0, indexDirty = False, active = True, maxTimestamp = 0,
       handlesClosed = False\<rparr>]"

definition sample_disk :: disk where
  "sample_disk =
     \<lparr>files = [(log_name 7, batch_bytes sample_batch), (index_name 7, entry_bytes \<lparr>RelativeOffset = 0, Position = 0\<rparr>),
               (log_name 9, []), (index_name 9, [])],
      flushed = [(log_name 7, batch_bytes sample_batch)], entries = [], faults = []\<rparr>"

definition sample_store :: store where
  "sample_store =
     \<lparr>segmentMaxBytes = 1024, maxBatchBytes = 512, indexIntervalBytes = 64, flushMode = sync_mode,
      closed = False, writeFailed = False, segments = sample_segments, activeSegment = 1,
      logEndOffset = 9, earliestOffset = 7, observer = []\<rparr>"

lemma sample_length: "length (batch_bytes sample_batch) = 94"
  by (simp add: length_batch_bytes sample_batch_def record_payload_def header_payload_def)

lemma sample_fields:
  "segments sample_store = sample_segments" "maxBatchBytes sample_store = 512" "segmentMaxBytes sample_store = 1024"
  "logEndOffset sample_store = 9" "earliestOffset sample_store = 7" "flushMode sample_store = sync_mode"
  "faults sample_disk = []" "indexIntervalBytes sample_store = 64"
  by (simp_all add: sample_store_def sample_disk_def)

lemma sample_repr: "store_repr sample_store sample_disk [[sample_batch], []]"
proof -
  have b: "batch_at 7 sample_batch"
    using encodable_sample by (simp add: batch_at_def sample_batch_def less_Suc_eq numeral_2_eq_2)
  have len: "length sample_batch = 2" by (simp add: sample_batch_def)
  have ts: "max_timestamp sample_batch = 1000" by (simp add: sample_batch_def max_timestamp_def)
  have "is_bound [sample_batch] \<lparr>RelativeOffset = 0, Position = 0\<rparr>" by (simp add: is_bound_def)
  then show ?thesis
    using b len ts sample_length
    by (auto simp: store_repr_def sample_store_def sample_segments_def limits_ok_def seg_repr_def sample_disk_def
        log_bytes_def fits_def index_ok_def last_indexed_def linked_def no_strays_def max_timestamp_def
        split: if_splits)
qed

lemma clean_if_no_magic: "0x50 \<notin> set (tl (batch_bytes b)) \<Longrightarrow> clean b"
proof -
  assume n: "0x50 \<notin> set (tl (batch_bytes b))"
  have "gslice (batch_bytes b) p (p + 4) \<noteq> MagicBytes" if "0 < p" "p < length (batch_bytes b) - 3" for p
  proof
    assume "gslice (batch_bytes b) p (p + 4) = MagicBytes"
    then have "batch_bytes b ! p = 0x50" using gslice_nth [of 0 4 p "batch_bytes b"] that by (simp add: MagicBytes_def)
    moreover have "batch_bytes b ! p = tl (batch_bytes b) ! (p - 1)" "p - 1 < length (tl (batch_bytes b))"
      using that by (simp_all add: nth_tl)
    ultimately show False using n nth_mem by metis
  qed
  then show ?thesis by (auto simp: clean_def)
qed

lemma be_put_eval:
  "be_put 4 v = map of_nat [v div 0x1000000, v div 0x10000, v div 0x100, v]"
  "be_put 8 v = map of_nat [v div 0x100000000000000, v div 0x1000000000000, v div 0x10000000000, v div 0x100000000,
     v div 0x1000000, v div 0x10000, v div 0x100, v]"
proof -
  have n: "4 = Suc (Suc (Suc (Suc 0)))" "8 = Suc (Suc (Suc (Suc (Suc (Suc (Suc (Suc 0)))))))" by simp_all
  show "be_put 4 v = map of_nat [v div 0x1000000, v div 0x10000, v div 0x100, v]"
    unfolding n be_put.simps by (simp add: div_mult2_eq [symmetric])
  show "be_put 8 v = map of_nat [v div 0x100000000000000, v div 0x1000000000000, v div 0x10000000000, v div 0x100000000,
     v div 0x1000000, v div 0x10000, v div 0x100, v]"
    unfolding n be_put.simps by (simp add: div_mult2_eq [symmetric])
qed

lemma funpow_8: "(f ^^ 8) x = f (f (f (f (f (f (f (f x)))))))"
  by (simp add: eval_nat_numeral)

lemmas body_eval = batch_body_def record_bytes_def record_fields_def header_fields_def opt_fields_def
  PutUint32_def PutUint64_def be_put_eval

lemma sample_bytes:
  "batch_body sample_batch =
     [0, 0, 0, 0, 0, 0, 0, 7, 0, 0, 0, 2, 0, 0, 0, 0, 0, 0, 3, 0xE8, 0, 0, 0, 0, 0, 0, 0, 0, 0, 0, 0, 0,
      0, 0, 0, 2, 1, 2, 0xFF, 0xFF, 0xFF, 0xFF, 0, 0, 0, 0, 0, 0, 0, 1, 0, 0, 0, 0, 0, 0, 0, 1,
      0xFF, 0xFF, 0xFF, 0xFF, 0, 0, 0, 0, 0, 0, 0, 1, 0, 0, 0, 1, 3, 0, 0, 0, 2, 4, 5]"
  "unat (ChecksumIEEE (batch_body sample_batch)) = 0xCA14342F"
proof -
  show body: "batch_body sample_batch =
     [0, 0, 0, 0, 0, 0, 0, 7, 0, 0, 0, 2, 0, 0, 0, 0, 0, 0, 3, 0xE8, 0, 0, 0, 0, 0, 0, 0, 0, 0, 0, 0, 0,
      0, 0, 0, 2, 1, 2, 0xFF, 0xFF, 0xFF, 0xFF, 0, 0, 0, 0, 0, 0, 0, 1, 0, 0, 0, 0, 0, 0, 0, 1,
      0xFF, 0xFF, 0xFF, 0xFF, 0, 0, 0, 0, 0, 0, 0, 1, 0, 0, 0, 1, 3, 0, 0, 0, 2, 4, 5]"
    by (simp add: body_eval sample_batch_def max_timestamp_def)
  show "unat (ChecksumIEEE (batch_body sample_batch)) = 0xCA14342F"
    unfolding unat_ChecksumIEEE body by (simp add: crc_byte_nat_def crc_shift_nat_def funpow_8)
qed

text \<open>A record to append, and the batch it becomes at the end of the sample store.\<close>

definition sample_recs :: "model_record list" where
  "sample_recs = [\<lparr>rKey = None, rValue = Some [1], rHeaders = [], rTimestamp = 0\<rparr>]"

lemma sample_stamp_bytes:
  "batch_body (stamp 9 5 sample_recs) =
     [0, 0, 0, 0, 0, 0, 0, 9, 0, 0, 0, 1, 0, 0, 0, 0, 0, 0, 0, 5, 0, 0, 0, 0, 0, 0, 0, 0, 0, 0, 0, 0, 0xFF, 0xFF, 0xFF, 0xFF, 0, 0, 0, 1, 1, 0, 0, 0, 0]"
  "unat (ChecksumIEEE (batch_body (stamp 9 5 sample_recs))) = 0x13D5B2C7"
proof -
  show body: "batch_body (stamp 9 5 sample_recs) =
     [0, 0, 0, 0, 0, 0, 0, 9, 0, 0, 0, 1, 0, 0, 0, 0, 0, 0, 0, 5, 0, 0, 0, 0, 0, 0, 0, 0, 0, 0, 0, 0, 0xFF, 0xFF, 0xFF, 0xFF, 0, 0, 0, 1, 1, 0, 0, 0, 0]"
    by (simp add: body_eval sample_recs_def stamp_def max_timestamp_def)
  show "unat (ChecksumIEEE (batch_body (stamp 9 5 sample_recs))) = 0x13D5B2C7"
    unfolding unat_ChecksumIEEE body by (simp add: crc_byte_nat_def crc_shift_nat_def funpow_8)
qed

lemma clean_eval:
  assumes "unat (ChecksumIEEE (batch_body b)) = c" "0x50 \<notin> set (be_put 4 c @ batch_body b)"
    "0x50 \<notin> set (be_put 4 (4 + length (batch_body b)))" "length (batch_body b) < 2 ^ 31"
  shows "clean b"
proof (rule clean_if_no_magic)
  have "unat (of_nat (4 + length (batch_body b)) :: u32) = 4 + length (batch_body b)"
    using assms(4) by (intro unat_of_nat_u32) simp
  then have "batch_bytes b = MagicBytes @ [FormatVersion1] @ be_put 4 (4 + length (batch_body b)) @ be_put 4 c @ batch_body b"
    unfolding batch_bytes_def frame_bytes_def PutUint32_def assms(1) by (simp only: append_assoc)
  then show "0x50 \<notin> set (tl (batch_bytes b))"
    using assms(2,3) by (simp add: MagicBytes_def FormatVersion1_def)
qed

lemma sample_clean: "clean sample_batch" "clean (stamp 9 5 sample_recs)"
  by (rule clean_eval [OF sample_bytes(2)]; simp add: sample_bytes(1) be_put_eval)
    (rule clean_eval [OF sample_stamp_bytes(2)]; simp add: sample_stamp_bytes(1) be_put_eval)

lemma sample_append_length: "length (batch_bytes (stamp 9 5 sample_recs)) = 58"
  by (simp add: batch_bytes_def length_frame_bytes sample_stamp_bytes(1))

section \<open>Append\<close>

lemma store_repr_ne: "store_repr s d bss \<Longrightarrow> bss \<noteq> []"
  by (auto simp: store_repr_def)

text \<open>
  C11. An acknowledged append gets the next offsets and its records, stamped with them, are the new
  end of the log; the store stays healthy. A refused one (empty, or over the batch limit) changes
  nothing. Any other error takes the store out of service. In no case does a log file lose or
  change a byte it had. This holds for every pattern of disk failures.
\<close>

theorem append_contract:
  assumes "store_repr s d bss" "- (2 ^ 63) < sint ts" "unat (logEndOffset s) + length recs < 2 ^ 64"
  shows "case Append ts recs s d of (r, s', d') \<Rightarrow>
    keeps_logs d d' \<and>
    (case r of
       Inr (base, lst) \<Rightarrow>
         base = logEndOffset s \<and> lst = base + of_nat (length recs) - 1 \<and> logEndOffset s' = lst + 1 \<and>
         (\<exists>bss'. store_repr s' d' bss' \<and> concat (concat bss') = concat (concat bss) @ stamp base ts recs)
     | Inl e \<Rightarrow> (e \<in> {ErrEmptyBatch, ErrBatchTooLarge} \<and> d' = d \<and> (\<exists>ev. s' = observe ev s)) \<or> writeFailed s')"
proof -
  obtain r s' d' where app: "Append ts recs s d = (r, s', d')" by (metis surj_pair)
  show ?thesis
  proof (rule Append_outcome [OF assms app], goal_cases)
    case (1 ev)
    then show ?case using app by auto
  next
    case 2
    have "concat (concat bss') = concat (concat bss) @ stamp (logEndOffset s) ts recs"
      if "bss' \<in> {butlast bss @ [last bss @ [stamp (logEndOffset s) ts recs]], bss @ [[stamp (logEndOffset s) ts recs]]}" for bss'
      by (rule appended_log [OF that store_repr_ne [OF assms(1)]])
    then show ?case using 2(3) app by (fastforce simp: append_post_def Let_def split: sum.splits)
  qed
qed

lemma sample_append_ok: "- (2 ^ 63) < sint (5 :: i64)" "unat (logEndOffset sample_store) + length sample_recs < 2 ^ 64"
  by (simp_all add: sample_fields sample_recs_def sint_small)

theorem append_contract_witness:
  "store_repr sample_store sample_disk [[sample_batch], []] \<and>
   (case Append 5 sample_recs sample_store sample_disk of (r, s', d') \<Rightarrow> keeps_logs sample_disk d')"
proof -
  obtain r s' d' where app: "Append 5 sample_recs sample_store sample_disk = (r, s', d')" by (metis surj_pair)
  show ?thesis using append_contract [OF sample_repr sample_append_ok] sample_repr by (simp add: app)
qed

lemma Append_ok:
  assumes "store_repr s d bss" "- (2 ^ 63) < sint ts" "unat (logEndOffset s) + length recs < 2 ^ 64"
    and "faults d = []" "segmentMaxBytes s \<le> 2 ^ 36" "recs \<noteq> []"
    and "int (length (batch_bytes (stamp (logEndOffset s) ts recs))) \<le> maxBatchBytes s"
  shows "\<exists>s' d'. Append ts recs s d =
    (Inr (logEndOffset s, logEndOffset s + of_nat (length recs) - 1), s', d') \<and> faults d' = []"
proof -
  obtain r s' d' where app: "Append ts recs s d = (r, s', d')" by (metis surj_pair)
  show ?thesis
  proof (rule Append_outcome [OF assms(1-3) app], goal_cases)
    case (1 ev)
    then show ?case using assms(6,7) by auto
  next
    case 2
    then obtain res where "r = Inr res" using assms(4,5) by blast
    then show ?case using 2(3) app assms(4) by (auto simp: append_post_def Let_def)
  qed
qed

section \<open>Crashes\<close>


lemma sample_bss: "set (concat [[sample_batch], []]) = {sample_batch}" "small (2 ^ 36) [[sample_batch], []]"
  by (simp_all add: small_def log_bytes_def sample_length)


lemma power_loss_reopen:
  assumes repr: "store_repr s d bss" and cut: "power_cut d d1" and dur: "closed_durable s d"
    and cl: "\<forall>b \<in> set (concat bss). clean b" and sm: "small (24 * 2 ^ 32) bss"
    and op: "open_store (segmentMaxBytes s) (maxBatchBytes s) interval mode obs (restarted d1) = (e, s2, d2)"
  shows "e = None \<and> earliestOffset s2 = earliestOffset s \<and>
    (\<exists>xs ys. store_repr s2 d2 (butlast bss @ [xs]) \<and> last bss = xs @ ys \<and> (durable s d \<longrightarrow> ys = []))"
proof -
  have lims: "maxBatchBytes s < 2 ^ 31" "segmentMaxBytes s < 2 ^ 63" using repr by (auto simp: store_repr_def limits_ok_def)
  obtain segs t fin xs ys where S: "disk_log (maxBatchBytes s) d1 segs t fin" "map snd segs = butlast bss @ [xs]"
    "last bss = xs @ ys" "durable s d \<longrightarrow> ys = []" "fst (hd segs) = earliestOffset s"
    using power_cut_disk [OF repr cut dur] by blast
  have bss: "bss = butlast bss @ [xs @ ys]" using store_repr_ne [OF repr] S(3) by (metis append_butlast_last_id)
  have "set (concat (map snd segs)) \<subseteq> set (concat bss)" by (subst bss) (auto simp: S(2))
  then have cl': "\<forall>b \<in> set (concat (map snd segs)). clean b" using cl by blast
  have "last bss \<in> set bss" using store_repr_ne [OF repr] by simp
  then have "length (log_bytes xs) \<le> 24 * 2 ^ 32" using sm S(3) by (force simp: small_def)
  then have sm': "small (24 * 2 ^ 32) (map snd segs)" using sm by (auto simp: small_def S(2) dest: in_set_butlastD)
  have "e = None" "store_repr s2 d2 (map snd segs)" "earliestOffset s2 = earliestOffset s"
    using reopen_ok [OF S(1) cl' sm' lims op] S(5) by simp_all
  then show ?thesis using S(2-4) by auto
qed

lemma acked_append:
  assumes repr: "store_repr s d bss" and hyps: "- (2 ^ 63) < sint ts" "unat (logEndOffset s) + length recs < 2 ^ 64"
    and app: "Append ts recs s d = (Inr x, s1, d1)" and b: "b = stamp (logEndOffset s) ts recs"
  obtains bss1 where "store_repr s1 d1 bss1" "concat (concat bss1) = concat (concat bss) @ b"
    "set (concat bss1) = insert b (set (concat bss))" "small (2 ^ 36) bss \<longrightarrow> small (24 * 2 ^ 32) bss1" "config s1 = config s"
    "earliestOffset s1 = earliestOffset s"
    "closed_durable s d \<longrightarrow> closed_durable s1 d1 \<and> (flushMode s = sync_mode \<longrightarrow> durable s1 d1)"
proof (rule Append_outcome [OF repr hyps app], goal_cases)
  case 2
  have P: "config s1 = config s" "earliestOffset s1 = earliestOffset s" "closed_durable s d \<longrightarrow> closed_durable s1 d1 \<and> (flushMode s = sync_mode \<longrightarrow> durable s1 d1)"
    "\<exists>bss1. store_repr s1 d1 bss1 \<and> bss1 \<in> {butlast bss @ [last bss @ [b]], bss @ [[b]]}"
    using 2(4) unfolding b append_post_def Let_def same_frame_def by auto
  then obtain bss1 where bss1: "store_repr s1 d1 bss1" "bss1 \<in> {butlast bss @ [last bss @ [b]], bss @ [[b]]}" by blast
  have len: "length (batch_bytes b) < 2 ^ 31" using 2(3) repr unfolding b by (auto simp: store_repr_def limits_ok_def)
  have "small (24 * 2 ^ 32) bss1" if sm: "small (2 ^ 36) bss"
    unfolding small_def
  proof
    fix bs assume "bs \<in> set bss1"
    then have "bs \<in> set bss \<or> bs = last bss @ [b] \<or> bs = [b]" using bss1(2) by (auto dest: in_set_butlastD)
    moreover have "last bss \<in> set bss" using store_repr_ne [OF repr] by simp
    ultimately show "length (log_bytes bs) \<le> 24 * 2 ^ 32" using sm len by (fastforce simp: small_def)
  qed
  then show ?case using appended_log [OF bss1(2) store_repr_ne [OF repr]] bss1(1) P(1-3) by (intro 2(1)) auto
qed auto


lemma sample_durable: "closed_durable sample_store sample_disk" "flushMode sample_store = sync_mode"
  by (simp_all add: closed_durable_def sample_fields sample_segments_def) (simp add: sample_disk_def content_def)




section \<open>Read\<close>

lemma filter_consecutive:
  fixes f :: "'a \<Rightarrow> nat"
  shows "\<forall>i < length xs. f (xs ! i) = a + i \<Longrightarrow> filter (\<lambda>x. n \<le> f x) xs = drop (n - a) xs"
proof (induction xs arbitrary: a)
  case (Cons x xs)
  have fx: "f x = a" using Cons.prems by force
  have "f (xs ! i) = Suc a + i" if "i < length xs" for i using Cons.prems that by force
  then have IH: "filter (\<lambda>x. n \<le> f x) xs = drop (n - Suc a) xs" using Cons.IH [of "Suc a"] by blast
  show ?case
  proof (cases "n \<le> a")
    case True
    then show ?thesis using IH fx by simp
  next
    case False
    then have "n - a = Suc (n - Suc a)" by simp
    then show ?thesis using False IH fx by simp
  qed
qed simp

lemma store_repr_filter:
  assumes "store_repr s d bss"
  shows "filter (\<lambda>r. offset \<le> srOffset r) (concat (concat bss)) =
    drop (unat offset - unat (earliestOffset s)) (concat (concat bss))"
proof -
  note ch = store_repr_chain [OF assms]
  have "unat (srOffset (concat (concat bss) ! i)) = unat (earliestOffset s) + i" if "i < length (concat (concat bss))" for i
  proof -
    have "unat (earliestOffset s) + i < 2 ^ 64"
      using chain_fin [OF ch] that unsigned_less [of "logEndOffset s", where 'a = nat] by simp
    then show ?thesis by (simp only: chain_nth [OF ch that] unat_of_nat_u64)
  qed
  then show ?thesis
    using filter_consecutive [of "concat (concat bss)" "\<lambda>r. unat (srOffset r)" "unat (earliestOffset s)" "unat offset"]
    by (simp add: word_le_nat_alt)
qed

lemma Read_range:
  assumes "store_repr s d bss" "0 < maxBytes" "offset < earliestOffset s \<or> logEndOffset s < offset"
  shows "\<exists>ev. Read offset maxBytes s d = (Inl ErrOffsetOutOfRange, observe ev s, d)"
  using assms by (auto simp: Read_def read_locked_def store_repr_def)

text \<open>
  C12. A read of a healthy store never changes it. Outside the stored range it is refused; inside,
  it returns the records from the requested offset on that fit the byte limit, exactly as
  \<open>read_spec\<close> takes them from the log, across batches and segments and from wherever the sparse
  index lets the scan start. A failing disk is reported, never papered over with other records.
\<close>

theorem read_correct:
  assumes "store_repr s d bss" "0 < maxBytes"
  shows "case Read offset maxBytes s d of (r, s', d') \<Rightarrow>
    files d' = files d \<and> store_repr s' d' bss \<and>
    (if offset < earliestOffset s \<or> logEndOffset s < offset then r = Inl ErrOffsetOutOfRange
     else case r of
       Inl e \<Rightarrow> e = EIO \<and> faults d \<noteq> []
     | Inr rs \<Rightarrow> rs = read_spec offset maxBytes (concat (concat bss)))"
proof (cases "offset < earliestOffset s \<or> logEndOffset s < offset")
  case True
  then show ?thesis using Read_range [OF assms True] assms(1) by auto
next
  case False
  obtain r s' d' where rd: "Read offset maxBytes s d = (r, s', d')" by (metis surj_pair)
  have in_range: "earliestOffset s \<le> offset" "offset \<le> logEndOffset s" using False by auto
  note R = Read_ok [OF assms in_range rd]
  have "store_repr s' d' bss" using R(1,3) assms(1) store_repr_files [OF R(1)] by auto
  then show ?thesis using R(1,4) False by (simp add: rd)
qed

theorem read_correct_witness:
  "case Read 8 1000 sample_store sample_disk of (r, s', d') \<Rightarrow> r = Inr (read_spec 8 1000 sample_batch)"
proof -
  obtain r s' d' where rd: "Read 8 1000 sample_store sample_disk = (r, s', d')" by (metis surj_pair)
  show ?thesis using read_correct [OF sample_repr, of 1000 8] by (simp add: rd sample_fields split: sum.splits)
qed



section \<open>Restart\<close>

lemma Close_files: "Close s d = (r, s', d') \<Longrightarrow> files d' = files d"
proof -
  assume cl: "Close s d = (r, s', d')"
  obtain e1 g1 d1 where fl: "Flush (active_seg (s\<lparr>closed := True\<rparr>)) d = (e1, g1, d1)" by (metis surj_pair)
  obtain e2 gs d2 where cs: "close_segments (segments (set_active g1 (s\<lparr>closed := True\<rparr>))) d1 = (e2, gs, d2)" by (metis surj_pair)
  have same: "files d2 = files d1" if "close_segments gs0 d1 = (e2, gs, d2)" for gs0 e2 gs d1 d2
    using that
  proof (induction gs0 arbitrary: d1 e2 gs d2)
    case (Cons g gs0)
    obtain r1 g' d' where sc: "SegClose g d1 = (r1, g', d')" by (metis surj_pair)
    obtain r2 gs' d'' where cs: "close_segments gs0 d' = (r2, gs', d'')" by (metis surj_pair)
    have "files d' = files d1"
      using sc by (auto simp: SegClose_def Let_def sys_close_def next_fault_def split: prod.splits list.splits if_splits)
    then show ?case using Cons.IH [OF cs] Cons.prems by (auto simp: sc cs)
  qed simp
  show ?thesis using cl Flush_facts(1) [OF fl] same [OF cs] by (auto simp: Close_def fl cs Let_def split: if_splits)
qed



text \<open>The sample log with the first ten bytes of another batch after it, and a broken index file.\<close>

definition torn_disk :: disk where
  "torn_disk = \<lparr>files = [(log_name 7, batch_bytes sample_batch @ take 10 (batch_bytes (stamp 9 5 sample_recs))),
      (index_name 7, [1, 2, 3])], flushed = [], entries = [], faults = []\<rparr>"

lemma torn_disk_log: "disk_log 512 torn_disk [(7, [sample_batch])] (take 10 (batch_bytes (stamp 9 5 sample_recs))) 9"
proof -
  let ?b = "stamp 9 5 sample_recs"
  have "encodable ?b" using sample_append_length
    by (intro stamp_encodable) (simp_all add: sample_recs_def sint_small)
  then have "torn 512 (take 10 (batch_bytes ?b))"
    unfolding torn_def using sample_append_length
    by (intro exI [of _ ?b] exI [of _ "drop 10 (batch_bytes ?b)"]) simp
  moreover have "chain 7 [sample_batch] 9" using sample_repr by (simp add: store_repr_def seg_repr_def sample_store_def sample_segments_def)
  moreover have "map_of (files torn_disk) (log_name b) \<noteq> None \<longleftrightarrow> b = 7" for b by (simp add: torn_disk_def)
  ultimately show ?thesis
    using sample_append_length sample_length by (simp add: disk_log_def seg_log_def torn_disk_def log_bytes_def fits_def)
qed



lemma OpenStore_empty:
  assumes "\<forall>b. map_of (files d) (log_name b) = None" "batchMax < 2 ^ 31" "segMax < 2 ^ 63"
  shows "case OpenStore segMax batchMax interval mode obs d of (e, s, d') \<Rightarrow>
    (faults d = [] \<longrightarrow> e = None \<and> faults d' = []) \<and> (e = None \<longrightarrow> store_repr s d' [[]] \<and> logEndOffset s = 0 \<and> earliestOffset s = 0)"
proof -
  obtain r1 d1 where e1: "sys_mkdir d = (r1, d1)" by fastforce
  obtain r2 d2 where e2: "sys_readdir d1 = (r2, d2)" by fastforce
  note F1 = sys_mkdir_facts [OF e1] and F2 = sys_readdir_facts [OF e2]
  let ?names = "sort (remdups (map fst (files d)))"
  define d3 where "d3 = remove_tmps ?names d2"
  have T3: "touches {n. has_suffix (index_suffix @ tmp_suffix) n} d2 d3" unfolding d3_def by (rule remove_tmps_touches)
  have none: "map_of (files d3) (log_name b) = None" for b using T3 F1(1) F2(1) assms(1) by (simp add: touches_def)
  have bases: "List.map_filter base_of ?names = []"
    using directory_bases [of "files d" "[]"] assms(1) by (metis length_0_conv length_sort list.set(1) empty_iff sorted_wrt.simps(1))
  obtain r4 d4 where e4: "NewSegment 0 True d3 = (r4, d4)" by fastforce
  note N = NewSegment_facts [OF e4]
  have repr: "store_repr s d4 [[]]"
    if "r4 = Inr g" "s = updateGaugesLocked (start_store segMax batchMax interval mode obs\<lparr>segments := [g]\<rparr>)" for g s
  proof -
    note fr = NewSegment_fresh [OF e4 [unfolded that(1)] none]
    have "no_strays d4 [g]"
      using fr(2) NewSegment_facts(3) [OF e4] none by (auto simp: no_strays_def) (metis insert_iff log_name_inj names_distinct(1) option.distinct(1) singletonD)
    then show ?thesis using fr assms(2,3)
      by (simp add: that(2) store_repr_def updateGaugesLocked_def observe_def start_store_def limits_ok_def linked_def)
  qed
  show ?thesis
  proof (cases "\<exists>ns. r1 = Inr () \<and> r2 = Inr ns")
    case False
    then show ?thesis using F1(2) F2(2) by (auto simp: OpenStore_def open_store_def e1 e2 Let_def split: sum.splits)
  next
    case True
    then obtain ns where ns: "r1 = Inr ()" "r2 = Inr ns" by blast
    have nm: "ns = ?names" using F2(3) [OF ns(2)] F1(1) by simp
    have fl: "faults d = [] \<longrightarrow> faults d3 = []" using F1(2) F2(2) T3 by (auto simp: touches_def)
    show ?thesis
    proof (cases r4)
      case (Inl e)
      then show ?thesis using fl N(2)
        by (auto simp: OpenStore_def open_store_def e1 e2 ns nm bases Let_def d3_def [symmetric] e4)
    next
      case (Inr g)
      from repr [OF Inr refl] show ?thesis
        by (simp add: OpenStore_def open_store_def e1 e2 ns nm bases Let_def d3_def [symmetric] e4 Inr start_store_def)
          (use fl N(2) in \<open>simp add: updateGaugesLocked_def\<close>)
    qed
  qed
qed

section \<open>Retention\<close>

text \<open>
  C14. Retention deletes whole segments from the start of the log and nothing else: what is left is
  a suffix that the store still serves, with the same next offset, and the active segment stays.
  The first \<open>j\<close> segments deleted hold only records as old as the cutoff, the following ones went
  because the files from there on took more than the limit. When no error is reported, the first
  segment that is left would not have been deleted for its age at its turn, and the files that are
  left are within the limit, unless only the active segment remains. It holds for every pattern
  of disk failures.
\<close>

theorem retention_keeps_suffix:
  assumes "store_repr s d bss"
  shows "case ApplyRetention now maxAge maxPartitionBytes s d of (r, s', d') \<Rightarrow>
    \<exists>j k. j \<le> k \<and> k < length bss \<and> store_repr s' d' (drop k bss) \<and> segments s' = drop k (segments s) \<and>
      logEndOffset s' = logEndOffset s \<and>
      (\<forall>i < j. expired (cutoff_of now maxAge) (bss ! i)) \<and>
      (\<forall>i. j \<le> i \<and> i < k \<longrightarrow> too_big maxPartitionBytes d (drop i (segments s))) \<and>
      (r = None \<longrightarrow> (Suc j = length bss \<or> \<not> expired (cutoff_of now maxAge) (bss ! j)) \<and>
         (Suc k = length bss \<or> \<not> too_big maxPartitionBytes d (drop k (segments s))))"
proof -
  obtain r s' d' where ar: "ApplyRetention now maxAge maxPartitionBytes s d = (r, s', d')" by (metis surj_pair)
  from ApplyRetention_ok [OF assms ar] show ?thesis unfolding ar trimmed_def by auto
qed

theorem retention_keeps_suffix_witness:
  "case ApplyRetention 5000000000 1000000000 1000 sample_store sample_disk of (r, s', d') \<Rightarrow>
     logEndOffset s' = 9 \<and> (store_repr s' d' [[sample_batch], []] \<or> store_repr s' d' [[]])"
proof -
  obtain r s' d' where ar: "ApplyRetention 5000000000 1000000000 1000 sample_store sample_disk = (r, s', d')" by (metis surj_pair)
  have "drop k [[sample_batch], []] = (if k = 0 then [[sample_batch], []] else [[]])" if "k < length [[sample_batch], []]" for k
    using that by (auto simp: less_Suc_eq)
  then show ?thesis
    using retention_keeps_suffix [OF sample_repr, of 5000000000 1000000000 1000] by (auto simp: ar sample_fields split: if_splits)
qed

section \<open>Stores out of service\<close>



section \<open>Directory entries\<close>

lemma entries_simps [simp]:
  "entries (snd (next_fault d)) = entries d" "entries (put_file p c d) = entries d"
  by (auto simp: next_fault_def put_file_def split: list.splits)

lemma sys_entries:
  "entries (snd (sys_fsync p d)) = entries d" "entries (snd (sys_pwrite p n bs d)) = entries d"
  "entries (snd (sys_open_create p d)) = entries d" "entries (snd (sys_stat p d)) = entries d"
  "entries (snd (sys_close d)) = entries d"
proof -
  obtain f d1 where nf: "next_fault d = (f, d1)" by fastforce
  have "entries d1 = entries d" using entries_simps(1) [of d] by (simp add: nf)
  then show "entries (snd (sys_fsync p d)) = entries d" "entries (snd (sys_pwrite p n bs d)) = entries d"
    "entries (snd (sys_open_create p d)) = entries d" "entries (snd (sys_stat p d)) = entries d"
    "entries (snd (sys_close d)) = entries d"
    by (simp_all add: sys_fsync_def sys_pwrite_def sys_open_create_def sys_stat_def sys_close_def nf Let_def)
qed

lemma call_entries:
  "sys_fsync p d = (r1, d') \<Longrightarrow> entries d' = entries d" "sys_pwrite p n bs d = (r2, d') \<Longrightarrow> entries d' = entries d"
  "sys_open_create p d = (r3, d') \<Longrightarrow> entries d' = entries d" "sys_stat p d = (r4, d') \<Longrightarrow> entries d' = entries d"
  using sys_entries by (metis snd_conv)+

lemma Flush_entries: "Flush g d = (r, g', d') \<Longrightarrow> entries d' = entries d"
  by (auto simp: Flush_def FlushIndex_def split: if_splits sum.splits prod.splits dest!: call_entries)

lemma NewSegment_entries: "NewSegment base act d = (r, d') \<Longrightarrow> entries d' = entries d"
  by (auto simp: NewSegment_def Let_def sys_entries split: sum.splits prod.splits dest!: call_entries)

lemma SegAppend_entries: "SegAppend g bs d = (r, g', d') \<Longrightarrow> entries d' = entries d"
  by (auto simp: SegAppend_def Let_def split: if_splits option.splits prod.splits dest!: call_entries)

lemma append_index_entries: "append_index s rel pos g d = (g', d') \<Longrightarrow> entries d' = entries d"
  by (auto simp: append_index_def AppendIndexEntry_def Let_def split: if_splits option.splits prod.splits dest!: call_entries)

lemma roll_segment_entries: "roll_segment n s d = (r, s', d') \<Longrightarrow> entries d' = entries d"
  by (auto simp: roll_segment_def Let_def split: if_splits option.splits prod.splits sum.splits
      dest!: Flush_entries NewSegment_entries)

lemma append_active_entries: "append_active ts n enc base s d = (r, s', d') \<Longrightarrow> entries d' = entries d"
  by (auto simp: append_active_def finish_append_def Let_def split: if_splits option.splits prod.splits sum.splits
      dest!: Flush_entries SegAppend_entries append_index_entries)

text \<open>
  C34. No append syncs the partition directory, not even one that created a segment and flushed it
  in sync mode: the directory entries that are known to be on stable storage stay the same. (That
  the batch survives a loss of power thus rests on the file system.)
\<close>

theorem append_never_syncs_directory: "entries (snd (snd (Append ts recs s d))) = entries d"
proof -
  obtain r n s' d' where al: "append_locked ts recs s d = (r, n, s', d')" by (metis surj_pair)
  have "entries d' = entries d"
    using al by (auto simp: append_locked_def Let_def split: if_splits option.splits prod.splits sum.splits
        dest!: roll_segment_entries append_active_entries)
  then show ?thesis by (simp add: Append_def al)
qed

end
