(* ===== verification/Partition_Log.thy ===== *)
theory Partition_Log
  imports Log_Contract
begin

text \<open>
  The partition log (\<^verbatim>\<open>internal/partition/log.go\<close>), which hands every call to its store, the contract
  its callers rely on as a locale, and the histories of a log: any sequence of appends, reads and
  retention runs, on a disk that may fail at any call.
\<close>

section \<open>The log\<close>

text \<open>A log is its store with the directory the store works in.\<close>

record Log =
  logStore :: store
  logDisk :: disk

definition NewLog :: "int \<Rightarrow> int \<Rightarrow> int \<Rightarrow> gostring \<Rightarrow> disk \<Rightarrow> (err + Log) \<times> disk" where
  "NewLog segMax batchMax interval mode d =
     (let (e, s, d) = OpenStore segMax batchMax interval mode [] d in
      (case e of Some e \<Rightarrow> Inl e | None \<Rightarrow> Inr \<lparr>logStore = s, logDisk = d\<rparr>, d))"

definition LogAppend :: "i64 \<Rightarrow> model_record list \<Rightarrow> Log \<Rightarrow> (err + u64 \<times> u64) \<times> Log" where
  "LogAppend ts records l =
     (let (r, s, d) = Append ts records (logStore l) (logDisk l) in (r, \<lparr>logStore = s, logDisk = d\<rparr>))"

definition LogRead :: "u64 \<Rightarrow> int \<Rightarrow> Log \<Rightarrow> (err + stored_record list) \<times> Log" where
  "LogRead offset maxBytes l =
     (let (r, s, d) = Read offset maxBytes (logStore l) (logDisk l);
          r = (case r of Inl e \<Rightarrow> if e = ErrOffsetOutOfRange then Inl ErrOffsetOutOfRange else Inl e | Inr recs \<Rightarrow> Inr recs)
      in (r, \<lparr>logStore = s, logDisk = d\<rparr>))"

definition LogLogEndOffset :: "Log \<Rightarrow> u64" where
  "LogLogEndOffset l = LogEndOffset (logStore l)"

definition LogEarliestOffset :: "Log \<Rightarrow> u64" where
  "LogEarliestOffset l = EarliestOffset (logStore l)"

definition LogClose :: "Log \<Rightarrow> err option \<times> Log" where
  "LogClose l = (let (e, s, d) = Close (logStore l) (logDisk l) in (e, \<lparr>logStore = s, logDisk = d\<rparr>))"

definition LogApplyRetention :: "int \<Rightarrow> i64 \<Rightarrow> u64 \<Rightarrow> Log \<Rightarrow> err option \<times> Log" where
  "LogApplyRetention now maxAge maxPartitionBytes l =
     (let (e, s, d) = ApplyRetention now maxAge maxPartitionBytes (logStore l) (logDisk l)
      in (e, \<lparr>logStore = s, logDisk = d\<rparr>))"

section \<open>The contract\<close>

text \<open>
  A consumer that reads from an offset with \<open>rd\<close>, and goes on after the last record it got until it
  gets none; \<open>n\<close> bounds the number of requests.
\<close>

primrec consume :: "(u64 \<Rightarrow> int \<Rightarrow> 'l \<Rightarrow> (err + stored_record list) \<times> 'l) \<Rightarrow> nat \<Rightarrow> u64 \<Rightarrow> int \<Rightarrow> 'l \<Rightarrow> stored_record list"
where
  "consume rd 0 off mb l = []"
| "consume rd (Suc n) off mb l =
     (case rd off mb l of
        (Inl e, l) \<Rightarrow> []
      | (Inr rs, l) \<Rightarrow> if rs = [] then [] else rs @ consume rd n (srOffset (last rs) + 1) mb l)"

text \<open>
  What the broker relies on about a partition log. \<open>holds l rs\<close> says that the log \<open>l\<close> is in service and
  its records are \<open>rs\<close>; \<open>accepts\<close> is when an append must succeed.
\<close>

locale partition_log =
  fixes holds :: "'l \<Rightarrow> stored_record list \<Rightarrow> bool"
    and accepts :: "i64 \<Rightarrow> model_record list \<Rightarrow> 'l \<Rightarrow> bool"
    and earliest logEnd :: "'l \<Rightarrow> u64"
    and append :: "i64 \<Rightarrow> model_record list \<Rightarrow> 'l \<Rightarrow> (err + u64 \<times> u64) \<times> 'l"
    and read :: "u64 \<Rightarrow> int \<Rightarrow> 'l \<Rightarrow> (err + stored_record list) \<times> 'l"
  assumes offsets: "holds l rs \<Longrightarrow> i < length rs \<Longrightarrow> srOffset (rs ! i) = earliest l + of_nat i"
    and range: "holds l rs \<Longrightarrow> unat (logEnd l) = unat (earliest l) + length rs"
    and append_ok: "holds l rs \<Longrightarrow> accepts ts recs l \<Longrightarrow>
      \<exists>l'. append ts recs l = (Inr (logEnd l, logEnd l + of_nat (length recs) - 1), l') \<and>
        holds l' (rs @ stamp (logEnd l) ts recs) \<and> earliest l' = earliest l"
    and read_ok: "holds l rs \<Longrightarrow> 0 < mb \<Longrightarrow> earliest l \<le> off \<Longrightarrow> off \<le> logEnd l \<Longrightarrow>
      \<exists>l'. read off mb l = (Inr (window mb (drop (unat off - unat (earliest l)) rs)), l') \<and>
        holds l' rs \<and> earliest l' = earliest l"
begin

lemma end_fixed: "holds l rs \<Longrightarrow> holds l' rs \<Longrightarrow> earliest l' = earliest l \<Longrightarrow> logEnd l' = logEnd l"
  using range [of l rs] range [of l' rs] by (metis unsigned_word_eqI)

text \<open>What was appended is what a read from its first offset returns.\<close>

lemma read_your_writes:
  assumes "holds l rs" "accepts ts recs l" "0 < mb"
  shows "\<exists>l1 l2. append ts recs l = (Inr (logEnd l, logEnd l + of_nat (length recs) - 1), l1) \<and>
    read (logEnd l) mb l1 = (Inr (window mb (stamp (logEnd l) ts recs)), l2)"
proof -
  let ?b = "stamp (logEnd l) ts recs"
  obtain l1 where l1: "append ts recs l = (Inr (logEnd l, logEnd l + of_nat (length recs) - 1), l1)"
    "holds l1 (rs @ ?b)" "earliest l1 = earliest l"
    using append_ok [OF assms(1,2)] by blast
  have "unat (logEnd l1) = unat (logEnd l) + length ?b" using range [OF assms(1)] range [OF l1(2)] l1(3) by simp
  then have le: "earliest l1 \<le> logEnd l" "logEnd l \<le> logEnd l1"
    using range [OF assms(1)] l1(3) by (simp_all add: word_le_nat_alt)
  obtain l2 where "read (logEnd l) mb l1 = (Inr (window mb (drop (unat (logEnd l) - unat (earliest l1)) (rs @ ?b))), l2)"
    using read_ok [OF l1(2) assms(3) le] by blast
  moreover have "unat (logEnd l) - unat (earliest l1) = length rs" using range [OF assms(1)] l1(3) by simp
  ultimately show ?thesis using l1(1) by simp
qed

lemma consume_all:
  assumes "holds l rs" "0 < mb" "unat off = unat (earliest l) + k" "k \<le> length rs" "length rs - k < n"
  shows "consume read n off mb l = drop k rs"
  using assms
proof (induction n arbitrary: off k l)
  case (Suc n)
  let ?w = "window mb (drop k rs)"
  have le: "earliest l \<le> off" "off \<le> logEnd l"
    using range [OF Suc.prems(1)] Suc.prems(3,4) by (simp_all add: word_le_nat_alt)
  obtain l' where l': "read off mb l = (Inr ?w, l')" "holds l' rs" "earliest l' = earliest l"
    using read_ok [OF Suc.prems(1,2) le] Suc.prems(3) by auto
  show ?case
  proof (cases "k = length rs")
    case True
    then show ?thesis using l'(1) by (simp add: window_def)
  next
    case False
    then have ne: "?w \<noteq> []" using Suc.prems(4) by simp
    obtain zs where zs: "drop k rs = ?w @ zs" using window_prefix by blast
    define m where "m = length ?w"
    have m: "0 < m" "k + m \<le> length rs" using ne arg_cong [OF zs, of length] Suc.prems(4) by (auto simp: m_def)
    have w: "?w = take m (drop k rs)" using zs by (metis append_eq_conv_conj m_def)
    have "last ?w = ?w ! (m - 1)" using ne by (simp add: last_conv_nth m_def)
    then have "last ?w = rs ! (k + m - 1)" using m unfolding w by simp
    moreover have "srOffset (rs ! (k + m - 1)) = earliest l + of_nat (k + m - 1)" using m by (intro offsets [OF Suc.prems(1)]) auto
    moreover have "earliest l + of_nat (k + m - 1) + 1 = earliest l + of_nat (k + m)" using m(1) by (cases m) simp_all
    ultimately have nx: "srOffset (last ?w) + 1 = earliest l + of_nat (k + m)" by simp
    have "unat (earliest l) + (k + m) < 2 ^ 64"
      using range [OF Suc.prems(1)] m(2) unsigned_less [of "logEnd l", where 'a = nat] by simp
    then have "unat (earliest l + of_nat (k + m)) = unat (earliest l) + (k + m)"
      by (rule unat_add_u64)
    then have "consume read n (srOffset (last ?w) + 1) mb l' = drop (k + m) rs"
      using l'(2,3) m Suc.prems(2,5) unfolding nx by (intro Suc.IH) auto
    moreover have "drop k rs = ?w @ drop (k + m) rs" unfolding w by (metis append_take_drop_id drop_drop add.commute)
    ultimately show ?thesis using l'(1) ne by simp
  qed
qed simp

end

section \<open>The store keeps the contract\<close>

definition log_healthy :: "Log \<Rightarrow> stored_record list \<Rightarrow> bool" where
  "log_healthy l rs \<longleftrightarrow> (\<exists>bss. store_repr (logStore l) (logDisk l) bss \<and> rs = concat (concat bss))"

definition log_holds :: "Log \<Rightarrow> stored_record list \<Rightarrow> bool" where
  "log_holds l rs \<longleftrightarrow> log_healthy l rs \<and> faults (logDisk l) = []"

definition log_room :: "i64 \<Rightarrow> model_record list \<Rightarrow> Log \<Rightarrow> bool" where
  "log_room ts recs l \<longleftrightarrow> - (2 ^ 63) < sint ts \<and> unat (LogLogEndOffset l) + length recs < 2 ^ 64"

definition log_accepts :: "i64 \<Rightarrow> model_record list \<Rightarrow> Log \<Rightarrow> bool" where
  "log_accepts ts recs l \<longleftrightarrow> log_room ts recs l \<and> recs \<noteq> [] \<and> segmentMaxBytes (logStore l) \<le> 2 ^ 36 \<and>
     int (length (batch_bytes (stamp (LogLogEndOffset l) ts recs))) \<le> maxBatchBytes (logStore l)"

lemma log_healthyE:
  assumes "log_healthy l rs"
  obtains bss where "store_repr (logStore l) (logDisk l) bss" "rs = concat (concat bss)"
    "chain (unat (LogEarliestOffset l)) (concat bss) (unat (LogLogEndOffset l))"
  using assms store_repr_chain by (auto simp: log_healthy_def LogEarliestOffset_def LogLogEndOffset_def EarliestOffset_def LogEndOffset_def)

lemma LogRead_ok:
  assumes "log_healthy l rs" "0 < mb" "LogEarliestOffset l \<le> off" "off \<le> LogLogEndOffset l" "LogRead off mb l = (r, l')"
  shows "log_healthy l' rs" "LogEarliestOffset l' = LogEarliestOffset l" "faults (logDisk l) = [] \<Longrightarrow> faults (logDisk l') = []"
    "case r of Inl e \<Rightarrow> faults (logDisk l) \<noteq> [] | Inr x \<Rightarrow> x = window mb (drop (unat off - unat (LogEarliestOffset l)) rs)"
proof -
  obtain bss where bss: "store_repr (logStore l) (logDisk l) bss" "rs = concat (concat bss)"
    using assms(1) by (rule log_healthyE)
  obtain r0 s' d' where rd: "Read off mb (logStore l) (logDisk l) = (r0, s', d')" by (metis surj_pair)
  have rng: "earliestOffset (logStore l) \<le> off" "off \<le> logEndOffset (logStore l)"
    using assms(3,4) by (simp_all add: LogEarliestOffset_def LogLogEndOffset_def EarliestOffset_def LogEndOffset_def)
  note R = Read_ok [OF bss(1) assms(2) rng rd]
  have l': "l' = \<lparr>logStore = s', logDisk = d'\<rparr>" "r = r0" using assms(5) by (auto simp: LogRead_def rd split: sum.splits)
  have "store_repr s' d' bss" using R(1,3) bss(1) store_repr_files [OF R(1)] by auto
  then show "log_healthy l' rs" using bss(2) l'(1) by (auto simp: log_healthy_def)
  show "LogEarliestOffset l' = LogEarliestOffset l" using R(3) by (auto simp: l' LogEarliestOffset_def EarliestOffset_def)
  show "faults (logDisk l) = [] \<Longrightarrow> faults (logDisk l') = []" using R(2) by (simp add: l')
  show "case r of Inl e \<Rightarrow> faults (logDisk l) \<noteq> [] | Inr x \<Rightarrow> x = window mb (drop (unat off - unat (LogEarliestOffset l)) rs)"
    using R(4) store_repr_filter [OF bss(1), of off] bss(2)
    by (simp add: l' read_spec_def LogEarliestOffset_def EarliestOffset_def split: sum.splits)
qed

lemma LogAppend_ok:
  assumes "log_healthy l rs" "log_room ts recs l" "LogAppend ts recs l = (r, l')"
  shows "case r of
      Inl e \<Rightarrow> log_healthy l' rs \<or> writeFailed (logStore l')
    | Inr (base, lst) \<Rightarrow> base = LogLogEndOffset l \<and> log_healthy l' (rs @ stamp base ts recs)"
    "faults (logDisk l) = [] \<Longrightarrow> log_accepts ts recs l \<Longrightarrow> faults (logDisk l') = [] \<and> LogEarliestOffset l' = LogEarliestOffset l \<and>
       r = Inr (LogLogEndOffset l, LogLogEndOffset l + of_nat (length recs) - 1)"
proof -
  obtain bss where bss: "store_repr (logStore l) (logDisk l) bss" "rs = concat (concat bss)"
    using assms(1) by (rule log_healthyE)
  obtain r0 s' d' where app: "Append ts recs (logStore l) (logDisk l) = (r0, s', d')" by (metis surj_pair)
  have hyps: "- (2 ^ 63) < sint ts" "unat (logEndOffset (logStore l)) + length recs < 2 ^ 64"
    using assms(2) by (simp_all add: log_room_def LogLogEndOffset_def LogEndOffset_def)
  have l': "l' = \<lparr>logStore = s', logDisk = d'\<rparr>" "r = r0" using assms(3) by (auto simp: LogAppend_def app)
  show "case r of Inl e \<Rightarrow> log_healthy l' rs \<or> writeFailed (logStore l')
      | Inr (base, lst) \<Rightarrow> base = LogLogEndOffset l \<and> log_healthy l' (rs @ stamp base ts recs)"
  proof (rule Append_outcome [OF bss(1) hyps app], goal_cases)
    case (1 ev)
    then show ?case using bss by (auto simp: l' log_healthy_def)
  next
    case 2
    show ?case
    proof (cases r)
      case (Inl e)
      then show ?thesis using 2(3) by (simp add: l' append_post_def)
    next
      case (Inr x)
      then obtain bss' where B: "x = (logEndOffset (logStore l), logEndOffset (logStore l) + of_nat (length recs) - 1)" "store_repr s' d' bss'"
        "bss' \<in> {butlast bss @ [last bss @ [stamp (logEndOffset (logStore l)) ts recs]], bss @ [[stamp (logEndOffset (logStore l)) ts recs]]}"
        using 2(3) by (auto simp: l' append_post_def Let_def)
      from appended_log(1) [OF B(3) store_repr_ne [OF bss(1)]] show ?thesis
        using B(1,2) Inr bss(2) by (auto simp: l'(1) log_healthy_def LogLogEndOffset_def LogEndOffset_def)
    qed
  qed
  assume f: "faults (logDisk l) = []" and acc: "log_accepts ts recs l"
  obtain s1 d1 where ok: "Append ts recs (logStore l) (logDisk l) =
      (Inr (logEndOffset (logStore l), logEndOffset (logStore l) + of_nat (length recs) - 1), s1, d1)" "faults d1 = []"
    using Append_ok [OF bss(1) hyps f] acc by (auto simp: log_accepts_def LogLogEndOffset_def LogEndOffset_def)
  have "earliestOffset s1 = earliestOffset (logStore l)" by (rule acked_append [OF bss(1) hyps ok(1) refl])
  then show "faults (logDisk l') = [] \<and> LogEarliestOffset l' = LogEarliestOffset l \<and>
       r = Inr (LogLogEndOffset l, LogLogEndOffset l + of_nat (length recs) - 1)"
    using ok app by (simp add: l' LogEarliestOffset_def EarliestOffset_def LogLogEndOffset_def LogEndOffset_def)
qed

interpretation pl: partition_log log_holds log_accepts LogEarliestOffset LogLogEndOffset LogAppend LogRead
proof
  fix l rs i assume l: "log_holds l rs" "i < length rs"
  obtain bss where bss: "rs = concat (concat bss)" "chain (unat (LogEarliestOffset l)) (concat bss) (unat (LogLogEndOffset l))"
    using l(1) unfolding log_holds_def by (blast elim: log_healthyE)
  show "srOffset (rs ! i) = LogEarliestOffset l + of_nat i"
    using chain_nth [OF bss(2)] l(2) bss(1) by simp
next
  fix l rs assume l: "log_holds l rs"
  obtain bss where bss: "rs = concat (concat bss)" "chain (unat (LogEarliestOffset l)) (concat bss) (unat (LogLogEndOffset l))"
    using l unfolding log_holds_def by (blast elim: log_healthyE)
  show "unat (LogLogEndOffset l) = unat (LogEarliestOffset l) + length rs" using chain_fin [OF bss(2)] bss(1) by simp
next
  fix l rs ts recs assume l: "log_holds l rs" "log_accepts ts recs l"
  obtain r l' where app: "LogAppend ts recs l = (r, l')" by fastforce
  have "log_healthy l rs" "log_room ts recs l" "faults (logDisk l) = []" using l by (simp_all add: log_holds_def log_accepts_def)
  from LogAppend_ok [OF this(1,2) app] l(2) this(3)
  show "\<exists>l'. LogAppend ts recs l = (Inr (LogLogEndOffset l, LogLogEndOffset l + of_nat (length recs) - 1), l') \<and>
     log_holds l' (rs @ stamp (LogLogEndOffset l) ts recs) \<and> LogEarliestOffset l' = LogEarliestOffset l"
    by (auto simp: app log_holds_def)
next
  fix l rs off and mb :: int
  assume l: "log_holds l rs" "0 < mb" "LogEarliestOffset l \<le> off" "off \<le> LogLogEndOffset l"
  obtain r l' where rd: "LogRead off mb l = (r, l')" by fastforce
  have "log_healthy l rs" "faults (logDisk l) = []" using l(1) by (simp_all add: log_holds_def)
  from LogRead_ok [OF this(1) l(2-4) rd] this(2)
  show "\<exists>l'. LogRead off mb l = (Inr (window mb (drop (unat off - unat (LogEarliestOffset l)) rs)), l') \<and>
     log_holds l' rs \<and> LogEarliestOffset l' = LogEarliestOffset l"
    by (auto simp: rd log_holds_def split: sum.splits)
qed

section \<open>Histories\<close>

datatype log_event =
    EvAppend i64 "model_record list" "err + u64 \<times> u64"
  | EvRead u64 int "err + stored_record list"
  | EvRetain int i64 u64 "err option"

inductive log_run :: "Log \<Rightarrow> log_event list \<Rightarrow> Log \<Rightarrow> bool" where
  start: "log_run l [] l"
| append: "log_run l es l1 \<Longrightarrow> log_room ts recs l1 \<Longrightarrow> LogAppend ts recs l1 = (r, l2) \<Longrightarrow>
    log_run l (es @ [EvAppend ts recs r]) l2"
| read: "log_run l es l1 \<Longrightarrow> LogRead off mb l1 = (r, l2) \<Longrightarrow> log_run l (es @ [EvRead off mb r]) l2"
| retain: "log_run l es l1 \<Longrightarrow> LogApplyRetention now maxAge maxBytes l1 = (r, l2) \<Longrightarrow>
    log_run l (es @ [EvRetain now maxAge maxBytes r]) l2"

inductive_cases log_run_snocE: "log_run l (es @ [e]) l'"

text \<open>The records an event has acknowledged, and those it has returned.\<close>

fun acked :: "log_event \<Rightarrow> stored_record list" where
  "acked (EvAppend ts recs (Inr (base, lst))) = stamp base ts recs"
| "acked _ = []"

fun returned :: "log_event \<Rightarrow> stored_record list" where
  "returned (EvRead off mb (Inr rs)) = rs"
| "returned _ = []"

definition history :: "stored_record list \<Rightarrow> log_event list \<Rightarrow> stored_record list" where
  "history log es = log @ concat (map acked es)"

lemma history_snoc [simp]: "history log (es @ [e]) = history log es @ acked e" "history log [] = log"
  by (simp_all add: history_def)

text \<open>In service with what retention has left of the history, or out of service for good.\<close>

definition log_state :: "stored_record list \<Rightarrow> Log \<Rightarrow> bool" where
  "log_state hist l \<longleftrightarrow> writeFailed (logStore l) \<or> (\<exists>k \<le> length hist. log_healthy l (drop k hist))"

definition contiguous :: "stored_record list \<Rightarrow> stored_record list \<Rightarrow> bool" where
  "contiguous rs hist \<longleftrightarrow> (\<exists>xs ys. hist = xs @ rs @ ys)"

lemma contiguous_Nil [simp]: "contiguous [] hist"
  by (auto simp: contiguous_def)

lemma contiguous_append: "contiguous rs hist \<Longrightarrow> contiguous rs (hist @ zs)"
  unfolding contiguous_def by (metis append.assoc)

lemma contiguous_window: "contiguous (window mb (drop n (drop k hist))) hist"
proof -
  obtain zs where "drop n (drop k hist) = window mb (drop n (drop k hist)) @ zs" using window_prefix by blast
  then show ?thesis unfolding contiguous_def by (metis append_take_drop_id drop_drop)
qed

lemma LogAppend_failed:
  assumes "writeFailed (logStore l)" "LogAppend ts recs l = (r, l')"
  shows "writeFailed (logStore l') \<and> (\<exists>e. r = Inl e)"
  using assms by (auto simp: LogAppend_def Append_def append_locked_def split: if_splits)

lemma LogRead_failed:
  assumes "writeFailed (logStore l)" "LogRead off mb l = (r, l')"
  shows "writeFailed (logStore l') \<and> (\<exists>e. r = Inl e)"
  using assms by (auto simp: LogRead_def Read_def read_locked_def split: if_splits)

lemma state_append:
  assumes "log_state hist l" "log_room ts recs l" "LogAppend ts recs l = (r, l')"
  shows "log_state (hist @ acked (EvAppend ts recs r)) l'"
proof (cases "writeFailed (logStore l)")
  case True
  then show ?thesis using LogAppend_failed [OF True assms(3)] by (auto simp: log_state_def)
next
  case False
  then obtain k where k: "k \<le> length hist" "log_healthy l (drop k hist)" using assms(1) by (auto simp: log_state_def)
  note A = LogAppend_ok(1) [OF k(2) assms(2,3)]
  show ?thesis
  proof (cases r)
    case (Inl e)
    then show ?thesis using A k(1) by (auto simp: log_state_def)
  next
    case (Inr x)
    obtain base lst where x: "x = (base, lst)" by fastforce
    have "log_healthy l' (drop k (hist @ stamp base ts recs))" using A k(1) by (auto simp: Inr x)
    then show ?thesis using k(1) unfolding log_state_def Inr x by (intro disjI2 exI [of _ k]) simp
  qed
qed

lemma state_read:
  assumes "log_state hist l" "LogRead off mb l = (r, l')"
  shows "log_state hist l' \<and> contiguous (returned (EvRead off mb r)) hist"
proof (cases "writeFailed (logStore l)")
  case True
  then show ?thesis using LogRead_failed [OF True assms(2)] by (auto simp: log_state_def)
next
  case False
  then obtain k where k: "k \<le> length hist" "log_healthy l (drop k hist)" using assms(1) by (auto simp: log_state_def)
  show ?thesis
  proof (cases "0 < mb \<and> LogEarliestOffset l \<le> off \<and> off \<le> LogLogEndOffset l")
    case True
    then have c: "0 < mb" "LogEarliestOffset l \<le> off" "off \<le> LogLogEndOffset l" by blast+
    note R = LogRead_ok [OF k(2) c assms(2)]
    have "contiguous (returned (EvRead off mb r)) hist"
    proof (cases r)
      case (Inr x)
      then have "x = window mb (drop (unat off - unat (LogEarliestOffset l)) (drop k hist))" using R(4) by (simp del: drop_drop)
      then show ?thesis unfolding Inr by (simp only: returned.simps contiguous_window)
    qed simp
    then show ?thesis using R(1) k(1) by (auto simp: log_state_def)
  next
    case False
    obtain bss where bss: "store_repr (logStore l) (logDisk l) bss" "drop k hist = concat (concat bss)" using k(2) by (rule log_healthyE)
    have "\<exists>ev e. Read off mb (logStore l) (logDisk l) = (Inl e, observe ev (logStore l), logDisk l)"
      using Read_range [OF bss(1), of mb off] False
      by (cases "0 < mb") (auto simp: LogEarliestOffset_def LogLogEndOffset_def EarliestOffset_def LogEndOffset_def Read_def read_locked_def not_le)
    then obtain ev e where rd: "Read off mb (logStore l) (logDisk l) = (Inl e, observe ev (logStore l), logDisk l)" by blast
    have "r = Inl e" "l' = \<lparr>logStore = observe ev (logStore l), logDisk = logDisk l\<rparr>"
      using assms(2) by (auto simp: LogRead_def rd)
    then show ?thesis using k bss by (auto simp: log_state_def log_healthy_def)
  qed
qed

lemma state_retain:
  assumes "log_state hist l" "LogApplyRetention now maxAge mb l = (r, l')"
  shows "log_state hist l'"
proof (cases "writeFailed (logStore l)")
  case True
  then show ?thesis using assms by (auto simp: log_state_def LogApplyRetention_def ApplyRetention_def)
next
  case False
  then obtain k where k: "k \<le> length hist" "log_healthy l (drop k hist)" using assms(1) by (auto simp: log_state_def)
  obtain bss where bss: "store_repr (logStore l) (logDisk l) bss" "drop k hist = concat (concat bss)" using k(2) by (rule log_healthyE)
  obtain r0 s' d' where ar: "ApplyRetention now maxAge mb (logStore l) (logDisk l) = (r0, s', d')" by (metis surj_pair)
  obtain j where "store_repr s' d' (drop j bss)" using ApplyRetention_ok [OF bss(1) ar] by (auto simp: trimmed_def)
  moreover have "concat (concat (drop j bss)) = drop (length (concat (concat (take j bss)))) (drop k hist)"
    unfolding bss(2) by (metis append_eq_conv_conj append_take_drop_id concat_append)
  ultimately have "log_healthy l' (drop (length (concat (concat (take j bss)))) (drop k hist))"
    using assms(2) by (auto simp: LogApplyRetention_def ar log_healthy_def)
  moreover have "length (concat (concat (take j bss))) \<le> length (concat (concat bss))"
    by (metis append_take_drop_id concat_append length_append le_add1)
  ultimately show ?thesis
    using k(1) arg_cong [OF bss(2), of length] unfolding log_state_def
    by (intro disjI2 exI [of _ "length (concat (concat (take j bss))) + k"]) simp
qed

section \<open>Properties\<close>

lemma sample_log: "log_holds \<lparr>logStore = sample_store, logDisk = sample_disk\<rparr> sample_batch"
  "log_accepts 5 sample_recs \<lparr>logStore = sample_store, logDisk = sample_disk\<rparr>"
  "LogLogEndOffset \<lparr>logStore = sample_store, logDisk = sample_disk\<rparr> = 9"
  "LogEarliestOffset \<lparr>logStore = sample_store, logDisk = sample_disk\<rparr> = 7"
proof -
  show "log_holds \<lparr>logStore = sample_store, logDisk = sample_disk\<rparr> sample_batch"
    using sample_repr by (auto simp: log_holds_def log_healthy_def sample_fields intro!: exI [of _ "[[sample_batch], []]"])
  show "log_accepts 5 sample_recs \<lparr>logStore = sample_store, logDisk = sample_disk\<rparr>"
    using sample_append_ok sample_append_length
    by (simp add: log_accepts_def log_room_def LogLogEndOffset_def LogEndOffset_def sample_fields) (simp add: sample_recs_def)
qed (simp_all add: LogLogEndOffset_def LogEndOffset_def LogEarliestOffset_def EarliestOffset_def sample_fields)



text \<open>
  C18. A consumer that polls from the offset of the \<open>k\<close>-th record on, with any positive byte limit, gets
  to the end of the log in at most as many requests as there are records, plus one, and has then
  seen each of them exactly once and in order.
\<close>

theorem log_consumer_sees_all:
  assumes "log_holds l rs" "0 < mb" "unat off = unat (LogEarliestOffset l) + k" "k \<le> length rs" "length rs - k < n"
  shows "consume LogRead n off mb l = drop k rs"
  by (rule pl.consume_all [OF assms])

theorem log_consumer_sees_all_witness:
  "consume LogRead 3 7 1 \<lparr>logStore = sample_store, logDisk = sample_disk\<rparr> = sample_batch"
  using log_consumer_sees_all [OF sample_log(1), of 1 7 0 3] by (simp add: sample_log(4) sample_batch_def)

end
