(* ===== verification/Topic_Manager.thy ===== *)
theory Topic_Manager
  imports Json Partition_Log
begin

text \<open>
  The topic manager (\<^verbatim>\<open>internal/topic/manager.go\<close>): the registry of topics, the metadata file
  \<^verbatim>\<open>metadata/topics.json\<close> that it is rebuilt from, and the partition logs of the topics. The order in which
  Go iterates over a map is not fixed; where it could be observed it is an argument.
\<close>

section \<open>State\<close>

record RetentionPolicy =
  rpMaxAgeSeconds :: u64
  rpMaxBytes :: u64

record Topic =
  tName :: gostring
  tPartitions :: "Log list"
  tRetention :: RetentionPolicy

record DiskTopic =
  dtName :: gostring
  dtPartitionCount :: int
  dtRetention :: RetentionPolicy

text \<open>A Go map is an association list without duplicate keys; \<open>None\<close> is the nil map.\<close>

type_synonym TopicsMetadata = "(gostring \<times> DiskTopic) list option"

record Manager =
  mTopics :: "(gostring \<times> Topic) list"
  mSegmentMaxBytes :: int
  mMaxBatchBytes :: int
  mIndexIntervalBytes :: int
  mFlushMode :: gostring
  mDefaultMaxAgeSeconds :: u64
  mDefaultMaxBytes :: u64

text \<open>
  The data directory: the directory of the metadata file, and the partition directories by their
  path. A directory that a log has open is in the log; \<open>newFaults\<close> are the faults that the calls in a
  directory that does not exist yet will meet.
\<close>

record data_dir =
  metaDisk :: disk
  partDirs :: "gostring \<rightharpoonup> disk"
  newFaults :: "gostring \<Rightarrow> fault list"

definition MaxPartitionsPerTopic :: int where
  "MaxPartitionsPerTopic = 1024"

text \<open>The regular expression \<^verbatim>\<open>^[a-zA-Z0-9][a-zA-Z0-9._-]{0,254}$\<close>.\<close>

definition alnum :: "byte \<Rightarrow> bool" where
  "alnum b \<longleftrightarrow> in_range 97 122 b \<or> in_range 65 90 b \<or> in_range 48 57 b"

definition name_byte :: "byte \<Rightarrow> bool" where
  "name_byte b \<longleftrightarrow> alnum b \<or> b = 46 \<or> b = 95 \<or> b = 45"

definition topicNameRegex :: "gostring \<Rightarrow> bool" where
  "topicNameRegex s \<longleftrightarrow> s \<noteq> [] \<and> alnum (hd s) \<and> list_all name_byte (tl s) \<and> length (tl s) \<le> 254"

definition PartitionCount :: "Topic \<Rightarrow> nat" where
  "PartitionCount t = length (tPartitions t)"

definition Partition :: "u32 \<Rightarrow> Topic \<Rightarrow> err + Log" where
  "Partition pid t =
     (if pid \<ge> of_nat (length (tPartitions t)) then Inl ErrPartitionNotFound else Inr (tPartitions t ! unat pid))"

definition SetRetentionDefaults :: "u64 \<Rightarrow> u64 \<Rightarrow> Manager \<Rightarrow> Manager" where
  "SetRetentionDefaults age bytes m = m\<lparr>mDefaultMaxAgeSeconds := age, mDefaultMaxBytes := bytes\<rparr>"

section \<open>The metadata file\<close>

definition itoa_int :: "int \<Rightarrow> gostring" where
  "itoa_int n = (if n < 0 then 45 # itoa (nat (- n)) else itoa (nat n))"

definition retention_json :: "RetentionPolicy \<Rightarrow> json" where
  "retention_json r =
     JObj [(str ''max_age_seconds'', JNum (itoa (unat (rpMaxAgeSeconds r)))),
           (str ''max_bytes'', JNum (itoa (unat (rpMaxBytes r))))]"

definition topic_json :: "DiskTopic \<Rightarrow> json" where
  "topic_json dt =
     JObj [(str ''name'', JStr (dtName dt)), (str ''partition_count'', JNum (itoa_int (dtPartitionCount dt))),
           (str ''retention'', retention_json (dtRetention dt))]"

text \<open>The keys of a map are printed in order.\<close>

definition metadata_json :: "TopicsMetadata \<Rightarrow> json" where
  "metadata_json meta =
     JObj [(str ''topics'', case meta of None \<Rightarrow> JNull
        | Some ts \<Rightarrow> JObj (map (\<lambda>(k, dt). (k, topic_json dt)) (sort_key fst ts)))]"

definition MarshalMetadata :: "TopicsMetadata \<Rightarrow> bytes" where
  "MarshalMetadata meta = MarshalIndent 0 (metadata_json meta)"

text \<open>
  A member of an object sets the field with its name, compared without regard to case; other members
  are ignored, and \<^verbatim>\<open>null\<close> leaves a field as it is. The two non-ASCII characters whose lower case is
  an ASCII letter count as that letter.
\<close>

fun fold_name :: "gostring \<Rightarrow> gostring" where
  "fold_name [] = []"
| "fold_name (a # as) =
     (if a = 0xC5 \<and> take 1 as = [0xBF] then 115 # fold_name (drop 1 as)
      else if a = 0xE2 \<and> take 2 as = [0x84, 0xAA] then 107 # fold_name (drop 2 as)
      else (if in_range 65 90 a then a + 32 else a) # fold_name as)"

fun decode_uint :: "json \<Rightarrow> u64 \<Rightarrow> err + u64" where
  "decode_uint JNull old = Inr old"
| "decode_uint (JNum s) old = (case ParseUint64 s of None \<Rightarrow> Inl ErrMalformedMetadata | Some n \<Rightarrow> Inr n)"
| "decode_uint _ old = Inl ErrMalformedMetadata"

fun decode_int :: "json \<Rightarrow> int \<Rightarrow> err + int" where
  "decode_int JNull old = Inr old"
| "decode_int (JNum s) old = (case ParseInt64 s of None \<Rightarrow> Inl ErrMalformedMetadata | Some n \<Rightarrow> Inr n)"
| "decode_int _ old = Inl ErrMalformedMetadata"

fun decode_string :: "json \<Rightarrow> gostring \<Rightarrow> err + gostring" where
  "decode_string JNull old = Inr old"
| "decode_string (JStr s) old = Inr s"
| "decode_string _ old = Inl ErrMalformedMetadata"

text \<open>An object is read member by member into the value so far.\<close>

fun decode_object :: "(gostring \<Rightarrow> json \<Rightarrow> 'a \<Rightarrow> err + 'a) \<Rightarrow> json \<Rightarrow> 'a \<Rightarrow> err + 'a" where
  "decode_object f JNull old = Inr old"
| "decode_object f (JObj ms) old = foldl (\<lambda>r (k, v). rbind r (f k v)) (Inr old) ms"
| "decode_object f _ old = Inl ErrMalformedMetadata"

definition decode_retention_field :: "gostring \<Rightarrow> json \<Rightarrow> RetentionPolicy \<Rightarrow> err + RetentionPolicy" where
  "decode_retention_field k v r =
     (if fold_name k = str ''max_age_seconds'' then
        rbind (decode_uint v (rpMaxAgeSeconds r)) (\<lambda>n. Inr (r\<lparr>rpMaxAgeSeconds := n\<rparr>))
      else if fold_name k = str ''max_bytes'' then
        rbind (decode_uint v (rpMaxBytes r)) (\<lambda>n. Inr (r\<lparr>rpMaxBytes := n\<rparr>))
      else Inr r)"

definition decode_topic_field :: "gostring \<Rightarrow> json \<Rightarrow> DiskTopic \<Rightarrow> err + DiskTopic" where
  "decode_topic_field k v dt =
     (if fold_name k = str ''name'' then rbind (decode_string v (dtName dt)) (\<lambda>s. Inr (dt\<lparr>dtName := s\<rparr>))
      else if fold_name k = str ''partition_count'' then
        rbind (decode_int v (dtPartitionCount dt)) (\<lambda>n. Inr (dt\<lparr>dtPartitionCount := n\<rparr>))
      else if fold_name k = str ''retention'' then
        rbind (decode_object decode_retention_field v (dtRetention dt)) (\<lambda>r. Inr (dt\<lparr>dtRetention := r\<rparr>))
      else Inr dt)"

definition zero_topic :: DiskTopic where
  "zero_topic = \<lparr>dtName = [], dtPartitionCount = 0, dtRetention = \<lparr>rpMaxAgeSeconds = 0, rpMaxBytes = 0\<rparr>\<rparr>"

definition decode_map_entry :: "gostring \<Rightarrow> json \<Rightarrow> (gostring \<times> DiskTopic) list \<Rightarrow> err + (gostring \<times> DiskTopic) list" where
  "decode_map_entry k v ts = rbind (decode_object decode_topic_field v zero_topic) (\<lambda>dt. Inr (AList.update k dt ts))"

text \<open>\<^verbatim>\<open>null\<close> makes a map nil; an object is added to the map that is there.\<close>

definition decode_metadata_field :: "gostring \<Rightarrow> json \<Rightarrow> TopicsMetadata \<Rightarrow> err + TopicsMetadata" where
  "decode_metadata_field k v meta =
     (if fold_name k = str ''topics'' then
        (if v = JNull then Inr None
         else rbind (decode_object decode_map_entry v (case meta of None \<Rightarrow> [] | Some ts \<Rightarrow> ts)) (\<lambda>ts. Inr (Some ts)))
      else Inr meta)"

definition UnmarshalMetadata :: "bytes \<Rightarrow> TopicsMetadata \<Rightarrow> err + TopicsMetadata" where
  "UnmarshalMetadata data meta =
     (case parse_json data of
        None \<Rightarrow> Inl ErrMalformedMetadata
      | Some v \<Rightarrow> decode_object decode_metadata_field v meta)"

definition metadataFile :: gostring where
  "metadataFile = str ''topics.json''"

definition metadataTmp :: gostring where
  "metadataTmp = metadataFile @ str ''.tmp''"

definition ReadFile :: "gostring \<Rightarrow> disk \<Rightarrow> (err + bytes) \<times> disk" where
  "ReadFile p d =
     (case sys_open p d of
        (Inl e, d) \<Rightarrow> (Inl e, d)
      | (Inr _, d) \<Rightarrow>
          (case sys_pread p 0 (length (content d p)) d of
             (ReadOk bs, d) \<Rightarrow> (Inr bs, d)
           | (ReadEOF bs, d) \<Rightarrow> (Inr bs, d)
           | (ReadErr e, d) \<Rightarrow> (Inl e, d)))"

text \<open>The metadata to merge the new topic into: an empty map when there is no file.\<close>

definition read_metadata :: "disk \<Rightarrow> (err + TopicsMetadata) \<times> disk" where
  "read_metadata d =
     (case sys_stat metadataFile d of
        (Inl e, d) \<Rightarrow> if e = ENOENT then (Inr (Some []), d) else (Inl e, d)
      | (Inr _, d) \<Rightarrow>
          (case ReadFile metadataFile d of
             (Inl e, d) \<Rightarrow> (Inl e, d)
           | (Inr data, d) \<Rightarrow> (UnmarshalMetadata data (Some []), d)))"

definition discard_tmp :: "disk \<Rightarrow> disk" where
  "discard_tmp d = snd (sys_remove metadataTmp (snd (sys_close d)))"

definition meta_syncDirectory :: "disk \<Rightarrow> err option \<times> disk" where
  "meta_syncDirectory d =
     (case sys_opendir d of
        (Inl e, d) \<Rightarrow> (Some e, d)
      | (Inr _, d) \<Rightarrow> let (r, d) = sys_syncdir d in (err_of r, snd (sys_close d)))"

text \<open>The new content goes to a temporary file, which is flushed and renamed; the result says whether the rename was done.\<close>

definition write_metadata :: "bytes \<Rightarrow> disk \<Rightarrow> bool \<times> err option \<times> disk" where
  "write_metadata data d =
     (case sys_open_trunc metadataTmp d of
        (Inl e, d) \<Rightarrow> (False, Some e, d)
      | (Inr _, d) \<Rightarrow>
      (case sys_pwrite metadataTmp 0 data d of
        ((_, Some e), d) \<Rightarrow> (False, Some e, discard_tmp d)
      | ((n, None), d) \<Rightarrow>
          if n \<noteq> length data then (False, Some ErrShortWrite, discard_tmp d)
          else
          (case sys_fsync metadataTmp d of
             (Inl e, d) \<Rightarrow> (False, Some e, discard_tmp d)
           | (Inr _, d) \<Rightarrow>
           (case sys_close d of
             (Inl e, d) \<Rightarrow> (False, Some e, snd (sys_remove metadataTmp d))
           | (Inr _, d) \<Rightarrow>
           (case sys_rename metadataTmp metadataFile d of
             (Inl e, d) \<Rightarrow> (False, Some e, snd (sys_remove metadataTmp d))
           | (Inr _, d) \<Rightarrow> (True, meta_syncDirectory d))))))"

text \<open>A write to a nil map panics.\<close>

definition saveMetadata :: "gostring \<Rightarrow> DiskTopic \<Rightarrow> disk \<Rightarrow> bool \<times> err option \<times> disk" where
  "saveMetadata newName newTopic d =
     (case sys_mkdir d of
        (Inl e, d) \<Rightarrow> (False, Some e, d)
      | (Inr _, d) \<Rightarrow>
      (case read_metadata d of
        (Inl e, d) \<Rightarrow> (False, Some e, d)
      | (Inr None, d) \<Rightarrow> (False, Some GoPanic, d)
      | (Inr (Some ts), d) \<Rightarrow> write_metadata (MarshalMetadata (Some (AList.update newName newTopic ts))) d))"

section \<open>Partition directories\<close>

text \<open>The path of a partition, relative to the data directory.\<close>

definition pDir :: "gostring \<Rightarrow> nat \<Rightarrow> gostring" where
  "pDir name i = str ''topics/'' @ name @ str ''/partition-'' @ itoa i"

definition open_dir :: "gostring \<Rightarrow> data_dir \<Rightarrow> disk" where
  "open_dir p fs =
     (case partDirs fs p of Some d \<Rightarrow> d | None \<Rightarrow> \<lparr>files = [], flushed = [], entries = [], faults = newFaults fs p\<rparr>)"

definition take_dir :: "gostring \<Rightarrow> data_dir \<Rightarrow> data_dir" where
  "take_dir p fs = fs\<lparr>partDirs := (partDirs fs)(p := None)\<rparr>"

definition put_dir :: "gostring \<Rightarrow> disk \<Rightarrow> data_dir \<Rightarrow> data_dir" where
  "put_dir p d fs = fs\<lparr>partDirs := (partDirs fs)(p \<mapsto> d)\<rparr>"

text \<open>\<^verbatim>\<open>os.RemoveAll\<close>; when it fails, some of the files are left.\<close>

definition remove_all :: "gostring \<Rightarrow> data_dir \<Rightarrow> data_dir" where
  "remove_all p fs =
     (case partDirs fs p of
        None \<Rightarrow> fs
      | Some d \<Rightarrow>
          (case next_fault d of
             (Fault k, d) \<Rightarrow> put_dir p (d\<lparr>files := take k (files d)\<rparr>) fs
           | _ \<Rightarrow> take_dir p fs))"

text \<open>Opening the partitions \<open>i\<close>, \<open>i + 1\<close>, \<open>\<dots>\<close> of a topic: the logs that were opened, and the error that stopped it.\<close>

fun open_partitions :: "Manager \<Rightarrow> gostring \<Rightarrow> nat \<Rightarrow> nat \<Rightarrow> Log list \<Rightarrow> data_dir \<Rightarrow> err option \<times> Log list \<times> data_dir" where
  "open_partitions m name i 0 logs fs = (None, logs, fs)"
| "open_partitions m name i (Suc n) logs fs =
     (let p = pDir name i;
          (r, d) = NewLog (mSegmentMaxBytes m) (mMaxBatchBytes m) (mIndexIntervalBytes m) (mFlushMode m) (open_dir p fs) in
      case r of
        Inl e \<Rightarrow> (Some e, logs, put_dir p d fs)
      | Inr l \<Rightarrow> open_partitions m name (Suc i) n (logs @ [l]) (take_dir p fs))"

text \<open>Closing the logs of the partitions \<open>i\<close>, \<open>i + 1\<close>, \<open>\<dots>\<close> gives their directories back.\<close>

fun close_partitions :: "gostring \<Rightarrow> nat \<Rightarrow> Log list \<Rightarrow> data_dir \<Rightarrow> err option \<times> data_dir" where
  "close_partitions name i [] fs = (None, fs)"
| "close_partitions name i (l # ls) fs =
     (let (e1, l) = LogClose l;
          (e2, fs) = close_partitions name (Suc i) ls (put_dir (pDir name i) (logDisk l) fs)
      in (join_err e1 e2, fs))"

definition rollback :: "gostring \<Rightarrow> nat \<Rightarrow> Log list \<Rightarrow> data_dir \<Rightarrow> data_dir" where
  "rollback name created logs fs =
     fold (\<lambda>i. remove_all (pDir name i)) [0..<created] (snd (close_partitions name 0 logs fs))"

section \<open>Operations\<close>

definition default_retention :: "RetentionPolicy \<Rightarrow> Manager \<Rightarrow> RetentionPolicy" where
  "default_retention r m =
     \<lparr>rpMaxAgeSeconds = (if rpMaxAgeSeconds r = 0 then mDefaultMaxAgeSeconds m else rpMaxAgeSeconds r),
      rpMaxBytes = (if rpMaxBytes r = 0 then mDefaultMaxBytes m else rpMaxBytes r)\<rparr>"

text \<open>
  After a panic the process ends with the logs open: their directories are as they are, and nothing is
  rolled back.
\<close>

definition leave_logs :: "gostring \<Rightarrow> Log list \<Rightarrow> data_dir \<Rightarrow> data_dir" where
  "leave_logs name logs fs = fold (\<lambda>(i, l). put_dir (pDir name i) (logDisk l)) (enumerate 0 logs) fs"

definition CreateTopic :: "gostring \<Rightarrow> int \<Rightarrow> RetentionPolicy \<Rightarrow> Manager \<Rightarrow> data_dir \<Rightarrow> (err + Topic) \<times> Manager \<times> data_dir" where
  "CreateTopic name partitionCount retention m fs =
     (if \<not> topicNameRegex name then (Inl ErrInvalidTopicName, m, fs)
      else if partitionCount \<le> 0 then (Inl ErrPartitionCount, m, fs)
      else if partitionCount > MaxPartitionsPerTopic then (Inl ErrTooManyPartitions, m, fs)
      else if map_of (mTopics m) name \<noteq> None then (Inl ErrTopicExists, m, fs)
      else
      let retention = default_retention retention m in
      case open_partitions m name 0 (nat partitionCount) [] fs of
        (Some e, logs, fs) \<Rightarrow>
          (Inl e, m, if e = GoPanic then leave_logs name logs fs else rollback name (Suc (length logs)) logs fs)
      | (None, logs, fs) \<Rightarrow>
          let topic = \<lparr>tName = name, tPartitions = logs, tRetention = retention\<rparr>;
              (committed, e, md) = saveMetadata name \<lparr>dtName = name, dtPartitionCount = partitionCount, dtRetention = retention\<rparr> (metaDisk fs);
              fs = fs\<lparr>metaDisk := md\<rparr> in
          if e = Some GoPanic then (Inl GoPanic, m, leave_logs name logs fs)
          else
          (case e of
             Some e \<Rightarrow>
               if \<not> committed then (Inl e, m, rollback name (nat partitionCount) logs fs)
               else (Inr topic, m\<lparr>mTopics := AList.update name topic (mTopics m)\<rparr>, fs)
           | None \<Rightarrow> (Inr topic, m\<lparr>mTopics := AList.update name topic (mTopics m)\<rparr>, fs)))"

definition GetTopic :: "gostring \<Rightarrow> Manager \<Rightarrow> err + Topic" where
  "GetTopic name m = (case map_of (mTopics m) name of None \<Rightarrow> Inl ErrTopicNotFound | Some t \<Rightarrow> Inr t)"

text \<open>\<open>order\<close> is the order of the iteration over the map.\<close>

definition ListTopics :: "gostring list \<Rightarrow> Manager \<Rightarrow> Topic list" where
  "ListTopics order m = sort_key tName (List.map_filter (map_of (mTopics m)) order)"

definition GetPartition :: "gostring \<Rightarrow> u32 \<Rightarrow> Manager \<Rightarrow> err + Log" where
  "GetPartition topicName partitionID m =
     (case map_of (mTopics m) topicName of None \<Rightarrow> Inl ErrTopicNotFound | Some t \<Rightarrow> Partition partitionID t)"

text \<open>What a caller did to the log that \<^verbatim>\<open>GetPartition\<close> gave it: the topic holds the same log.\<close>

definition set_partition :: "gostring \<Rightarrow> nat \<Rightarrow> Log \<Rightarrow> Manager \<Rightarrow> Manager" where
  "set_partition name i l m =
     (case map_of (mTopics m) name of
        None \<Rightarrow> m
      | Some t \<Rightarrow> m\<lparr>mTopics := AList.update name (t\<lparr>tPartitions := (tPartitions t)[i := l]\<rparr>) (mTopics m)\<rparr>)"

fun close_topics :: "(gostring \<times> Topic) list \<Rightarrow> data_dir \<Rightarrow> err option \<times> data_dir" where
  "close_topics [] fs = (None, fs)"
| "close_topics ((name, t) # ts) fs =
     (let (e1, fs) = close_partitions name 0 (tPartitions t) fs; (e2, fs) = close_topics ts fs in (join_err e1 e2, fs))"

text \<open>When the process ends in a panic, the directories stay as the open logs left them.\<close>

definition leave_topics :: "(gostring \<times> Topic) list \<Rightarrow> data_dir \<Rightarrow> data_dir" where
  "leave_topics ts fs = fold (\<lambda>(name, t). leave_logs name (tPartitions t)) ts fs"

definition ManagerClose :: "Manager \<Rightarrow> data_dir \<Rightarrow> err option \<times> data_dir" where
  "ManagerClose m fs = close_topics (mTopics m) fs"

section \<open>Start\<close>

text \<open>The partitions of a topic named in the metadata; a directory that is missing is an error.\<close>

fun reopen_partitions :: "Manager \<Rightarrow> gostring \<Rightarrow> nat \<Rightarrow> nat \<Rightarrow> Log list \<Rightarrow> data_dir \<Rightarrow> err option \<times> Log list \<times> data_dir" where
  "reopen_partitions m name i 0 logs fs = (None, logs, fs)"
| "reopen_partitions m name i (Suc n) logs fs =
     (let p = pDir name i in
      if partDirs fs p = None then (Some ErrMissingPartition, logs, fs)
      else
      let (r, d) = NewLog (mSegmentMaxBytes m) (mMaxBatchBytes m) (mIndexIntervalBytes m) (mFlushMode m) (open_dir p fs) in
      case r of
        Inl e \<Rightarrow> (Some e, logs, put_dir p d fs)
      | Inr l \<Rightarrow> reopen_partitions m name (Suc i) n (logs @ [l]) (take_dir p fs))"

definition load_topic :: "gostring \<Rightarrow> DiskTopic \<Rightarrow> Manager \<Rightarrow> data_dir \<Rightarrow> (err + Manager) \<times> data_dir" where
  "load_topic name dt m fs =
     (if name \<noteq> dtName dt then (Inl ErrMetadataCorruption, snd (ManagerClose m fs))
      else if \<not> topicNameRegex (dtName dt) then (Inl ErrMetadataCorruption, snd (ManagerClose m fs))
      else if dtPartitionCount dt < 1 \<or> dtPartitionCount dt > MaxPartitionsPerTopic
      then (Inl ErrMetadataCorruption, snd (ManagerClose m fs))
      else
      case reopen_partitions m name 0 (nat (dtPartitionCount dt)) [] fs of
        (Some e, logs, fs) \<Rightarrow>
          (Inl e, if e = GoPanic then leave_topics (mTopics m) (leave_logs name logs fs)
             else snd (ManagerClose m (snd (close_partitions name 0 logs fs))))
      | (None, logs, fs) \<Rightarrow>
          (Inr (m\<lparr>mTopics := AList.update name \<lparr>tName = dtName dt, tPartitions = logs, tRetention = dtRetention dt\<rparr> (mTopics m)\<rparr>), fs))"

fun load_topics :: "gostring list \<Rightarrow> (gostring \<times> DiskTopic) list \<Rightarrow> Manager \<Rightarrow> data_dir \<Rightarrow> (err + Manager) \<times> data_dir" where
  "load_topics [] meta m fs = (Inr m, fs)"
| "load_topics (name # order) meta m fs =
     (case map_of meta name of
        None \<Rightarrow> load_topics order meta m fs
      | Some dt \<Rightarrow>
          (case load_topic name dt m fs of
             (Inl e, fs) \<Rightarrow> (Inl e, fs)
           | (Inr m, fs) \<Rightarrow> load_topics order meta m fs))"

text \<open>
  Any error of \<^verbatim>\<open>os.Stat\<close> is taken for a missing file: the manager starts without topics. \<open>order\<close> is the
  order of the iteration over the metadata.
\<close>

definition NewManager ::
  "(TopicsMetadata \<Rightarrow> gostring list) \<Rightarrow> int \<Rightarrow> int \<Rightarrow> int \<Rightarrow> gostring \<Rightarrow> data_dir \<Rightarrow> (err + Manager) \<times> data_dir" where
  "NewManager order segMax batchMax interval mode fs =
     (let mgr = \<lparr>mTopics = [], mSegmentMaxBytes = segMax, mMaxBatchBytes = batchMax, mIndexIntervalBytes = interval,
                 mFlushMode = mode, mDefaultMaxAgeSeconds = 0, mDefaultMaxBytes = 0\<rparr> in
      case sys_stat metadataFile (metaDisk fs) of
        (Inl e, md) \<Rightarrow> (Inr mgr, fs\<lparr>metaDisk := md\<rparr>)
      | (Inr _, md) \<Rightarrow>
          (case ReadFile metadataFile md of
             (Inl e, md) \<Rightarrow> (Inl e, fs\<lparr>metaDisk := md\<rparr>)
           | (Inr data, md) \<Rightarrow>
               let fs = fs\<lparr>metaDisk := md\<rparr> in
               (case UnmarshalMetadata data None of
                  Inl e \<Rightarrow> (Inl e, fs)
                | Inr None \<Rightarrow> (Inr mgr, fs)
                | Inr (Some ts) \<Rightarrow> load_topics (order (Some ts)) ts mgr fs)))"

section \<open>Retention\<close>

text \<open>\<^verbatim>\<open>time.Duration(MaxAgeSeconds) * time.Second\<close> on 64 bits.\<close>

definition retention_age :: "RetentionPolicy \<Rightarrow> i64" where
  "retention_age r = rpMaxAgeSeconds r * 1000000000"

text \<open>
  \<open>stop\<close> is the number of polls after which the context is cancelled, if ever; it is polled before and
  after every partition. \<open>now\<close> is the time at which the run reaches a partition.
\<close>

definition cancelled :: "nat option \<Rightarrow> nat \<Rightarrow> bool" where
  "cancelled stop k \<longleftrightarrow> (case stop of None \<Rightarrow> False | Some n \<Rightarrow> n \<le> k)"

definition retention_targets :: "gostring list \<Rightarrow> Manager \<Rightarrow> (gostring \<times> nat \<times> i64 \<times> u64) list" where
  "retention_targets order m =
     concat (map (\<lambda>name. case map_of (mTopics m) name of
         None \<Rightarrow> []
       | Some t \<Rightarrow> map (\<lambda>i. (name, i, retention_age (tRetention t), rpMaxBytes (tRetention t))) [0..<length (tPartitions t)]) order)"

fun apply_targets :: "(gostring \<Rightarrow> nat \<Rightarrow> int) \<Rightarrow> nat option \<Rightarrow> nat \<Rightarrow> (gostring \<times> nat \<times> i64 \<times> u64) list \<Rightarrow> Manager \<Rightarrow> Manager" where
  "apply_targets now stop k [] m = m"
| "apply_targets now stop k ((name, i, maxAge, bytes) # ts) m =
     (if cancelled stop k then m
      else
      case map_of (mTopics m) name of
        None \<Rightarrow> m
      | Some t \<Rightarrow>
          let (e, l) = LogApplyRetention (now name i) maxAge bytes (tPartitions t ! i);
              m = set_partition name i l m in
          if cancelled stop (Suc k) then m else apply_targets now stop (Suc (Suc k)) ts m)"

definition ManagerApplyRetention :: "(gostring \<Rightarrow> nat \<Rightarrow> int) \<Rightarrow> nat option \<Rightarrow> gostring list \<Rightarrow> Manager \<Rightarrow> Manager" where
  "ManagerApplyRetention now stop order m = apply_targets now stop 0 (retention_targets order m) m"

end
