(* ===== verification/Topic_Metadata.thy ===== *)
theory Topic_Metadata
  imports Topic_Manager
begin

text \<open>
  The metadata file of the topic manager: what is written is read back, and a save replaces the file
  as a whole or leaves it. Partition directories of different partitions are different.
\<close>

section \<open>Reading what was written\<close>

lemma name_byte_safe: "name_byte b \<Longrightarrow> html_safe b"
  by (auto simp: name_byte_def alnum_def html_safe_def in_range_def)

lemma topic_name_bytes: "topicNameRegex s \<Longrightarrow> list_all name_byte s"
  by (cases s) (auto simp: topicNameRegex_def name_byte_def)

lemma topic_name_safe: "topicNameRegex s \<Longrightarrow> list_all html_safe s"
  using topic_name_bytes name_byte_safe by (auto simp: list_all_iff)

lemma fold_names [simp]:
  "fold_name (str ''topics'') = str ''topics''" "fold_name (str ''name'') = str ''name''"
  "fold_name (str ''partition_count'') = str ''partition_count''" "fold_name (str ''retention'') = str ''retention''"
  "fold_name (str ''max_age_seconds'') = str ''max_age_seconds''" "fold_name (str ''max_bytes'') = str ''max_bytes''"
  by (simp_all add: str_def in_range_def)

lemma field_names [simp]:
  "str ''name'' \<noteq> str ''partition_count''" "str ''retention'' \<noteq> str ''partition_count''" "str ''retention'' \<noteq> str ''name''"
  "str ''partition_count'' \<noteq> str ''name''" "str ''max_bytes'' \<noteq> str ''max_age_seconds''"
  by (simp_all add: str_def)

lemma field_names_safe [simp]:
  "list_all html_safe (str ''topics'')" "list_all html_safe (str ''name'')" "list_all html_safe (str ''partition_count'')"
  "list_all html_safe (str ''retention'')" "list_all html_safe (str ''max_age_seconds'')" "list_all html_safe (str ''max_bytes'')"
  by (simp_all add: str_def html_safe_def)

text \<open>A topic as the manager writes it: its key is its name, which is valid, with 1 to 1024 partitions.\<close>

definition disk_topic_ok :: "gostring \<Rightarrow> DiskTopic \<Rightarrow> bool" where
  "disk_topic_ok k dt \<longleftrightarrow> dtName dt = k \<and> topicNameRegex k \<and> 1 \<le> dtPartitionCount dt \<and> dtPartitionCount dt \<le> MaxPartitionsPerTopic"

definition metadata_ok :: "(gostring \<times> DiskTopic) list \<Rightarrow> bool" where
  "metadata_ok ts \<longleftrightarrow> distinct (map fst ts) \<and> (\<forall>(k, dt) \<in> set ts. disk_topic_ok k dt)"

lemma plain_topic_json:
  assumes "disk_topic_ok k dt"
  shows "plain_json (topic_json dt)" "json_depth (topic_json dt) = 2"
  using assms topic_name_safe [of k]
  by (auto simp: topic_json_def retention_json_def disk_topic_ok_def itoa_int_def)

lemma decode_topic_json:
  assumes "disk_topic_ok k dt"
  shows "decode_object decode_topic_field (topic_json dt) zero_topic = Inr dt"
proof -
  obtain n where n: "dtPartitionCount dt = int n" "n < 2 ^ 63"
    using assms nonneg_int_cases [of "dtPartitionCount dt"] by (auto simp: disk_topic_ok_def MaxPartitionsPerTopic_def)
  have "decode_object decode_retention_field (retention_json (dtRetention dt)) r = Inr (dtRetention dt)" for r
    by (simp add: retention_json_def decode_retention_field_def ParseUint64_itoa)
  then show ?thesis
    using n by (simp add: topic_json_def decode_topic_field_def itoa_int_def ParseInt64_itoa)
qed

lemma update_new: "k \<notin> fst ` set ts \<Longrightarrow> AList.update k v ts = ts @ [(k, v)]"
  by (induction ts) auto

lemma decode_entries:
  assumes "distinct (map fst (acc @ ts))" "\<forall>(k, dt) \<in> set ts. disk_topic_ok k dt"
  shows "foldl (\<lambda>r (k, v). rbind r (decode_map_entry k v)) (Inr acc) (map (\<lambda>(k, dt). (k, topic_json dt)) ts) = Inr (acc @ ts)"
  using assms
proof (induction ts arbitrary: acc)
  case (Cons x ts)
  obtain k dt where x: "x = (k, dt)" by fastforce
  have "decode_map_entry k (topic_json dt) acc = Inr (acc @ [(k, dt)])"
    using Cons.prems x decode_topic_json [of k dt] update_new [of k acc dt] by (simp add: decode_map_entry_def)
  then show ?case using Cons.IH [of "acc @ [x]"] Cons.prems x by simp
qed simp

lemma Unmarshal_Marshal:
  assumes "metadata_ok ts" "meta = None \<or> meta = Some []"
  shows "UnmarshalMetadata (MarshalMetadata (Some ts)) meta = Inr (Some (sort_key fst ts))"
proof -
  let ?ts = "sort_key fst ts"
  have s: "distinct (map fst ?ts)" "\<forall>(k, dt) \<in> set ?ts. disk_topic_ok k dt"
    using assms(1) by (auto simp: metadata_ok_def distinct_map)
  have pl: "plain_json (metadata_json (Some ts))"
    using s(2) plain_topic_json topic_name_safe by (fastforce simp: metadata_json_def disk_topic_ok_def)
  have "foldr max (map (\<lambda>(k, v). json_depth v) (map (\<lambda>(k, dt). (k, topic_json dt)) xs)) 0 \<le> 2"
    if "\<forall>(k, dt) \<in> set xs. disk_topic_ok k dt" for xs
    using that plain_topic_json(2) by (induction xs) fastforce+
  from this [OF s(2)] have dp: "json_depth (metadata_json (Some ts)) \<le> 10000" by (simp add: metadata_json_def)
  have "decode_object decode_metadata_field (metadata_json (Some ts)) meta = Inr (Some ?ts)"
    using decode_entries [of "[]" ?ts] s assms(2) by (auto simp: metadata_json_def decode_metadata_field_def)
  then show ?thesis using parse_print [OF pl dp] by (simp add: UnmarshalMetadata_def MarshalMetadata_def)
qed

lemma metadata_ok_sorted:
  assumes "metadata_ok ts"
  shows "metadata_ok (sort_key fst ts)" "map_of (sort_key fst ts) = map_of ts"
proof -
  show "metadata_ok (sort_key fst ts)" using assms by (auto simp: metadata_ok_def distinct_map)
  have "distinct (map fst (sort_key fst ts))" using assms by (auto simp: metadata_ok_def distinct_map)
  then show "map_of (sort_key fst ts) = map_of ts"
    using assms by (intro map_of_inject_set [THEN iffD2]) (auto simp: metadata_ok_def)
qed

lemma set_update: "set (AList.update k v ts) \<subseteq> insert (k, v) (set ts)"
  by (induction ts) auto

lemma metadata_ok_update:
  assumes "metadata_ok ts" "disk_topic_ok k dt"
  shows "metadata_ok (AList.update k dt ts)"
  using assms set_update [of k dt ts] by (fastforce simp: metadata_ok_def distinct_update)

text \<open>
  C26. The metadata file is read back as it was written: for every set of topics with valid names and
  partition counts, the JSON text that the manager writes gives the same topics again, with their
  counts and retention limits, whether it is read at the start or before a topic is added.
\<close>

theorem metadata_roundtrip:
  assumes "metadata_ok ts" "meta = None \<or> meta = Some []"
  shows "\<exists>ts'. UnmarshalMetadata (MarshalMetadata (Some ts)) meta = Inr (Some ts') \<and> metadata_ok ts' \<and> map_of ts' = map_of ts"
  using Unmarshal_Marshal [OF assms] metadata_ok_sorted [OF assms(1)] by blast

definition sample_disk_topic :: DiskTopic where
  "sample_disk_topic = \<lparr>dtName = str ''a.b'', dtPartitionCount = 2, dtRetention = \<lparr>rpMaxAgeSeconds = 60, rpMaxBytes = 1000\<rparr>\<rparr>"

lemma sample_name_ok: "topicNameRegex (str ''a.b'')"
  by (simp add: topicNameRegex_def str_def alnum_def name_byte_def in_range_def)

lemma sample_metadata_ok: "metadata_ok [(str ''a.b'', sample_disk_topic)]"
  using sample_name_ok by (simp add: metadata_ok_def disk_topic_ok_def sample_disk_topic_def MaxPartitionsPerTopic_def)

theorem metadata_roundtrip_witness:
  "\<exists>ts'. UnmarshalMetadata (MarshalMetadata (Some [(str ''a.b'', sample_disk_topic)])) None = Inr (Some ts') \<and>
     map_of ts' (str ''a.b'') = Some sample_disk_topic"
  using metadata_roundtrip [OF sample_metadata_ok, of None] by auto

section \<open>Saving\<close>

text \<open>The file holds the topics \<open>ts\<close>; without topics it may be missing.\<close>

definition meta_file :: "disk \<Rightarrow> (gostring \<times> DiskTopic) list \<Rightarrow> bool" where
  "meta_file d ts \<longleftrightarrow> metadata_ok ts \<and>
     (map_of (files d) metadataFile = Some (MarshalMetadata (Some ts)) \<or> ts = [] \<and> map_of (files d) metadataFile = None)"

lemma meta_file_cong: "map_of (files d') metadataFile = map_of (files d) metadataFile \<Longrightarrow> meta_file d' ts = meta_file d ts"
  by (simp add: meta_file_def)

lemma metadataTmp_ne [simp]: "metadataTmp \<noteq> metadataFile" "metadataFile \<noteq> metadataTmp"
  by (simp_all add: metadataTmp_def str_def)

definition meta_kept :: "disk \<Rightarrow> disk \<Rightarrow> bool" where
  "meta_kept d d' \<longleftrightarrow> map_of (files d') metadataFile = map_of (files d) metadataFile \<and> (faults d = [] \<longrightarrow> faults d' = [])"

lemma meta_kept_trans: "meta_kept d d1 \<Longrightarrow> meta_kept d1 d2 \<Longrightarrow> meta_kept d d2"
  by (simp add: meta_kept_def)

lemma discard_tmp_kept: "meta_kept d (discard_tmp d)" "meta_kept d (snd (sys_remove metadataTmp d))"
proof -
  have 1: "meta_kept d (snd (sys_remove metadataTmp d))" for d
  proof (cases "sys_remove metadataTmp d")
    case (Pair r d')
    then show ?thesis using sys_remove_facts [OF Pair] by (cases "r = Inr ()") (auto simp: meta_kept_def)
  qed
  then show "meta_kept d (snd (sys_remove metadataTmp d))" .
  have "meta_kept d (snd (sys_close d))"
    using sys_close_facts [of d "fst (sys_close d)" "snd (sys_close d)"] by (auto simp: meta_kept_def)
  then show "meta_kept d (discard_tmp d)" unfolding discard_tmp_def using meta_kept_trans 1 by blast
qed

definition meta_errors :: "err option set" where
  "meta_errors = {None, Some EIO, Some ENOENT, Some ErrShortWrite}"

lemma meta_syncDirectory_kept:
  assumes "meta_syncDirectory d = (e, d')"
  shows "meta_kept d d'" "e \<in> meta_errors" "faults d = [] \<Longrightarrow> e = None"
  using assms by (auto simp: meta_syncDirectory_def meta_kept_def sys_opendir_def sys_syncdir_def sys_close_def Let_def
      next_fault_def err_of_def meta_errors_def split: if_splits list.splits)

lemma write_metadata_cases:
  assumes "write_metadata data d = (c, e, d')"
  shows "c \<and> map_of (files d') metadataFile = Some data \<or> \<not> c \<and> e \<noteq> None \<and> map_of (files d') metadataFile = map_of (files d) metadataFile"
    "e \<in> meta_errors" "faults d = [] \<Longrightarrow> e = None \<and> c \<and> faults d' = []"
proof -
  obtain r1 d1 where e1: "sys_open_trunc metadataTmp d = (r1, d1)" by fastforce
  obtain n x2 d2 where e2: "sys_pwrite metadataTmp 0 data d1 = ((n, x2), d2)" by (metis surj_pair)
  obtain r3 d3 where e3: "sys_fsync metadataTmp d2 = (r3, d3)" by fastforce
  obtain r4 d4 where e4: "sys_close d3 = (r4, d4)" by fastforce
  obtain r5 d5 where e5: "sys_rename metadataTmp metadataFile d4 = (r5, d5)" by fastforce
  obtain x6 d6 where e6: "meta_syncDirectory d5 = (x6, d6)" by fastforce
  note step = assms [unfolded write_metadata_def e1 e2 e3 e4 e5 e6 prod.case]
  note P = sys_pwrite_facts [OF e2] and C = sys_close_facts [OF e4] and R = sys_rename_facts [OF e5]
    and M = meta_syncDirectory_kept [OF e6]
  have T: "meta_kept d d1" "r1 = Inr () \<Longrightarrow> map_of (files d1) metadataTmp = Some []" "faults d = [] \<Longrightarrow> r1 = Inr ()"
    "r1 = Inl EIO \<or> r1 = Inr ()"
    using e1 by (auto simp: sys_open_trunc_def Let_def next_fault_def meta_kept_def split: if_splits list.splits)
  have k2: "meta_kept d d2" using T(1) P(4,5) by (auto simp: meta_kept_def)
  have F: "meta_kept d2 d3" "r3 = Inl EIO \<or> r3 = Inr ()" "faults d2 = [] \<Longrightarrow> r3 = Inr ()" "files d3 = files d2"
    using e3 by (cases rule: sys_fsync_cases; auto simp: meta_kept_def)+
  have k3: "meta_kept d d3" by (rule meta_kept_trans [OF k2 F(1)])
  have k4: "meta_kept d d4" using C k3 by (auto simp: meta_kept_def)
  have x2: "x2 = None \<or> x2 = Some EIO" using e2 by (auto simp: sys_pwrite_def Let_def split_def split: if_splits)
  have r4: "r4 = Inl EIO \<or> r4 = Inr ()" using e4 by (auto simp: sys_close_def Let_def split_def split: if_splits)
  have r5: "r5 = Inl EIO \<or> r5 = Inl ENOENT \<or> r5 = Inr ()" "r5 \<noteq> Inr () \<Longrightarrow> meta_kept d4 d5"
    using e5 by (auto simp: sys_rename_def Let_def next_fault_def meta_kept_def split: if_splits list.splits option.splits)
  have tmp: "map_of (files d4) metadataTmp = Some data" if "r1 = Inr ()" "n = length data"
    using that T(2) P(4) C(1) F(4) by (auto simp: content_def splice_def)
  have ok: "map_of (files d6) metadataFile = Some data" if "r1 = Inr ()" "n = length data" "r5 = Inr ()"
    using R(3) [OF that(3)] tmp [OF that(1,2)] M(1) by (simp add: meta_kept_def)
  have kt: "meta_kept d (discard_tmp d2)" "meta_kept d (discard_tmp d3)" "meta_kept d (snd (sys_remove metadataTmp d4))"
    "r5 \<noteq> Inr () \<Longrightarrow> meta_kept d (snd (sys_remove metadataTmp d5))"
    using meta_kept_trans discard_tmp_kept k2 k3 k4 r5(2) by blast+
  have f: "faults d = [] \<Longrightarrow> r1 = Inr () \<and> n = length data \<and> x2 = None \<and> r3 = Inr () \<and> r4 = Inr () \<and> r5 = Inr () \<and> x6 = None \<and> faults d6 = []"
    using T P(5) F C(3) tmp R(1,2) M k2 k3 by (auto simp: meta_kept_def touches_def)
  consider "r1 = Inl EIO" | "r1 = Inr ()" "x2 = Some EIO" | "r1 = Inr ()" "x2 = None" "n \<noteq> length data"
    | "r1 = Inr ()" "x2 = None" "n = length data" "r3 = Inl EIO"
    | "r1 = Inr ()" "x2 = None" "n = length data" "r3 = Inr ()" "r4 = Inl EIO"
    | x where "r1 = Inr ()" "x2 = None" "n = length data" "r3 = Inr ()" "r4 = Inr ()" "r5 = Inl x" "x = EIO \<or> x = ENOENT"
    | "r1 = Inr ()" "x2 = None" "n = length data" "r3 = Inr ()" "r4 = Inr ()" "r5 = Inr ()"
    using T(4) x2 F(2) r4 r5(1) by blast
  then have "(c \<and> map_of (files d') metadataFile = Some data \<or> \<not> c \<and> e \<noteq> None \<and> map_of (files d') metadataFile = map_of (files d) metadataFile) \<and> e \<in> meta_errors"
  proof cases
    case 6
    then show ?thesis using step kt(4) by (auto simp: meta_kept_def meta_errors_def)
  next
    case 7
    then show ?thesis using step ok M(2) by simp
  qed (use step T(1) kt(1-3) in \<open>auto simp: meta_kept_def meta_errors_def\<close>)
  then show "c \<and> map_of (files d') metadataFile = Some data \<or> \<not> c \<and> e \<noteq> None \<and> map_of (files d') metadataFile = map_of (files d) metadataFile"
    "e \<in> meta_errors" by blast+
  show "faults d = [] \<Longrightarrow> e = None \<and> c \<and> faults d' = []" using step f by simp
qed

lemma ReadFile_cases:
  assumes "ReadFile p d = (r, d')" "map_of (files d) p = Some c"
  shows "files d' = files d" "faults d = [] \<Longrightarrow> faults d' = []" "r = Inr c \<or> r = Inl EIO \<and> faults d \<noteq> []"
  using assms by (auto simp: ReadFile_def sys_open_def sys_pread_def Let_def next_fault_def content_def
      split: if_splits list.splits)

lemma read_metadata_cases:
  assumes "meta_file d ts" "read_metadata d = (r, d')"
  shows "meta_kept d d'"
    "(\<exists>ts'. r = Inr (Some ts') \<and> metadata_ok ts' \<and> map_of ts' = map_of ts) \<or> r = Inl EIO \<and> faults d \<noteq> []"
proof -
  have ok: "metadata_ok ts" using assms(1) by (simp add: meta_file_def)
  obtain r1 d1 where e1: "sys_stat metadataFile d = (r1, d1)" by fastforce
  note S = sys_stat_facts [OF e1]
  consider "map_of (files d) metadataFile = None" "ts = []"
    | "map_of (files d) metadataFile = Some (MarshalMetadata (Some ts))"
    using assms(1) by (auto simp: meta_file_def)
  then have "meta_kept d d' \<and> ((\<exists>ts'. r = Inr (Some ts') \<and> metadata_ok ts' \<and> map_of ts' = map_of ts) \<or> r = Inl EIO \<and> faults d \<noteq> [])"
  proof cases
    case 1
    have "r1 = Inl ENOENT \<or> r1 = Inl EIO \<and> faults d \<noteq> []"
      using e1 1(1) by (auto simp: sys_stat_def Let_def next_fault_def split: if_splits list.splits)
    then show ?thesis
      using assms(2) e1 S(1,3) 1(2) ok by (auto simp: read_metadata_def meta_kept_def)
  next
    case 2
    obtain r2 d2 where e2: "ReadFile metadataFile d1 = (r2, d2)" by fastforce
    have "map_of (files d1) metadataFile = Some (MarshalMetadata (Some ts))" using 2 S(1) by simp
    note R = ReadFile_cases [OF e2 this]
    have r1: "(\<exists>n. r1 = Inr n) \<or> r1 = Inl EIO \<and> faults d \<noteq> []"
      using e1 2 by (auto simp: sys_stat_def Let_def next_fault_def split: if_splits list.splits)
    have f: "faults d1 \<noteq> [] \<Longrightarrow> faults d \<noteq> []" using S(3) by auto
    note U = Unmarshal_Marshal [OF ok, of "Some []"] metadata_ok_sorted [OF ok]
    from r1 show ?thesis
    proof (elim disjE exE conjE)
      fix n assume "r1 = Inr n"
      then have step: "(r, d') = (case r2 of Inl e \<Rightarrow> (Inl e, d2) | Inr data \<Rightarrow> (UnmarshalMetadata data (Some []), d2))"
        using assms(2) e1 e2 by (simp add: read_metadata_def split: sum.splits)
      have k: "meta_kept d d2" using S(1,3) R(1,2) by (simp add: meta_kept_def)
      from R(3) show ?thesis using step k U f by (elim disjE) auto
    next
      assume "r1 = Inl EIO" "faults d \<noteq> []"
      then show ?thesis using assms(2) e1 S(1) by (simp add: read_metadata_def meta_kept_def)
    qed
  qed
  then show "meta_kept d d'"
    "(\<exists>ts'. r = Inr (Some ts') \<and> metadata_ok ts' \<and> map_of ts' = map_of ts) \<or> r = Inl EIO \<and> faults d \<noteq> []" by blast+
qed

text \<open>The metadata file is replaced as a whole or left as it is, whatever call fails.\<close>

lemma saveMetadata_cases:
  assumes "meta_file d ts" "disk_topic_ok name dt" "saveMetadata name dt d = (c, e, d')"
  shows "c \<and> (\<exists>ts'. meta_file d' ts' \<and> map_of ts' = (map_of ts)(name \<mapsto> dt)) \<or> \<not> c \<and> e \<noteq> None \<and> meta_file d' ts"
    "e \<in> meta_errors" "faults d = [] \<Longrightarrow> e = None \<and> c \<and> faults d' = []"
proof -
  obtain r1 d1 where e1: "sys_mkdir d = (r1, d1)" by fastforce
  obtain r2 d2 where e2: "read_metadata d1 = (r2, d2)" by fastforce
  note M = sys_mkdir_facts [OF e1]
  have f1: "meta_file d1 ts" using assms(1) M(1) meta_file_cong [of d1 d ts] by simp
  note R = read_metadata_cases [OF f1 e2]
  have f2: "meta_file d2 ts" using f1 R(1) meta_file_cong [of d2 d1 ts] by (simp add: meta_kept_def)
  have "(c \<and> (\<exists>ts'. meta_file d' ts' \<and> map_of ts' = (map_of ts)(name \<mapsto> dt)) \<or> \<not> c \<and> e \<noteq> None \<and> meta_file d' ts) \<and>
      e \<in> meta_errors \<and> (faults d = [] \<longrightarrow> e = None \<and> c \<and> faults d' = [])"
  proof (cases r1)
    case (Inl x)
    moreover have "x = EIO" using e1 Inl by (auto simp: sys_mkdir_def Let_def split_def split: if_splits)
    ultimately show ?thesis using assms(3) e1 M(4) f1 by (auto simp: saveMetadata_def meta_errors_def)
  next
    case (Inr u)
    have f: "faults d1 \<noteq> [] \<Longrightarrow> faults d \<noteq> []" using M(2) by auto
    from R(2) show ?thesis
    proof (elim disjE exE conjE)
      fix ts' assume ts': "r2 = Inr (Some ts')" "metadata_ok ts'" "map_of ts' = map_of ts"
      let ?new = "AList.update name dt ts'"
      have w: "write_metadata (MarshalMetadata (Some ?new)) d2 = (c, e, d')"
        using assms(3) e1 e2 Inr ts'(1) by (simp add: saveMetadata_def)
      note W = write_metadata_cases [OF w]
      have "meta_file d' ?new" if "map_of (files d') metadataFile = Some (MarshalMetadata (Some ?new))"
        using that metadata_ok_update [OF ts'(2) assms(2)] by (simp add: meta_file_def)
      moreover have "map_of ?new = (map_of ts)(name \<mapsto> dt)" using ts'(3) by (simp add: update_conv')
      moreover have "faults d = [] \<Longrightarrow> faults d2 = []" using M(2) R(1) by (auto simp: meta_kept_def)
      ultimately show ?thesis using W f2 meta_file_cong [of d' d2 ts] by blast
    next
      assume "r2 = Inl EIO" "faults d1 \<noteq> []"
      then show ?thesis using assms(3) e1 e2 Inr f2 f by (auto simp: saveMetadata_def meta_errors_def)
    qed
  qed
  then show "c \<and> (\<exists>ts'. meta_file d' ts' \<and> map_of ts' = (map_of ts)(name \<mapsto> dt)) \<or> \<not> c \<and> e \<noteq> None \<and> meta_file d' ts"
    "e \<in> meta_errors" "faults d = [] \<Longrightarrow> e = None \<and> c \<and> faults d' = []" by blast+
qed

section \<open>Partition directories\<close>

lemma no_slash: "topicNameRegex s \<Longrightarrow> 47 \<notin> set s"
  using topic_name_bytes [of s] by (auto simp: list_all_iff name_byte_def alnum_def in_range_def)

lemma split_at_sep:
  assumes "a @ c # x = b @ c # y" "c \<notin> set a" "c \<notin> set b"
  shows "a = b \<and> x = y"
  using assms
proof (induction a arbitrary: b)
  case Nil
  then show ?case by (cases b) auto
next
  case (Cons z a)
  then show ?case by (cases b) auto
qed

lemma pDir_inj:
  assumes "pDir name i = pDir name' j" "topicNameRegex name" "topicNameRegex name'"
  shows "name = name' \<and> i = j"
proof -
  have "str ''/partition-'' = 47 # str ''partition-''" by (simp add: str_def)
  then have "name @ 47 # (str ''partition-'' @ itoa i) = name' @ 47 # (str ''partition-'' @ itoa j)"
    using assms(1) by (simp add: pDir_def)
  from split_at_sep [OF this no_slash no_slash] assms(2,3) show ?thesis using itoa_inj by auto
qed

text \<open>
  No two partitions share a directory: for valid topic names the path of a partition determines
  the topic and the partition; and a valid name is a single path component below the topics
  directory, never the directory itself or its parent.
\<close>

theorem partition_dirs_disjoint:
  assumes "topicNameRegex name" "topicNameRegex name'"
  shows "(pDir name i = pDir name' j \<longleftrightarrow> name = name' \<and> i = j) \<and> 47 \<notin> set name \<and> name \<noteq> str ''.'' \<and> name \<noteq> str ''..'' \<and> length name \<le> 255"
proof -
  have "hd name \<noteq> 46" using assms(1) by (auto simp: topicNameRegex_def alnum_def in_range_def)
  then have "name \<noteq> str ''.''" "name \<noteq> str ''..''" by (auto simp: str_def)
  moreover have "length name \<le> 255" using assms(1) by (cases name) (auto simp: topicNameRegex_def)
  ultimately show ?thesis using pDir_inj [OF _ assms] no_slash [OF assms(1)] by blast
qed

theorem partition_dirs_disjoint_witness: "pDir (str ''a.b'') 1 \<noteq> pDir (str ''a.b'') 11"
  using partition_dirs_disjoint [OF sample_name_ok sample_name_ok, of 1 11] by simp

end
