(* ===== verification/Topic_Contract.thy ===== *)
theory Topic_Contract
  imports Topic_Metadata
begin

text \<open>
  The contract of the topic manager: creating a topic is a transaction over the partition directories
  and the metadata file, a restart finds every topic with the records of its partitions, and the
  registry answers lookups and listings.
\<close>

section \<open>The invariant\<close>

definition disk_topic :: "Topic \<Rightarrow> DiskTopic" where
  "disk_topic t = \<lparr>dtName = tName t, dtPartitionCount = int (length (tPartitions t)), dtRetention = tRetention t\<rparr>"

text \<open>The registry is well-formed, and the metadata file says what it holds.\<close>

definition topics_ok :: "Manager \<Rightarrow> bool" where
  "topics_ok m \<longleftrightarrow> distinct (map fst (mTopics m)) \<and> (\<forall>(k, t) \<in> set (mTopics m). disk_topic_ok k (disk_topic t))"

definition manager_ok :: "Manager \<Rightarrow> data_dir \<Rightarrow> bool" where
  "manager_ok m fs \<longleftrightarrow> topics_ok m \<and>
     (\<exists>ts. meta_file (metaDisk fs) ts \<and> (\<forall>k. map_of ts k = map_option disk_topic (map_of (mTopics m) k)))"

lemma topics_ok_update:
  assumes "topics_ok m" "disk_topic_ok k (disk_topic t)"
  shows "topics_ok (m\<lparr>mTopics := AList.update k t (mTopics m)\<rparr>)"
  using assms set_update [of k t "mTopics m"] by (fastforce simp: topics_ok_def distinct_update)

section \<open>Directories\<close>

text \<open>Only the directories of the partitions \<open>I\<close> of one topic are touched.\<close>

definition only_dirs :: "gostring \<Rightarrow> nat set \<Rightarrow> data_dir \<Rightarrow> data_dir \<Rightarrow> bool" where
  "only_dirs name I fs fs' \<longleftrightarrow> metaDisk fs' = metaDisk fs \<and> newFaults fs' = newFaults fs \<and>
     (\<forall>q. q \<notin> pDir name ` I \<longrightarrow> partDirs fs' q = partDirs fs q)"

lemma only_dirs_refl [simp]: "only_dirs name I fs fs"
  by (simp add: only_dirs_def)

lemma only_dirs_trans: "only_dirs name I fs fs1 \<Longrightarrow> only_dirs name J fs1 fs2 \<Longrightarrow> I \<union> J \<subseteq> K \<Longrightarrow> only_dirs name K fs fs2"
  unfolding only_dirs_def by (metis UnCI image_mono subsetD sup.boundedE)

lemma only_dirs_mono: "only_dirs name I fs fs' \<Longrightarrow> I \<subseteq> J \<Longrightarrow> only_dirs name J fs fs'"
  using only_dirs_trans [OF _ only_dirs_refl, of name I fs fs' "{}" J] by simp

lemma only_dirs_simps:
  "i \<in> I \<Longrightarrow> only_dirs name I fs (put_dir (pDir name i) d fs)" "i \<in> I \<Longrightarrow> only_dirs name I fs (take_dir (pDir name i) fs)"
  "i \<in> I \<Longrightarrow> only_dirs name I fs (remove_all (pDir name i) fs)"
  by (auto simp: only_dirs_def put_dir_def take_dir_def remove_all_def split: option.splits prod.splits fault.splits)

lemma close_partitions_dirs: "only_dirs name {i..<i + length ls} fs (snd (close_partitions name i ls fs))"
proof (induction ls arbitrary: i fs)
  case (Cons l ls)
  obtain e l' where c: "LogClose l = (e, l')" by fastforce
  let ?fs = "put_dir (pDir name i) (logDisk l') fs"
  have "only_dirs name {i..<i + length (l # ls)} fs ?fs" by (simp add: only_dirs_simps)
  from only_dirs_trans [OF this Cons.IH [of "Suc i" ?fs], of "{i..<i + length (l # ls)}"] show ?case
    by (auto simp: c split_def Let_def)
qed simp

lemma fold_remove_dirs: "set is \<subseteq> I \<Longrightarrow> only_dirs name I fs (fold (\<lambda>i. remove_all (pDir name i)) is fs)"
proof (induction "is" arbitrary: fs)
  case (Cons i "is")
  have "only_dirs name I fs (remove_all (pDir name i) fs)" using Cons.prems by (intro only_dirs_simps) simp
  from only_dirs_trans [OF this Cons.IH [of "remove_all (pDir name i) fs"], of I] Cons.prems show ?case by simp
qed simp

lemma rollback_dirs:
  assumes "length ls \<le> n" "k \<le> n"
  shows "only_dirs name {0..<n} fs (rollback name k ls fs)"
  unfolding rollback_def
  using only_dirs_trans [OF close_partitions_dirs [of name 0 ls fs] fold_remove_dirs [of "[0..<k]" "{0..<n}" name], of "{0..<n}"] assms
  by auto

lemma leave_logs_dirs: "only_dirs name {0..<length ls} fs (leave_logs name ls fs)"
proof -
  have "only_dirs name I fs (fold (\<lambda>(i, l). put_dir (pDir name i) (logDisk l)) xs fs)" if "fst ` set xs \<subseteq> I" for xs I fs
    using that
  proof (induction xs arbitrary: fs)
    case (Cons x xs)
    then have "only_dirs name I fs (put_dir (pDir name (fst x)) (logDisk (snd x)) fs)" by (intro only_dirs_simps) simp
    from only_dirs_trans [OF this Cons.IH, of I] Cons.prems show ?case by (simp add: split_def)
  qed simp
  moreover have "fst ` set (enumerate 0 ls) \<subseteq> {0..<length ls}" by (auto simp: in_set_enumerate_eq)
  ultimately show ?thesis unfolding leave_logs_def by blast
qed

lemma open_partitions_dirs:
  assumes "open_partitions m name i n logs fs = (e, logs', fs')"
  shows "only_dirs name {i..<i + n} fs fs'" "\<exists>new. logs' = logs @ new \<and> length new \<le> n \<and> (e = None \<longleftrightarrow> length new = n)"
proof -
  have "only_dirs name {i..<i + n} fs fs' \<and> (\<exists>new. logs' = logs @ new \<and> length new \<le> n \<and> (e = None \<longleftrightarrow> length new = n))"
    using assms
  proof (induction n arbitrary: i logs fs)
    case (Suc n)
    let ?p = "pDir name i"
    obtain r d where nl: "NewLog (mSegmentMaxBytes m) (mMaxBatchBytes m) (mIndexIntervalBytes m) (mFlushMode m) (open_dir ?p fs) = (r, d)"
      by fastforce
    have t: "only_dirs name {i..<i + Suc n} fs (take_dir ?p fs)" by (intro only_dirs_simps) simp
    show ?case
    proof (cases r)
      case (Inl x)
      then show ?thesis using Suc.prems nl by (auto simp: Let_def intro: only_dirs_simps)
    next
      case (Inr l)
      then have "open_partitions m name (Suc i) n (logs @ [l]) (take_dir ?p fs) = (e, logs', fs')"
        using Suc.prems nl by simp
      from Suc.IH [OF this] only_dirs_trans [OF t, of "{Suc i..<Suc i + n}" fs' "{i..<i + Suc n}"] show ?thesis by auto
    qed
  qed simp
  then show "only_dirs name {i..<i + n} fs fs'" "\<exists>new. logs' = logs @ new \<and> length new \<le> n \<and> (e = None \<longleftrightarrow> length new = n)"
    by blast+
qed

section \<open>Creating a topic\<close>

lemma GetTopic_update: "GetTopic k (m\<lparr>mTopics := AList.update name t ts\<rparr>) = (if k = name then Inr t else GetTopic k (m\<lparr>mTopics := ts\<rparr>))"
  by (simp add: GetTopic_def update_conv')

lemma manager_ok_meta: "manager_ok m fs \<Longrightarrow> metaDisk fs' = metaDisk fs \<Longrightarrow> manager_ok m fs'"
  by (simp add: manager_ok_def)

lemma CreateTopic_cases:
  assumes "manager_ok m fs" "CreateTopic name n ret m fs = (r, m', fs')"
  defines "valid \<equiv> topicNameRegex name \<and> 0 < n \<and> n \<le> MaxPartitionsPerTopic \<and> map_of (mTopics m) name = None"
  obtains (refused) "\<not> valid" "m' = m" "fs' = fs" "r = Inl (if \<not> topicNameRegex name then ErrInvalidTopicName else if n \<le> 0 then ErrPartitionCount
        else if n > MaxPartitionsPerTopic then ErrTooManyPartitions else ErrTopicExists)"
  | (failed) e where valid "r = Inl e" "m' = m" "manager_ok m fs'" "\<forall>q. (\<forall>i. q \<noteq> pDir name i) \<longrightarrow> partDirs fs' q = partDirs fs q"
      "Some e \<in> meta_errors \<or> (\<exists>logs fs1. open_partitions m name 0 (nat n) [] fs = (Some e, logs, fs1))"
  | (created) t logs fs1 where valid "open_partitions m name 0 (nat n) [] fs = (None, logs, fs1)" "length logs = nat n"
      "t = \<lparr>tName = name, tPartitions = logs, tRetention = default_retention ret m\<rparr>" "r = Inr t"
      "m' = m\<lparr>mTopics := AList.update name t (mTopics m)\<rparr>" "manager_ok m' fs'" "\<forall>q. (\<forall>i. q \<noteq> pDir name i) \<longrightarrow> partDirs fs' q = partDirs fs q"
proof (cases valid)
  case False
  then show ?thesis using assms(2) by (intro refused) (auto simp: valid_def CreateTopic_def split: if_splits)
next
  case valid: True
  then have True: "topicNameRegex name \<and> 0 < n \<and> n \<le> MaxPartitionsPerTopic \<and> map_of (mTopics m) name = None" by (simp add: valid_def)
  let ?dt = "\<lparr>dtName = name, dtPartitionCount = n, dtRetention = default_retention ret m\<rparr>"
  obtain e logs fs1 where op: "open_partitions m name 0 (nat n) [] fs = (e, logs, fs1)" by (metis surj_pair)
  note O = open_partitions_dirs [OF op]
  have dirs: "only_dirs name {0..<nat n} fs fs1" and len: "length logs \<le> nat n" "e = None \<longleftrightarrow> length logs = nat n"
    using O by auto
  have frame: "metaDisk fs2 = metaDisk fs \<and> (\<forall>q. (\<forall>i. q \<noteq> pDir name i) \<longrightarrow> partDirs fs2 q = partDirs fs q)"
    if "only_dirs name {0..<nat n} fs1 fs2" for fs2
    using only_dirs_trans [OF dirs that, of "{0..<nat n}"] by (auto simp: only_dirs_def)
  show ?thesis
  proof (cases e)
    case (Some x)
    define fs2 where "fs2 = (if x = GoPanic then leave_logs name logs fs1 else rollback name (Suc (length logs)) logs fs1)"
    have "length logs < nat n" using len Some by auto
    then have "only_dirs name {0..<nat n} fs1 fs2"
      using only_dirs_mono [OF leave_logs_dirs, of logs "{0..<nat n}"] rollback_dirs [of logs "nat n"]
      by (auto simp: fs2_def)
    note fr = frame [OF this]
    have "CreateTopic name n ret m fs = (Inl x, m, fs2)"
      using True op Some by (simp add: CreateTopic_def fs2_def MaxPartitionsPerTopic_def)
    then show ?thesis using fr manager_ok_meta [OF assms(1)] assms(2) op Some valid by (intro failed [of x]) auto
  next
    case None
    obtain ts where ts: "meta_file (metaDisk fs) ts" "\<forall>k. map_of ts k = map_option disk_topic (map_of (mTopics m) k)"
      using assms(1) by (auto simp: manager_ok_def)
    obtain c x md where sm: "saveMetadata name ?dt (metaDisk fs1) = (c, x, md)" by (metis surj_pair)
    have dok: "disk_topic_ok name ?dt" using True by (simp add: disk_topic_ok_def)
    have meta1: "meta_file (metaDisk fs1) ts" using ts(1) dirs by (simp add: only_dirs_def)
    note S = saveMetadata_cases [OF meta1 dok sm]
    define t where "t = \<lparr>tName = name, tPartitions = logs, tRetention = default_retention ret m\<rparr>"
    define m1 where "m1 = m\<lparr>mTopics := AList.update name t (mTopics m)\<rparr>"
    define fs2 where "fs2 = fs1\<lparr>metaDisk := md\<rparr>"
    have dt: "disk_topic t = ?dt" using len None True by (simp add: disk_topic_def t_def)
    have step: "CreateTopic name n ret m fs = (if x \<noteq> None \<and> \<not> c then (Inl (the x), m, rollback name (nat n) logs fs2) else (Inr t, m1, fs2))"
      using True op None sm S(2) [unfolded meta_errors_def] unfolding CreateTopic_def t_def m1_def fs2_def
      by (auto simp: MaxPartitionsPerTopic_def Let_def split: option.splits)
    have fr2: "partDirs fs2 q = partDirs fs q" if "\<forall>i. q \<noteq> pDir name i" for q
      using frame [OF only_dirs_refl] that by (simp add: fs2_def)
    have lg: "length logs = nat n" using len None by simp
    show ?thesis
    proof (cases "x \<noteq> None \<and> \<not> c")
      case rb: True
      let ?fs3 = "rollback name (nat n) logs fs2"
      have d3: "only_dirs name {0..<nat n} fs2 ?fs3" using lg by (intro rollback_dirs) auto
      have "meta_file (metaDisk ?fs3) ts" using S(1) rb d3 by (simp add: only_dirs_def fs2_def)
      then have "manager_ok m ?fs3" using assms(1) ts(2) by (auto simp: manager_ok_def)
      moreover have "partDirs ?fs3 q = partDirs fs q" if "\<forall>i. q \<noteq> pDir name i" for q
        using fr2 [OF that] d3 that by (auto simp: only_dirs_def)
      ultimately show ?thesis using step rb valid assms(2) S(2) by (intro failed [of "the x"]) auto
    next
      case pub: False
      then obtain ts' where ts': "meta_file md ts'" "map_of ts' = (map_of ts)(name \<mapsto> ?dt)" using S(1) by blast
      have "topics_ok m1" using assms(1) dok dt unfolding m1_def by (intro topics_ok_update) (auto simp: manager_ok_def)
      moreover have "\<forall>k. map_of ts' k = map_option disk_topic (map_of (mTopics m1) k)"
        using ts'(2) ts(2) dt by (simp add: m1_def update_conv')
      ultimately have "manager_ok m1 fs2" using ts'(1) by (auto simp: manager_ok_def fs2_def)
      moreover have "CreateTopic name n ret m fs = (Inr t, m1, fs2)" unfolding step using pub by (rule if_not_P)
      ultimately show ?thesis using valid op None lg fr2 assms(2) by (intro created [of logs fs1 t]) (auto simp: t_def m1_def)
    qed
  qed
qed

text \<open>
  C24. Creating a topic is a transaction, whatever call fails. The topic is published with the
  requested number of partitions and the retention limits it was given, or the default ones, and it
  is in the metadata file; or an error is returned and the registry and the topics in the metadata
  file are as before. Only directories of the new topic are touched, the other topics stay as they
  are, and invalid requests are refused with their error.
\<close>

theorem create_topic_atomic:
  assumes "manager_ok m fs"
  shows "case CreateTopic name n ret m fs of (r, m', fs') \<Rightarrow>
    manager_ok m' fs' \<and>
    (\<forall>q. (\<forall>i. q \<noteq> pDir name i) \<longrightarrow> partDirs fs' q = partDirs fs q) \<and>
    (case r of
       Inr t \<Rightarrow> disk_topic t = \<lparr>dtName = name, dtPartitionCount = n, dtRetention = default_retention ret m\<rparr> \<and>
         GetTopic name m = Inl ErrTopicNotFound \<and> GetTopic name m' = Inr t \<and> (\<forall>k. k \<noteq> name \<longrightarrow> GetTopic k m' = GetTopic k m)
     | Inl e \<Rightarrow> m' = m) \<and>
    (\<not> topicNameRegex name \<longrightarrow> r = Inl ErrInvalidTopicName) \<and>
    (topicNameRegex name \<and> n \<le> 0 \<longrightarrow> r = Inl ErrPartitionCount) \<and>
    (topicNameRegex name \<and> n > MaxPartitionsPerTopic \<longrightarrow> r = Inl ErrTooManyPartitions) \<and>
    (topicNameRegex name \<and> 0 < n \<and> n \<le> MaxPartitionsPerTopic \<and> GetTopic name m \<noteq> Inl ErrTopicNotFound \<longrightarrow> r = Inl ErrTopicExists)"
proof -
  obtain r m' fs' where cr: "CreateTopic name n ret m fs = (r, m', fs')" by (metis surj_pair)
  show ?thesis unfolding cr prod.case
  proof (rule CreateTopic_cases [OF assms cr], goal_cases)
    case 1
    then show ?case using assms by (auto simp: GetTopic_def MaxPartitionsPerTopic_def split: option.splits)
  next
    case (2 e)
    then show ?case by (auto simp: GetTopic_def)
  next
    case (3 t logs fs1)
    then show ?case by (auto simp: disk_topic_def GetTopic_def update_conv')
  qed
qed

text \<open>A manager without topics on an empty data directory.\<close>

definition empty_disk :: "fault list \<Rightarrow> disk" where
  "empty_disk fl = \<lparr>files = [], flushed = [], entries = [], faults = fl\<rparr>"

definition sample_manager :: Manager where
  "sample_manager = \<lparr>mTopics = [], mSegmentMaxBytes = 1024, mMaxBatchBytes = 512, mIndexIntervalBytes = 64,
     mFlushMode = sync_mode, mDefaultMaxAgeSeconds = 60, mDefaultMaxBytes = 1000\<rparr>"

definition sample_data_dir :: data_dir where
  "sample_data_dir = \<lparr>metaDisk = empty_disk [], partDirs = Map.empty, newFaults = (\<lambda>_. [])\<rparr>"

definition no_limits :: RetentionPolicy where
  "no_limits = \<lparr>rpMaxAgeSeconds = 0, rpMaxBytes = 0\<rparr>"

lemma sample_manager_ok: "manager_ok sample_manager sample_data_dir"
proof -
  have "meta_file (metaDisk sample_data_dir) []"
    by (simp add: meta_file_def sample_data_dir_def empty_disk_def metadata_ok_def)
  then show ?thesis unfolding manager_ok_def topics_ok_def by (intro conjI exI [of _ "[]"]) (simp_all add: sample_manager_def)
qed

theorem create_topic_atomic_witness:
  "case CreateTopic (str ''a.b'') 1025 no_limits sample_manager sample_data_dir of (r, m', fs') \<Rightarrow>
     r = Inl ErrTooManyPartitions \<and> manager_ok m' fs'"
  using create_topic_atomic [OF sample_manager_ok, of "str ''a.b''" 1025 no_limits] sample_name_ok
  by (auto simp: MaxPartitionsPerTopic_def split: prod.splits)

lemma NewLog_empty:
  assumes "files d = []" "faults d = []" "mb < 2 ^ 31" "sm < 2 ^ 63"
  shows "\<exists>l d'. NewLog sm mb iv mode d = (Inr l, d') \<and> log_holds l [] \<and> LogEarliestOffset l = 0 \<and> LogLogEndOffset l = 0"
proof -
  obtain e s d' where op: "OpenStore sm mb iv mode [] d = (e, s, d')" by (metis surj_pair)
  have "e = None \<and> faults d' = [] \<and> store_repr s d' [[]] \<and> logEndOffset s = 0 \<and> earliestOffset s = 0"
    using OpenStore_empty [of d mb sm iv mode "[]"] assms op by simp
  then show ?thesis
    by (auto simp: NewLog_def op log_holds_def log_healthy_def LogEarliestOffset_def LogLogEndOffset_def EarliestOffset_def
        LogEndOffset_def intro!: exI [of _ "[[]]"])
qed

lemma open_partitions_ready:
  assumes "\<forall>k < n. partDirs fs (pDir name (i + k)) = None" "\<forall>p. newFaults fs p = []"
    and "mMaxBatchBytes m < 2 ^ 31" "mSegmentMaxBytes m < 2 ^ 63"
  shows "\<exists>new fs'. open_partitions m name i n logs fs = (None, logs @ new, fs') \<and> length new = n \<and>
    (\<forall>l \<in> set new. log_holds l [] \<and> LogEarliestOffset l = 0 \<and> LogLogEndOffset l = 0)"
  using assms
proof (induction n arbitrary: i logs fs)
  case (Suc n)
  have d: "files (open_dir (pDir name i) fs) = []" "faults (open_dir (pDir name i) fs) = []"
    using Suc.prems(1,2) by (auto simp: open_dir_def)
  obtain l d' where l: "NewLog (mSegmentMaxBytes m) (mMaxBatchBytes m) (mIndexIntervalBytes m) (mFlushMode m) (open_dir (pDir name i) fs) = (Inr l, d')"
    "log_holds l []" "LogEarliestOffset l = 0" "LogLogEndOffset l = 0"
    using NewLog_empty [OF d Suc.prems(3,4)] by blast
  have "\<forall>k < n. partDirs (take_dir (pDir name i) fs) (pDir name (Suc i + k)) = None"
    using Suc.prems(1) by (auto simp: take_dir_def)
  moreover have "\<forall>p. newFaults (take_dir (pDir name i) fs) p = []" using Suc.prems(2) by (simp add: take_dir_def)
  ultimately obtain new fs' where "open_partitions m name (Suc i) n (logs @ [l]) (take_dir (pDir name i) fs) = (None, (logs @ [l]) @ new, fs')"
    "length new = n" "\<forall>l \<in> set new. log_holds l [] \<and> LogEarliestOffset l = 0 \<and> LogLogEndOffset l = 0"
    using Suc.IH [OF _ _ Suc.prems(3,4)] by blast
  then show ?case using l by (intro exI [of _ "l # new"] exI [of _ fs']) simp
qed simp

text \<open>
  C25. Without failures a valid request creates the topic: every partition is in service, empty, and
  its first offset is 0.
\<close>

theorem create_topic_ready:
  assumes "manager_ok m fs" "topicNameRegex name" "0 < n" "n \<le> MaxPartitionsPerTopic" "GetTopic name m = Inl ErrTopicNotFound"
    and "\<forall>i. partDirs fs (pDir name i) = None" "\<forall>p. newFaults fs p = []" "faults (metaDisk fs) = []"
    and "mMaxBatchBytes m < 2 ^ 31" "mSegmentMaxBytes m < 2 ^ 63"
  shows "\<exists>t m' fs'. CreateTopic name n ret m fs = (Inr t, m', fs') \<and> PartitionCount t = nat n \<and>
    (\<forall>i < nat n. \<exists>l. GetPartition name (of_nat i) m' = Inr l \<and> log_holds l [] \<and> LogEarliestOffset l = 0 \<and> LogLogEndOffset l = 0)"
proof -
  obtain logs fs1 where op: "open_partitions m name 0 (nat n) [] fs = (None, logs, fs1)" "length logs = nat n"
    "\<forall>l \<in> set logs. log_holds l [] \<and> LogEarliestOffset l = 0 \<and> LogLogEndOffset l = 0"
    using open_partitions_ready [of "nat n" fs name 0 m "[]"] assms by auto
  let ?dt = "\<lparr>dtName = name, dtPartitionCount = n, dtRetention = default_retention ret m\<rparr>"
  obtain ts where ts: "meta_file (metaDisk fs) ts" using assms(1) by (auto simp: manager_ok_def)
  obtain c x md where sm: "saveMetadata name ?dt (metaDisk fs1) = (c, x, md)" by (metis surj_pair)
  have md1: "metaDisk fs1 = metaDisk fs" using open_partitions_dirs(1) [OF op(1)] by (simp add: only_dirs_def)
  have "disk_topic_ok name ?dt" using assms(2-4) by (simp add: disk_topic_ok_def)
  from saveMetadata_cases(3) [OF ts this sm [unfolded md1]] assms(8) have x: "x = None" "c" by simp_all
  define t where "t = \<lparr>tName = name, tPartitions = logs, tRetention = default_retention ret m\<rparr>"
  have "map_of (mTopics m) name = None" using assms(5) by (auto simp: GetTopic_def split: option.splits)
  then have cr: "CreateTopic name n ret m fs = (Inr t, m\<lparr>mTopics := AList.update name t (mTopics m)\<rparr>, fs1\<lparr>metaDisk := md\<rparr>)"
    using assms(2-4) op(1) sm x by (simp add: CreateTopic_def t_def MaxPartitionsPerTopic_def Let_def)
  have small: "nat n \<le> 1024" using assms(4) by (simp add: MaxPartitionsPerTopic_def)
  have part: "GetPartition name (of_nat i) (m\<lparr>mTopics := AList.update name t (mTopics m)\<rparr>) = Inr (logs ! i)" if "i < nat n" for i
  proof -
    have l: "i < 2 ^ 32" "length logs < 2 ^ 32" using that small op(2) by simp_all
    have "\<not> (of_nat (length logs) :: u32) \<le> of_nat i"
      unfolding word_le_nat_alt unat_of_nat_u32 [OF l(1)] unat_of_nat_u32 [OF l(2)] using that op(2) by simp
    then show ?thesis by (simp add: GetPartition_def Partition_def update_conv' t_def unat_of_nat_u32 [OF l(1)])
  qed
  have "PartitionCount t = nat n" using op(2) by (simp add: PartitionCount_def t_def)
  moreover have "\<exists>l. GetPartition name (of_nat i) (m\<lparr>mTopics := AList.update name t (mTopics m)\<rparr>) = Inr l \<and> log_holds l [] \<and>
      LogEarliestOffset l = 0 \<and> LogLogEndOffset l = 0" if "i < nat n" for i
    using part [OF that] op(2,3) nth_mem [of i logs] that by auto
  ultimately show ?thesis using cr by blast
qed

theorem create_topic_ready_witness:
  "\<exists>t m' fs'. CreateTopic (str ''a.b'') 2 no_limits sample_manager sample_data_dir = (Inr t, m', fs') \<and> PartitionCount t = 2"
  using create_topic_ready [OF sample_manager_ok sample_name_ok, of 2 no_limits]
  by (auto simp: MaxPartitionsPerTopic_def GetTopic_def sample_manager_def sample_data_dir_def empty_disk_def)

section \<open>Restart\<close>

text \<open>A directory that a log can be opened on, with the records it then holds.\<close>

definition opens :: "Manager \<Rightarrow> disk \<Rightarrow> (Log \<Rightarrow> bool) \<Rightarrow> bool" where
  "opens m d P \<longleftrightarrow> (\<exists>l d'. NewLog (mSegmentMaxBytes m) (mMaxBatchBytes m) (mIndexIntervalBytes m) (mFlushMode m) d = (Inr l, d') \<and> P l)"

lemma opens_config: "opens (m\<lparr>mTopics := ts\<rparr>) = opens m"
  by (simp add: opens_def fun_eq_iff)

lemma reopen_partitions_ok:
  assumes "\<forall>k < n. \<exists>d. partDirs fs (pDir name (i + k)) = Some d \<and> opens m d (P (i + k))"
  shows "\<exists>new fs'. reopen_partitions m name i n logs fs = (None, logs @ new, fs') \<and> length new = n \<and>
    (\<forall>k < n. P (i + k) (new ! k)) \<and> only_dirs name {i..<i + n} fs fs'"
  using assms
proof (induction n arbitrary: i logs fs)
  case (Suc n)
  let ?p = "pDir name i"
  obtain d where d: "partDirs fs ?p = Some d" "opens m d (P i)" using Suc.prems by force
  then obtain l d' where l: "NewLog (mSegmentMaxBytes m) (mMaxBatchBytes m) (mIndexIntervalBytes m) (mFlushMode m) d = (Inr l, d')" "P i l"
    by (auto simp: opens_def)
  have "\<exists>d. partDirs (take_dir ?p fs) (pDir name (Suc i + k)) = Some d \<and> opens m d (P (Suc i + k))" if "k < n" for k
  proof -
    have "pDir name (Suc i + k) \<noteq> ?p" by (auto simp: pDir_def dest: itoa_inj)
    moreover have "\<exists>d. partDirs fs (pDir name (i + Suc k)) = Some d \<and> opens m d (P (i + Suc k))"
      using Suc.prems that by (auto dest: spec [of _ "Suc k"])
    ultimately show ?thesis by (simp add: take_dir_def)
  qed
  then obtain new fs' where new: "reopen_partitions m name (Suc i) n (logs @ [l]) (take_dir ?p fs) = (None, (logs @ [l]) @ new, fs')"
    "length new = n" "\<forall>k < n. P (Suc i + k) (new ! k)" "only_dirs name {Suc i..<Suc i + n} (take_dir ?p fs) fs'"
    using Suc.IH by blast
  have "only_dirs name {i..<i + Suc n} fs (take_dir ?p fs)" by (intro only_dirs_simps) simp
  from only_dirs_trans [OF this new(4), of "{i..<i + Suc n}"] have od: "only_dirs name {i..<i + Suc n} fs fs'" by auto
  have "\<forall>k < Suc n. P (i + k) ((l # new) ! k)" using new(3) l(2) by (auto simp: less_Suc_eq_0_disj)
  then show ?case using new(1,2) l(1) d od by (intro exI [of _ "l # new"] exI [of _ fs']) (simp add: open_dir_def)
qed simp

text \<open>The topics that a start loads.\<close>

definition loadable :: "Manager \<Rightarrow> (gostring \<Rightarrow> nat \<Rightarrow> Log \<Rightarrow> bool) \<Rightarrow> gostring \<Rightarrow> DiskTopic \<Rightarrow> data_dir \<Rightarrow> bool" where
  "loadable m P name dt fs \<longleftrightarrow> disk_topic_ok name dt \<and>
     (\<forall>k < nat (dtPartitionCount dt). \<exists>d. partDirs fs (pDir name k) = Some d \<and> opens m d (P name k))"

definition topic_holds :: "(nat \<Rightarrow> Log \<Rightarrow> bool) \<Rightarrow> Topic \<Rightarrow> bool" where
  "topic_holds P t \<longleftrightarrow> (\<forall>k < length (tPartitions t). P k (tPartitions t ! k))"

lemma load_topic_ok:
  assumes "loadable m P name dt fs"
  shows "\<exists>t fs'. load_topic name dt m fs = (Inr (m\<lparr>mTopics := AList.update name t (mTopics m)\<rparr>), fs') \<and>
    disk_topic t = dt \<and> topic_holds (P name) t \<and> only_dirs name {0..<nat (dtPartitionCount dt)} fs fs'"
proof -
  let ?n = "nat (dtPartitionCount dt)"
  have ok: "dtName dt = name" "topicNameRegex name" "1 \<le> dtPartitionCount dt" "dtPartitionCount dt \<le> MaxPartitionsPerTopic"
    using assms by (auto simp: loadable_def disk_topic_ok_def)
  have "\<forall>k < ?n. \<exists>d. partDirs fs (pDir name (0 + k)) = Some d \<and> opens m d (P name (0 + k))"
    using assms by (simp add: loadable_def)
  from reopen_partitions_ok [OF this, of "[]"] obtain new fs' where new:
    "reopen_partitions m name 0 ?n [] fs = (None, new, fs')" "length new = ?n" "\<forall>k < ?n. P name k (new ! k)"
    "only_dirs name {0..<?n} fs fs'"
    by auto
  define t where "t = \<lparr>tName = dtName dt, tPartitions = new, tRetention = dtRetention dt\<rparr>"
  have "disk_topic t = dt" "topic_holds (P name) t" using new(2,3) ok by (simp_all add: disk_topic_def t_def topic_holds_def)
  moreover have "load_topic name dt m fs = (Inr (m\<lparr>mTopics := AList.update name t (mTopics m)\<rparr>), fs')"
    using ok new(1) by (simp add: load_topic_def t_def)
  ultimately show ?thesis using new(4) by blast
qed

lemma load_topics_ok:
  assumes "distinct order" "\<forall>name \<in> set order. \<forall>dt. map_of meta name = Some dt \<longrightarrow> loadable m P name dt fs"
    and "topics_ok m"
  shows "\<exists>ts fs'. load_topics order meta m fs = (Inr (m\<lparr>mTopics := ts\<rparr>), fs') \<and> metaDisk fs' = metaDisk fs \<and>
    topics_ok (m\<lparr>mTopics := ts\<rparr>) \<and>
    (\<forall>name. if name \<in> set order \<and> map_of meta name \<noteq> None
       then \<exists>t. map_of ts name = Some t \<and> map_of meta name = Some (disk_topic t) \<and> topic_holds (P name) t
       else map_of ts name = map_of (mTopics m) name)"
  using assms
proof (induction order arbitrary: m fs)
  case Nil
  then show ?case by (intro exI [of _ "mTopics m"] exI [of _ fs]) simp
next
  case (Cons name order)
  show ?case
  proof (cases "map_of meta name")
    case None
    from Cons.IH [of m fs] Cons.prems obtain ts fs' where ts:
      "load_topics order meta m fs = (Inr (m\<lparr>mTopics := ts\<rparr>), fs')" "metaDisk fs' = metaDisk fs" "topics_ok (m\<lparr>mTopics := ts\<rparr>)"
      "\<forall>k. if k \<in> set order \<and> map_of meta k \<noteq> None
         then \<exists>t. map_of ts k = Some t \<and> map_of meta k = Some (disk_topic t) \<and> topic_holds (P k) t
         else map_of ts k = map_of (mTopics m) k" by auto
    have "if k \<in> set (name # order) \<and> map_of meta k \<noteq> None
         then \<exists>t. map_of ts k = Some t \<and> map_of meta k = Some (disk_topic t) \<and> topic_holds (P k) t
         else map_of ts k = map_of (mTopics m) k" for k
      using spec [OF ts(4), of k] None by (cases "k = name") simp_all
    then show ?thesis using None ts(1-3) by (intro exI [of _ ts] exI [of _ fs']) simp
  next
    case (Some dt)
    then have ld: "loadable m P name dt fs" using Cons.prems(2) by simp
    obtain t fs1 where t: "load_topic name dt m fs = (Inr (m\<lparr>mTopics := AList.update name t (mTopics m)\<rparr>), fs1)"
      "disk_topic t = dt" "topic_holds (P name) t" "only_dirs name {0..<nat (dtPartitionCount dt)} fs fs1"
      using load_topic_ok [OF ld] by blast
    let ?m1 = "m\<lparr>mTopics := AList.update name t (mTopics m)\<rparr>"
    have vn: "topicNameRegex name" using ld by (simp add: loadable_def disk_topic_ok_def)
    have ld1: "loadable ?m1 P name' dt' fs1" if "name' \<in> set order" "map_of meta name' = Some dt'" for name' dt'
    proof -
      have l: "loadable m P name' dt' fs" using Cons.prems(2) that by simp
      have "name' \<noteq> name" "topicNameRegex name'" using Cons.prems(1) that l by (auto simp: loadable_def disk_topic_ok_def)
      then have "pDir name' k \<notin> pDir name ` I" for k I by (metis imageE pDir_inj vn)
      then have "partDirs fs1 (pDir name' k) = partDirs fs (pDir name' k)" for k
        using t(4) by (simp add: only_dirs_def)
      then show ?thesis using l by (simp add: loadable_def opens_config)
    qed
    have tok: "topics_ok ?m1" using Cons.prems(3) ld t(2) by (intro topics_ok_update) (auto simp: loadable_def)
    from Cons.IH [of ?m1 fs1] ld1 tok Cons.prems(1) obtain ts fs' where ts:
      "load_topics order meta ?m1 fs1 = (Inr (?m1\<lparr>mTopics := ts\<rparr>), fs')" "metaDisk fs' = metaDisk fs1" "topics_ok (?m1\<lparr>mTopics := ts\<rparr>)"
      "\<forall>k. if k \<in> set order \<and> map_of meta k \<noteq> None
         then \<exists>t. map_of ts k = Some t \<and> map_of meta k = Some (disk_topic t) \<and> topic_holds (P k) t
         else map_of ts k = map_of (mTopics ?m1) k" by auto
    have nm: "map_of ts name = Some t" using spec [OF ts(4), of name] Cons.prems(1) by (simp add: update_conv')
    have "if k \<in> set (name # order) \<and> map_of meta k \<noteq> None
         then \<exists>t. map_of ts k = Some t \<and> map_of meta k = Some (disk_topic t) \<and> topic_holds (P k) t
         else map_of ts k = map_of (mTopics m) k" for k
    proof (cases "k = name")
      case True
      then show ?thesis using nm t(2,3) Some by simp
    next
      case False
      then show ?thesis using spec [OF ts(4), of k] by (simp add: update_conv')
    qed
    moreover have "load_topics (name # order) meta m fs = (Inr (m\<lparr>mTopics := ts\<rparr>), fs')" using Some t(1) ts(1) by simp
    moreover have "metaDisk fs' = metaDisk fs" using ts(2) t(4) by (simp add: only_dirs_def)
    ultimately show ?thesis using ts(3) by (intro exI [of _ ts] exI [of _ fs']) simp
  qed
qed

text \<open>
  What a new process finds after a crash: the metadata directory, and every partition directory as its
  log left it. No call fails from there on.
\<close>

definition all_dirs :: "(gostring \<times> Topic) list \<Rightarrow> (gostring \<times> disk) list" where
  "all_dirs ts = concat (map (\<lambda>(name, t). map (\<lambda>(i, l). (pDir name i, logDisk l)) (enumerate 0 (tPartitions t))) ts)"

definition crashed :: "Manager \<Rightarrow> data_dir \<Rightarrow> data_dir" where
  "crashed m fs = \<lparr>metaDisk = restarted (metaDisk fs),
     partDirs = (\<lambda>p. map_option restarted ((partDirs fs ++ map_of (all_dirs (mTopics m))) p)), newFaults = (\<lambda>_. [])\<rparr>"

lemma map_of_topic_dirs:
  "topicNameRegex n \<Longrightarrow> topicNameRegex name \<Longrightarrow>
   map_of (map (\<lambda>(i, l). (pDir n i, logDisk l)) (enumerate j ls)) (pDir name k) =
     (if n = name \<and> j \<le> k \<and> k < j + length ls then Some (logDisk (ls ! (k - j))) else None)"
proof (induction ls arbitrary: j)
  case (Cons l ls)
  have "pDir n j = pDir name k \<longleftrightarrow> n = name \<and> j = k" using pDir_inj Cons.prems by blast
  then show ?case using Cons.IH [of "Suc j"] Cons.prems by (auto simp: nth_Cons')
qed simp

lemma map_of_all_dirs:
  assumes "\<forall>(k, t) \<in> set ts. topicNameRegex k" "distinct (map fst ts)" "map_of ts name = Some t" "k < length (tPartitions t)"
  shows "map_of (all_dirs ts) (pDir name k) = Some (logDisk (tPartitions t ! k))"
  using assms
proof (induction ts)
  case (Cons x ts)
  obtain n t' where x: "x = (n, t')" by fastforce
  have vn: "topicNameRegex n" using Cons.prems(1) x by auto
  have "topicNameRegex name" using Cons.prems(1,3) map_of_SomeD by fastforce
  note D = map_of_topic_dirs [OF vn this, of 0 "tPartitions t'" k]
  show ?case
  proof (cases "n = name")
    case True
    then show ?thesis using Cons.prems(3,4) D x by (simp add: all_dirs_def)
  next
    case False
    then show ?thesis using Cons D x by (simp add: all_dirs_def map_add_def)
  qed
qed simp

definition log_recoverable :: "int \<Rightarrow> Log \<Rightarrow> stored_record list \<Rightarrow> bool" where
  "log_recoverable mb l rs \<longleftrightarrow> (\<exists>segs t fin. disk_log mb (logDisk l) segs t fin \<and>
     (\<forall>b \<in> set (concat (map snd segs)). clean b) \<and> small (24 * 2 ^ 32) (map snd segs) \<and> rs = concat (concat (map snd segs)))"

lemma recoverable_opens:
  assumes "log_recoverable (mMaxBatchBytes m) l rs" "mMaxBatchBytes m < 2 ^ 31" "mSegmentMaxBytes m < 2 ^ 63"
  shows "opens m (restarted (logDisk l)) (\<lambda>l. log_holds l rs)"
proof -
  obtain segs t fin where L: "disk_log (mMaxBatchBytes m) (logDisk l) segs t fin" "\<forall>b \<in> set (concat (map snd segs)). clean b"
    "small (24 * 2 ^ 32) (map snd segs)" "rs = concat (concat (map snd segs))"
    using assms(1) by (auto simp: log_recoverable_def)
  obtain e s d' where op: "open_store (mSegmentMaxBytes m) (mMaxBatchBytes m) (mIndexIntervalBytes m) (mFlushMode m) [] (restarted (logDisk l)) = (e, s, d')"
    by (metis surj_pair)
  note R = reopen_ok [OF L(1-3) assms(2,3) op]
  then have "store_repr (observe (ObserveRecovery False) s) d' (map snd segs)" by simp
  then show ?thesis
    using R L(4) by (auto simp: opens_def NewLog_def OpenStore_def op log_holds_def log_healthy_def)
qed

lemma healthy_recoverable:
  assumes "store_repr (logStore l) (logDisk l) bss" "\<forall>b \<in> set (concat bss). clean b" "small (2 ^ 36) bss"
  shows "log_recoverable (maxBatchBytes (logStore l)) l (concat (concat bss))"
proof -
  note D = store_repr_disk [OF assms(1)]
  have "small (24 * 2 ^ 32) (map snd (disk_segs (logStore l) bss))" using assms(3) by (auto simp: D(2) small_def)
  then show ?thesis
    using D(1,2) assms(2) unfolding log_recoverable_def
    by (intro exI [of _ "disk_segs (logStore l) bss"] exI [of _ "[]"] exI [of _ "logEndOffset (logStore l)"]) simp
qed

text \<open>An iteration over a map visits every key once.\<close>

definition iterates :: "(TopicsMetadata \<Rightarrow> gostring list) \<Rightarrow> bool" where
  "iterates order \<longleftrightarrow> (\<forall>ts. distinct (map fst ts) \<longrightarrow> distinct (order (Some ts)) \<and> set (order (Some ts)) = fst ` set ts)"

lemma NewManager_reopens:
  assumes "manager_ok m fs" "iterates order" "files (metaDisk fs1) = files (metaDisk fs)" "faults (metaDisk fs1) = []"
    and "\<forall>name t k. map_of (mTopics m) name = Some t \<longrightarrow> k < length (tPartitions t) \<longrightarrow>
      (\<exists>d. partDirs fs1 (pDir name k) = Some d \<and> opens m d (P name k))"
  shows "\<exists>m' fs'. NewManager order (mSegmentMaxBytes m) (mMaxBatchBytes m) (mIndexIntervalBytes m) (mFlushMode m) fs1 = (Inr m', fs') \<and>
    manager_ok m' fs' \<and> m' = m\<lparr>mTopics := mTopics m', mDefaultMaxAgeSeconds := 0, mDefaultMaxBytes := 0\<rparr> \<and>
    (\<forall>name. map_option disk_topic (map_of (mTopics m') name) = map_option disk_topic (map_of (mTopics m) name)) \<and>
    (\<forall>name t k. map_of (mTopics m') name = Some t \<longrightarrow> k < length (tPartitions t) \<longrightarrow> P name k (tPartitions t ! k))"
proof -
  define m0 where "m0 = \<lparr>mTopics = [], mSegmentMaxBytes = mSegmentMaxBytes m, mMaxBatchBytes = mMaxBatchBytes m,
    mIndexIntervalBytes = mIndexIntervalBytes m, mFlushMode = mFlushMode m, mDefaultMaxAgeSeconds = 0, mDefaultMaxBytes = 0\<rparr>"
  let ?new = "NewManager order (mSegmentMaxBytes m) (mMaxBatchBytes m) (mIndexIntervalBytes m) (mFlushMode m) fs1"
  obtain ts where ts: "meta_file (metaDisk fs) ts" "\<forall>k. map_of ts k = map_option disk_topic (map_of (mTopics m) k)"
    using assms(1) by (auto simp: manager_ok_def)
  have ok: "topics_ok m" "metadata_ok ts" using assms(1) ts(1) by (auto simp: manager_ok_def meta_file_def)
  let ?md = "metaDisk fs1"
  have md: "meta_file ?md ts" "faults ?md = []" using ts(1) assms(3,4) meta_file_cong [of ?md "metaDisk fs"] by simp_all
  have opm: "opens m0 = opens m" by (simp add: opens_def m0_def fun_eq_iff)
  have dirs: "\<exists>d. partDirs fs1 (pDir name k) = Some d \<and> opens m0 d (P name k)"
    if "map_of (mTopics m) name = Some t" "k < length (tPartitions t)" for name t k
    using assms(5) that opm by simp
  have load: "loadable m0 P name dt fs1" if n: "map_of ts name = Some dt" for name dt
  proof -
    obtain t where t: "map_of (mTopics m) name = Some t" "dt = disk_topic t"
      using n spec [OF ts(2), of name] by (cases "map_of (mTopics m) name") auto
    have "disk_topic_ok name dt" using ok(2) n by (auto simp: metadata_ok_def dest: map_of_SomeD)
    then show ?thesis using dirs [OF t(1)] t(2) by (simp add: loadable_def disk_topic_def)
  qed
  have topics0: "topics_ok m0" by (simp add: topics_ok_def m0_def)
  show ?thesis
  proof (cases "map_of (files ?md) metadataFile")
    case None
    then have "ts = []" using md(1) by (auto simp: meta_file_def)
    then have none: "map_of (mTopics m) k = None" for k using ts(2) by (metis map_of.simps(1) option.map_disc_iff)
    have new: "?new = (Inr m0, fs1)"
      using None md(2) by (simp add: NewManager_def sys_stat_def m0_def)
    moreover have "manager_ok m0 fs1"
      using topics0 md(1) \<open>ts = []\<close> by (auto simp: manager_ok_def m0_def intro!: exI [of _ "[]"])
    moreover have "m0 = m\<lparr>mTopics := mTopics m0, mDefaultMaxAgeSeconds := 0, mDefaultMaxBytes := 0\<rparr>"
      by (cases m) (simp add: m0_def)
    ultimately show ?thesis using none by (intro exI [of _ m0] exI [of _ "fs1"]) (simp add: m0_def)
  next
    case (Some c)
    then have c: "c = MarshalMetadata (Some ts)" using md(1) by (auto simp: meta_file_def)
    let ?ts = "sort_key fst ts"
    note S = metadata_ok_sorted [OF ok(2)]
    have order: "distinct (order (Some ?ts))" "set (order (Some ?ts)) = fst ` set ?ts"
      using assms(2) S(1) by (auto simp: iterates_def metadata_ok_def)
    have ne: "map_of ts k \<noteq> None \<longleftrightarrow> k \<in> set (order (Some ?ts))" for k using order(2) by (simp add: map_of_eq_None_iff)
    have ld: "\<forall>name \<in> set (order (Some ?ts)). \<forall>dt. map_of ?ts name = Some dt \<longrightarrow> loadable m0 P name dt fs1"
      using load S(2) by simp
    from load_topics_ok [OF order(1) ld topics0] obtain tl fs' where tl:
      "load_topics (order (Some ?ts)) ?ts m0 fs1 = (Inr (m0\<lparr>mTopics := tl\<rparr>), fs')" "metaDisk fs' = metaDisk fs1"
      "topics_ok (m0\<lparr>mTopics := tl\<rparr>)"
      "\<forall>k. if k \<in> set (order (Some ?ts)) \<and> map_of ?ts k \<noteq> None
         then \<exists>t. map_of tl k = Some t \<and> map_of ?ts k = Some (disk_topic t) \<and> topic_holds (P k) t
         else map_of tl k = map_of (mTopics m0) k" by blast
    have st: "sys_stat metadataFile ?md = (Inr (length c), ?md)" using Some md(2) by (simp add: sys_stat_def)
    have rd: "ReadFile metadataFile ?md = (Inr c, ?md)"
      using Some md(2) by (simp add: ReadFile_def sys_open_def sys_pread_def content_def)
    have um: "UnmarshalMetadata c None = Inr (Some ?ts)" unfolding c by (rule Unmarshal_Marshal [OF ok(2)]) simp
    have upd: "fs1\<lparr>metaDisk := ?md\<rparr> = fs1" by simp
    have new: "?new = (Inr (m0\<lparr>mTopics := tl\<rparr>), fs')"
      using tl(1) by (simp add: NewManager_def m0_def Let_def st rd um upd)
    have each: "map_option disk_topic (map_of tl k) = map_of ts k \<and> (\<forall>t. map_of tl k = Some t \<longrightarrow> topic_holds (P k) t)" for k
      using spec [OF tl(4), of k] ne [of k] S(2) by (auto simp: m0_def split: if_splits)
    have "manager_ok (m0\<lparr>mTopics := tl\<rparr>) fs'"
      using tl(2,3) md(1) each by (auto simp: manager_ok_def intro!: exI [of _ ts])
    moreover have "m0\<lparr>mTopics := tl\<rparr> = m\<lparr>mTopics := tl, mDefaultMaxAgeSeconds := 0, mDefaultMaxBytes := 0\<rparr>"
      by (cases m) (simp add: m0_def)
    ultimately show ?thesis using new each ts(2) by (intro exI [of _ "m0\<lparr>mTopics := tl\<rparr>"] exI [of _ fs']) (auto simp: topic_holds_def)
  qed
qed

text \<open>The directories that a new process finds hold the files of the old one, and no call fails.\<close>

definition found_dirs :: "Manager \<Rightarrow> data_dir \<Rightarrow> data_dir \<Rightarrow> bool" where
  "found_dirs m fs fs1 \<longleftrightarrow> files (metaDisk fs1) = files (metaDisk fs) \<and> faults (metaDisk fs1) = [] \<and>
     (\<forall>name t k. map_of (mTopics m) name = Some t \<longrightarrow> k < length (tPartitions t) \<longrightarrow>
        (\<exists>d. partDirs fs1 (pDir name k) = Some d \<and> files d = files (logDisk (tPartitions t ! k)) \<and> faults d = []))"

lemma crashed_dirs:
  assumes "topics_ok m" "map_of (mTopics m) name = Some t" "k < length (tPartitions t)"
  shows "partDirs (crashed m fs) (pDir name k) = Some (restarted (logDisk (tPartitions t ! k)))"
proof -
  have "\<forall>(k, t) \<in> set (mTopics m). topicNameRegex k" "distinct (map fst (mTopics m))"
    using assms(1) by (auto simp: topics_ok_def disk_topic_ok_def)
  from map_of_all_dirs [OF this assms(2,3)] show ?thesis by (simp add: crashed_def)
qed

lemma crashed_found: "topics_ok m \<Longrightarrow> found_dirs m fs (crashed m fs)"
  using crashed_dirs [of m] by (simp add: found_dirs_def restarted_def) (simp add: crashed_def restarted_def)


text \<open>One topic with one partition, the sample log.\<close>

definition sample_topic :: Topic where
  "sample_topic = \<lparr>tName = str ''a.b'', tPartitions = [\<lparr>logStore = sample_store, logDisk = sample_disk\<rparr>], tRetention = no_limits\<rparr>"

definition busy_manager :: Manager where
  "busy_manager = sample_manager\<lparr>mTopics := [(str ''a.b'', sample_topic)]\<rparr>"

definition busy_data_dir :: data_dir where
  "busy_data_dir = \<lparr>metaDisk = \<lparr>files = [(metadataFile, MarshalMetadata (Some [(str ''a.b'', disk_topic sample_topic)]))],
       flushed = [], entries = [], faults = []\<rparr>, partDirs = Map.empty, newFaults = (\<lambda>_. [])\<rparr>"

lemma busy_manager_ok: "manager_ok busy_manager busy_data_dir"
proof -
  have "disk_topic_ok (str ''a.b'') (disk_topic sample_topic)"
    using sample_name_ok by (simp add: disk_topic_ok_def disk_topic_def sample_topic_def MaxPartitionsPerTopic_def)
  then show ?thesis
    by (auto simp: manager_ok_def topics_ok_def busy_manager_def busy_data_dir_def meta_file_def metadata_ok_def
        intro!: exI [of _ "[(str ''a.b'', disk_topic sample_topic)]"])
qed

lemma busy_log: "map_of (mTopics busy_manager) name = Some t \<Longrightarrow> name = str ''a.b'' \<and> t = sample_topic"
  by (simp add: busy_manager_def split: if_splits)


section \<open>Listing\<close>

lemma insort_key_map: "insort_key f (g x) (map g xs) = map g (insort_key (\<lambda>x. f (g x)) x xs)"
  by (induction xs) auto

lemma sort_key_map: "sort_key f (map g xs) = map g (sort_key (\<lambda>x. f (g x)) xs)"
  by (induction xs) (simp_all add: insort_key_map)

lemma insort_key_self: "h x = x \<Longrightarrow> \<forall>k \<in> set xs. h k = k \<Longrightarrow> insort_key h x xs = insort x xs"
  by (induction xs) auto

lemma sort_key_self: "\<forall>k \<in> set xs. h k = k \<Longrightarrow> sort_key h xs = sort xs"
proof (induction xs)
  case (Cons x xs)
  then have "insort_key h x (sort xs) = insort x (sort xs)" by (intro insort_key_self) auto
  then show ?case using Cons by simp
qed simp

text \<open>In the order of their names, whatever the order of the iteration.\<close>

lemma ListTopics_eq:
  assumes "topics_ok m" "set order = fst ` set (mTopics m)"
  shows "ListTopics order m = map (the \<circ> map_of (mTopics m)) (sort order)" "map tName (ListTopics order m) = sort order"
proof -
  let ?g = "the \<circ> map_of (mTopics m)"
  have some: "\<exists>t. map_of (mTopics m) k = Some t \<and> tName t = k" if k: "k \<in> set order" for k
  proof -
    have "map_of (mTopics m) k \<noteq> None" using k assms(2) by (simp add: map_of_eq_None_iff)
    then show ?thesis using assms(1) by (auto simp: topics_ok_def disk_topic_ok_def disk_topic_def dest!: map_of_SomeD)
  qed
  have filt: "List.map_filter (map_of (mTopics m)) ks = map ?g ks" if "set ks \<subseteq> set order" for ks
    using that some by (induction ks) (fastforce simp: map_filter_simps)+
  have self: "(tName \<circ> ?g) k = k" if "k \<in> set order" for k using some [OF that] by auto
  show eq: "ListTopics order m = map ?g (sort order)"
    using self sort_key_self [of order "\<lambda>k. tName (?g k)"] by (simp add: ListTopics_def filt sort_key_map)
  have "map (tName \<circ> ?g) (sort order) = sort order" using self by (intro map_idI) simp
  then show "map tName (ListTopics order m) = sort order" by (simp add: eq)
qed

lemma sort_unique: "distinct xs \<Longrightarrow> distinct ys \<Longrightarrow> set xs = set ys \<Longrightarrow> sort xs = sort (ys :: 'a :: linorder list)"
  by (rule sorted_distinct_set_unique) simp_all

text \<open>
  The list of topics is sorted by name and has every topic once, whatever order the map is
  iterated in: two iterations give the same list.
\<close>

theorem list_topics_sorted:
  assumes "topics_ok m" "distinct order" "set order = fst ` set (mTopics m)"
  shows "map tName (ListTopics order m) = sort (map fst (mTopics m)) \<and>
    (\<forall>t \<in> set (ListTopics order m). GetTopic (tName t) m = Inr t) \<and>
    (\<forall>order'. distinct order' \<and> set order' = set order \<longrightarrow> ListTopics order' m = ListTopics order m)"
proof (intro conjI allI impI ballI)
  note L = ListTopics_eq [OF assms(1,3)]
  show "map tName (ListTopics order m) = sort (map fst (mTopics m))"
    using sort_unique [of "map fst (mTopics m)" order] assms L(2) by (simp add: topics_ok_def)
  fix t assume "t \<in> set (ListTopics order m)"
  then obtain k where k: "k \<in> fst ` set (mTopics m)" "t = the (map_of (mTopics m) k)" using assms(3) L(1) by auto
  then have t: "map_of (mTopics m) k = Some t" by (metis map_of_eq_None_iff option.collapse)
  then have "tName t = k" using assms(1) map_of_SomeD [OF t] by (auto simp: topics_ok_def disk_topic_ok_def disk_topic_def)
  then show "GetTopic (tName t) m = Inr t" using t by (simp add: GetTopic_def)
next
  fix order' assume "distinct order' \<and> set order' = set order"
  then show "ListTopics order' m = ListTopics order m"
    using ListTopics_eq(1) [OF assms(1), of order'] ListTopics_eq(1) [OF assms(1,3)] sort_unique [of order' order] assms(2,3) by metis
qed

theorem list_topics_sorted_witness: "ListTopics [str ''a.b''] busy_manager = [sample_topic]"
proof -
  have ok: "topics_ok busy_manager" using busy_manager_ok by (simp add: manager_ok_def)
  have p: "distinct [str ''a.b'']" "set [str ''a.b''] = fst ` set (mTopics busy_manager)" by (simp_all add: busy_manager_def)
  from list_topics_sorted [OF ok p]
  have L: "map tName (ListTopics [str ''a.b''] busy_manager) = sort (map fst (mTopics busy_manager))"
    "\<forall>t \<in> set (ListTopics [str ''a.b''] busy_manager). GetTopic (tName t) busy_manager = Inr t" by blast+
  have "sort (map fst (mTopics busy_manager)) = [str ''a.b'']" by (simp add: busy_manager_def)
  then obtain t where t: "ListTopics [str ''a.b''] busy_manager = [t]" "tName t = str ''a.b''"
    using L(1) by (auto simp: map_eq_Cons_conv)
  have "GetTopic (str ''a.b'') busy_manager = Inr t" using L(2) t by simp
  then show ?thesis using t(1) by (simp add: GetTopic_def busy_manager_def)
qed

end
