(* ===== verification/Offset_Store.thy ===== *)
theory Offset_Store
  imports Segment
begin

text \<open>
  The store of committed consumer offsets (\<^verbatim>\<open>internal/offsets/store.go\<close>): an append-only file of
  checksummed entries and a map in memory, with recovery of the map from the file. The lemmas show
  that the map is what the entries of the file say, that a commit is atomic and durable, and that
  damage to the file is reported and never taken for an offset.
\<close>

section \<open>State\<close>

record Key =
  kGroup :: gostring
  kTopic :: gostring
  kPartition :: u32

record offset_store =
  filePath :: gostring
  offsets :: "Key \<rightharpoonup> u64"
  oSize :: nat
  oClosed :: bool
  oWriteFailed :: bool

definition OffsetPrefixSize :: nat where
  "OffsetPrefixSize = 9"

definition OffsetMinRemainder :: nat where
  "OffsetMinRemainder = 32"

definition MaxConsumerGroupBytes :: nat where
  "MaxConsumerGroupBytes = 255"

definition MaxTopicNameBytes :: nat where
  "MaxTopicNameBytes = 255"

definition MaxOffsetEntryBytes :: nat where
  "MaxOffsetEntryBytes = 1024"

lemmas offset_consts = OffsetPrefixSize_def OffsetMinRemainder_def MaxConsumerGroupBytes_def MaxTopicNameBytes_def
  MaxOffsetEntryBytes_def

definition OffsetMagic :: bytes where
  "OffsetMagic = [0x4F, 0x46, 0x46, 0x53]"

section \<open>Entries\<close>

text \<open>The buffers of \<^verbatim>\<open>Commit\<close>, filled field by field.\<close>

definition commit_payload :: "Key \<Rightarrow> u64 \<Rightarrow> i64 \<Rightarrow> bytes" where
  "commit_payload k nxt ts =
     (let gl = length (kGroup k); tl = length (kTopic k);
          payload = replicate (28 + gl + tl) 0;
          payload = blit payload 0 (PutUint32 (of_nat gl));
          payload = blit payload 4 (kGroup k);
          off = 4 + gl;
          payload = blit payload off (PutUint32 (of_nat tl));
          payload = blit payload (off + 4) (kTopic k);
          off = off + 4 + tl;
          payload = blit payload off (PutUint32 (kPartition k));
          payload = blit payload (off + 4) (PutUint64 nxt)
      in blit payload (off + 12) (PutUint64 ts))"

definition encode_commit :: "Key \<Rightarrow> u64 \<Rightarrow> i64 \<Rightarrow> bytes" where
  "encode_commit k nxt ts =
     (let entryLength = of_nat (OffsetMinRemainder + length (kGroup k) + length (kTopic k)) :: u32;
          totalSize = OffsetPrefixSize + unat entryLength;
          encoded = replicate totalSize 0;
          encoded = blit encoded 0 OffsetMagic;
          encoded = encoded[4 := 1];
          encoded = blit encoded 5 (PutUint32 entryLength);
          payload = commit_payload k nxt ts;
          encoded = blit encoded 9 (PutUint32 (ChecksumIEEE payload))
      in blit encoded 13 payload)"

text \<open>
  The checks of \<^verbatim>\<open>recover\<close> on a complete entry. The differences of unsigned 32-bit integers in the code
  never wrap, because the checks before them keep \<^verbatim>\<open>cursor\<close> within the payload.
\<close>

definition decode_commit :: "bytes \<Rightarrow> nat \<Rightarrow> err + Key \<times> u64" where
  "decode_commit frame entryLength =
     (let payload = drop 4 frame; len = length payload in
      if Uint32 (gslice frame 0 4) \<noteq> ChecksumIEEE payload then Inl ErrCorruptOffsetLog
      else if len < 4 then Inl ErrCorruptOffsetLog
      else
      let groupLen = unat (Uint32 (gslice payload 0 4)); cursor = 4 in
      if groupLen = 0 \<or> groupLen > MaxConsumerGroupBytes then Inl ErrCorruptOffsetLog
      else if groupLen > len - cursor then Inl ErrCorruptOffsetLog
      else
      let grp = gslice payload cursor (cursor + groupLen); cursor = cursor + groupLen in
      if \<not> utf8_valid grp then Inl ErrCorruptOffsetLog
      else if len - cursor < 4 then Inl ErrCorruptOffsetLog
      else
      let topicLen = unat (Uint32 (gslice payload cursor (cursor + 4))); cursor = cursor + 4 in
      if topicLen = 0 \<or> topicLen > MaxTopicNameBytes then Inl ErrCorruptOffsetLog
      else if topicLen > len - cursor then Inl ErrCorruptOffsetLog
      else
      let topic = gslice payload cursor (cursor + topicLen); cursor = cursor + topicLen in
      if \<not> utf8_valid topic then Inl ErrCorruptOffsetLog
      else if entryLength \<noteq> OffsetMinRemainder + groupLen + topicLen then Inl ErrCorruptOffsetLog
      else if len - cursor \<noteq> 20 then Inl ErrCorruptOffsetLog
      else Inr (\<lparr>kGroup = grp, kTopic = topic, kPartition = Uint32 (gslice payload cursor (cursor + 4))\<rparr>,
                Uint64 (gslice payload (cursor + 4) (cursor + 12))))"

section \<open>Recovery\<close>

definition file_read :: "gostring \<Rightarrow> nat \<Rightarrow> nat \<Rightarrow> disk \<Rightarrow> (err + bytes) \<times> disk" where
  "file_read p n pos d =
     (case sys_pread p (int pos) n d of
        (ReadOk bs, d) \<Rightarrow> (Inr bs, d)
      | (ReadEOF _, d) \<Rightarrow> (Inl EOF, d)
      | (ReadErr e, d) \<Rightarrow> (Inl e, d))"

definition truncateAndSync :: "gostring \<Rightarrow> nat \<Rightarrow> disk \<Rightarrow> err option \<times> disk" where
  "truncateAndSync p n d =
     (case sys_truncate p n d of
        (Inl e, d) \<Rightarrow> (Some e, d)
      | (Inr _, d) \<Rightarrow> (case sys_fsync p d of (Inl e, d) \<Rightarrow> (Some e, d) | (Inr _, d) \<Rightarrow> (None, d)))"

text \<open>
  One round of the loop at \<open>pos\<close>: the decoded entry and its end, or \<open>None\<close> after the incomplete tail was
  cut off.
\<close>

definition recover_entry :: "gostring \<Rightarrow> nat \<Rightarrow> nat \<Rightarrow> disk \<Rightarrow> (err + (Key \<times> u64 \<times> nat) option) \<times> disk" where
  "recover_entry p fileSize pos d =
     (let cut = (\<lambda>d. case truncateAndSync p pos d of (Some e, d) \<Rightarrow> (Inl e, d) | (None, d) \<Rightarrow> (Inr None, d)) in
      if fileSize - pos < OffsetPrefixSize then cut d
      else
      case file_read p OffsetPrefixSize pos d of
        (Inl e, d) \<Rightarrow> (Inl e, d)
      | (Inr prefixBuf, d) \<Rightarrow>
          let entryLength = unat (Uint32 (gslice prefixBuf 5 9)) in
          if gslice prefixBuf 0 4 \<noteq> OffsetMagic \<or> prefixBuf ! 4 \<noteq> 1 then (Inl ErrCorruptOffsetLog, d)
          else if entryLength < OffsetMinRemainder then (Inl ErrCorruptOffsetLog, d)
          else if entryLength > MaxOffsetEntryBytes then (Inl ErrCorruptOffsetLog, d)
          else if pos + OffsetPrefixSize + entryLength > fileSize then cut d
          else
          (case file_read p entryLength (pos + OffsetPrefixSize) d of
             (Inl e, d) \<Rightarrow> (Inl e, d)
           | (Inr frame, d) \<Rightarrow>
               (case decode_commit frame entryLength of
                  Inl e \<Rightarrow> (Inl e, d)
                | Inr (key, nxt) \<Rightarrow> (Inr (Some (key, nxt, pos + OffsetPrefixSize + entryLength)), d))))"

lemma recover_entry_end: "recover_entry p fileSize pos d = (Inr (Some (key, n, e)), d') \<Longrightarrow> pos < e \<and> e \<le> fileSize"
  by (auto simp: recover_entry_def Let_def OffsetPrefixSize_def split: if_splits sum.splits option.splits prod.splits)

function recover_offsets :: "gostring \<Rightarrow> nat \<Rightarrow> nat \<Rightarrow> (Key \<rightharpoonup> u64) \<Rightarrow> disk \<Rightarrow> (err + nat \<times> (Key \<rightharpoonup> u64)) \<times> disk" where
  "recover_offsets p fileSize pos offs d =
     (if pos < fileSize then
        case recover_entry p fileSize pos d of
          (Inl e, d) \<Rightarrow> (Inl e, d)
        | (Inr None, d) \<Rightarrow> (Inr (pos, offs), d)
        | (Inr (Some (key, nxt, entryEnd)), d) \<Rightarrow> recover_offsets p fileSize entryEnd (offs(key \<mapsto> nxt)) d
      else (Inr (pos, offs), d))"
  by pat_completeness auto
termination
  by (relation "measure (\<lambda>(p, fileSize, pos, offs, d). fileSize - pos)") (auto dest!: recover_entry_end [OF sym])

declare recover_offsets.simps [simp del]

text \<open>The names of an error path that closes the file again have no other effect.\<close>

definition OpenOffsetStore :: "gostring \<Rightarrow> disk \<Rightarrow> (err + offset_store) \<times> disk" where
  "OpenOffsetStore p d =
     (case sys_mkdir d of
        (Inl e, d) \<Rightarrow> (Inl e, d)
      | (Inr _, d) \<Rightarrow>
      (case sys_open_create p d of
        (Inl e, d) \<Rightarrow> (Inl e, d)
      | (Inr _, d) \<Rightarrow>
      (case sys_stat p d of
        (Inl e, d) \<Rightarrow> (Inl e, snd (sys_close d))
      | (Inr fileSize, d) \<Rightarrow>
      (case recover_offsets p fileSize 0 Map.empty d of
        (Inl e, d) \<Rightarrow> (Inl e, snd (sys_close d))
      | (Inr (validSize, offs), d) \<Rightarrow>
          (Inr \<lparr>filePath = p, offsets = offs, oSize = validSize, oClosed = False, oWriteFailed = False\<rparr>, d)))))"

section \<open>Operations\<close>

definition valid_name :: "nat \<Rightarrow> gostring \<Rightarrow> bool" where
  "valid_name mx s \<longleftrightarrow> \<not> (length s = 0 \<or> length s > mx \<or> \<not> utf8_valid s)"

definition Commit :: "i64 \<Rightarrow> gostring \<Rightarrow> gostring \<Rightarrow> u32 \<Rightarrow> u64 \<Rightarrow> offset_store \<Rightarrow> disk \<Rightarrow> err option \<times> offset_store \<times> disk" where
  "Commit ts grp topic part nxt s d =
     (if \<not> valid_name MaxConsumerGroupBytes grp then (Some ErrInvalidArgument, s, d)
      else if \<not> valid_name MaxTopicNameBytes topic then (Some ErrInvalidArgument, s, d)
      else if oClosed s then (Some ErrOffsetStoreClosed, s, d)
      else if oWriteFailed s then (Some ErrOffsetStoreUnavailable, s, d)
      else
      let key = \<lparr>kGroup = grp, kTopic = topic, kPartition = part\<rparr>;
          encoded = encode_commit key nxt ts in
      case sys_pwrite (filePath s) (oSize s) encoded d of
        ((_, Some e), d) \<Rightarrow> (Some e, s\<lparr>oWriteFailed := True\<rparr>, d)
      | ((n, None), d) \<Rightarrow>
          if n \<noteq> length encoded then (Some ErrShortWrite, s\<lparr>oWriteFailed := True\<rparr>, d)
          else
          (case sys_fsync (filePath s) d of
             (Inl e, d) \<Rightarrow> (Some e, s\<lparr>oWriteFailed := True\<rparr>, d)
           | (Inr _, d) \<Rightarrow>
               (None, s\<lparr>oSize := oSize s + length encoded, offsets := (offsets s)(key \<mapsto> nxt)\<rparr>, d)))"

definition Get :: "gostring \<Rightarrow> gostring \<Rightarrow> u32 \<Rightarrow> offset_store \<Rightarrow> err + u64 option" where
  "Get grp topic part s =
     (if oClosed s then Inl ErrOffsetStoreClosed
      else if oWriteFailed s then Inl ErrOffsetStoreUnavailable
      else Inr (offsets s \<lparr>kGroup = grp, kTopic = topic, kPartition = part\<rparr>))"

definition CloseOffsets :: "offset_store \<Rightarrow> disk \<Rightarrow> err option \<times> offset_store \<times> disk" where
  "CloseOffsets s d =
     (if oClosed s then (None, s, d)
      else
      let s = s\<lparr>oClosed := True\<rparr>;
          (syncErr, d) = (if \<not> oWriteFailed s then let (r, d) = sys_fsync (filePath s) d in (err_of r, d) else (None, d));
          (r, d) = sys_close d
      in (join_err syncErr (err_of r), s, d))"

section \<open>The entries of the file\<close>

text \<open>A commit as it is recorded: the key, the next offset and the time.\<close>

type_synonym commit = "Key \<times> u64 \<times> i64"

fun commit_ok :: "commit \<Rightarrow> bool" where
  "commit_ok (k, n, t) \<longleftrightarrow> valid_name MaxConsumerGroupBytes (kGroup k) \<and> valid_name MaxTopicNameBytes (kTopic k)"

fun commit_bytes :: "commit \<Rightarrow> bytes" where
  "commit_bytes (k, n, t) = encode_commit k n t"

definition commits_bytes :: "commit list \<Rightarrow> bytes" where
  "commits_bytes cs = concat (map commit_bytes cs)"

definition committed :: "commit list \<Rightarrow> Key \<rightharpoonup> u64" where
  "committed cs = foldl (\<lambda>m (k, n, t). m(k \<mapsto> n)) Map.empty cs"

lemma commits_bytes_simps [simp]:
  "commits_bytes [] = []" "commits_bytes (c # cs) = commit_bytes c @ commits_bytes cs"
  "commits_bytes (cs @ ds) = commits_bytes cs @ commits_bytes ds"
  by (simp_all add: commits_bytes_def)

lemma committed_simps [simp]: "committed [] = Map.empty" "committed (cs @ [(k, n, t)]) = (committed cs)(k \<mapsto> n)"
  by (simp_all add: committed_def)

lemma valid_nameD: "valid_name mx s \<Longrightarrow> 0 < length s \<and> length s \<le> mx \<and> utf8_valid s"
  by (auto simp: valid_name_def)

definition payload_fields :: "Key \<Rightarrow> u64 \<Rightarrow> i64 \<Rightarrow> bytes" where
  "payload_fields k n t =
     PutUint32 (of_nat (length (kGroup k))) @ kGroup k @ PutUint32 (of_nat (length (kTopic k))) @ kTopic k @
     PutUint32 (kPartition k) @ PutUint64 n @ PutUint64 t"

lemma length_payload_fields [simp]: "length (payload_fields k n t) = 28 + length (kGroup k) + length (kTopic k)"
  by (simp add: payload_fields_def)

lemma commit_payload_eq: "commit_payload k n t = payload_fields k n t"
proof -
  let ?gl = "length (kGroup k)" and ?tl = "length (kTopic k)"
  define buf where "buf = replicate (28 + ?gl + ?tl) (0 :: byte)"
  let ?g = "PutUint32 (of_nat ?gl)" and ?t = "PutUint32 (of_nat ?tl)" and ?p = "PutUint32 (kPartition k)"
  have len: "length buf = 28 + ?gl + ?tl" by (simp add: buf_def)
  have 1: "blit (blit buf 0 ?g) 4 (kGroup k) = blit buf 0 (?g @ kGroup k)"
    using blit_blit [of 0 ?g "kGroup k" buf] len by simp
  have 2: "blit (blit buf 0 (?g @ kGroup k)) (4 + ?gl) ?t = blit buf 0 (?g @ kGroup k @ ?t)"
    using blit_blit [of 0 "?g @ kGroup k" ?t buf] len by simp
  have 3: "blit (blit buf 0 (?g @ kGroup k @ ?t)) (4 + ?gl + 4) (kTopic k) = blit buf 0 (?g @ kGroup k @ ?t @ kTopic k)"
    using blit_blit [of 0 "?g @ kGroup k @ ?t" "kTopic k" buf] len by (simp add: ac_simps)
  have 4: "blit (blit buf 0 (?g @ kGroup k @ ?t @ kTopic k)) (4 + ?gl + 4 + ?tl) ?p
      = blit buf 0 (?g @ kGroup k @ ?t @ kTopic k @ ?p)"
    using blit_blit [of 0 "?g @ kGroup k @ ?t @ kTopic k" ?p buf] len by (simp add: ac_simps)
  have 5: "blit (blit buf 0 (?g @ kGroup k @ ?t @ kTopic k @ ?p)) (4 + ?gl + 4 + ?tl + 4) (PutUint64 n)
      = blit buf 0 (?g @ kGroup k @ ?t @ kTopic k @ ?p @ PutUint64 n)"
    using blit_blit [of 0 "?g @ kGroup k @ ?t @ kTopic k @ ?p" "PutUint64 n" buf] len by (simp add: ac_simps)
  have 6: "blit (blit buf 0 (?g @ kGroup k @ ?t @ kTopic k @ ?p @ PutUint64 n)) (4 + ?gl + 4 + ?tl + 12) (PutUint64 t)
      = blit buf 0 (payload_fields k n t)"
    using blit_blit [of 0 "?g @ kGroup k @ ?t @ kTopic k @ ?p @ PutUint64 n" "PutUint64 t" buf] len
    by (simp add: ac_simps payload_fields_def)
  show ?thesis
    unfolding commit_payload_def Let_def buf_def [symmetric] 1 2 3 4 5 6
    by (subst blit_full) (simp_all add: len)
qed

text \<open>An entry is the prefix of nine bytes, the checksum and the payload, with nothing left over.\<close>

definition prefix_bytes :: "nat \<Rightarrow> bytes" where
  "prefix_bytes n = OffsetMagic @ [1] @ PutUint32 (of_nat n)"

lemma length_prefix_bytes [simp]: "length (prefix_bytes n) = 9" "length OffsetMagic = 4"
  by (simp_all add: prefix_bytes_def OffsetMagic_def)

definition entry_length :: "Key \<Rightarrow> nat" where
  "entry_length k = OffsetMinRemainder + length (kGroup k) + length (kTopic k)"

lemma entry_length_bounds:
  assumes "commit_ok (k, n, t)"
  shows "32 \<le> entry_length k" "entry_length k \<le> 1024" "unat (of_nat (entry_length k) :: u32) = entry_length k"
  using assms unat_of_nat_u32 [of "entry_length k"] by (auto simp: entry_length_def offset_consts dest!: valid_nameD)

lemma encode_commit_eq:
  assumes "commit_ok (k, n, t)"
  shows "encode_commit k n t = prefix_bytes (entry_length k) @ PutUint32 (ChecksumIEEE (payload_fields k n t)) @ payload_fields k n t"
proof -
  let ?pl = "payload_fields k n t" and ?L = "entry_length k"
  define c where "c = PutUint32 (ChecksumIEEE ?pl)"
  note L = entry_length_bounds [OF assms]
  define buf where "buf = replicate (9 + ?L) (0 :: byte)"
  have len: "length buf = 9 + ?L" by (simp add: buf_def)
  have lpl: "length ?pl + 4 = ?L" by (simp add: entry_length_def offset_consts)
  have lc: "length c = 4" by (simp add: c_def)
  have 1: "(blit buf 0 OffsetMagic)[4 := 1] = blit buf 0 (OffsetMagic @ [1])"
    using len L(1) upd_conv_take_nth_drop [of 4 "blit buf 0 OffsetMagic" 1] by (simp add: blit_def)
  have 2: "blit (blit buf 0 (OffsetMagic @ [1])) 5 (PutUint32 (of_nat ?L)) = blit buf 0 (prefix_bytes ?L)"
    using blit_blit [of 0 "OffsetMagic @ [1]" "PutUint32 (of_nat ?L)" buf] len by (simp add: prefix_bytes_def)
  have 3: "blit (blit buf 0 (prefix_bytes ?L)) 9 c = blit buf 0 (prefix_bytes ?L @ c)"
    using blit_blit [of 0 "prefix_bytes ?L" c buf] len L(1) lc by simp
  have 4: "blit (blit buf 0 (prefix_bytes ?L @ c)) 13 ?pl = blit buf 0 (prefix_bytes ?L @ c @ ?pl)"
    using blit_blit [of 0 "prefix_bytes ?L @ c" ?pl buf] len lpl lc by simp
  have "encode_commit k n t = blit (blit (blit ((blit buf 0 OffsetMagic)[4 := 1]) 5 (PutUint32 (of_nat ?L))) 9 c) 13 ?pl"
    unfolding encode_commit_def Let_def commit_payload_eq c_def entry_length_def [symmetric] L(3) buf_def
    by (simp add: OffsetPrefixSize_def)
  also have "\<dots> = prefix_bytes ?L @ c @ ?pl" unfolding 1 2 3 4 using lpl lc len by (subst blit_full) simp_all
  finally show ?thesis by (simp add: c_def)
qed

lemma length_commit_bytes: "commit_ok (k, n, t) \<Longrightarrow> length (commit_bytes (k, n, t)) = 9 + entry_length k"
  by (simp add: encode_commit_eq entry_length_def offset_consts)

lemma decode_commit_payload:
  assumes ok: "commit_ok (k, n, t)"
  shows "decode_commit (PutUint32 (ChecksumIEEE (payload_fields k n t)) @ payload_fields k n t) (entry_length k) = Inr (k, n)"
proof -
  let ?pl = "payload_fields k n t" and ?gl = "length (kGroup k)" and ?tl = "length (kTopic k)"
  have G: "0 < ?gl" "?gl \<le> 255" "utf8_valid (kGroup k)" "0 < ?tl" "?tl \<le> 255" "utf8_valid (kTopic k)"
    using ok by (auto simp: offset_consts dest!: valid_nameD)
  have S: "sub_at ?pl 0 (PutUint32 (of_nat ?gl))" "sub_at ?pl 4 (kGroup k)" "sub_at ?pl (4 + ?gl) (PutUint32 (of_nat ?tl))"
    "sub_at ?pl (4 + ?gl + 4) (kTopic k)" "sub_at ?pl (4 + ?gl + 4 + ?tl) (PutUint32 (kPartition k))"
    "sub_at ?pl (4 + ?gl + 4 + ?tl + 4) (PutUint64 n)"
    using sub_at_self [of ?pl] unfolding payload_fields_def sub_at_append by (simp_all add: ac_simps)
  have at: "gslice ?pl 0 4 = PutUint32 (of_nat ?gl)" "gslice ?pl 4 (4 + ?gl) = kGroup k"
    "gslice ?pl (4 + ?gl) (4 + ?gl + 4) = PutUint32 (of_nat ?tl)" "gslice ?pl (4 + ?gl + 4) (4 + ?gl + 4 + ?tl) = kTopic k"
    "gslice ?pl (4 + ?gl + 4 + ?tl) (4 + ?gl + 4 + ?tl + 4) = PutUint32 (kPartition k)"
    "gslice ?pl (4 + ?gl + 4 + ?tl + 4) (4 + ?gl + 4 + ?tl + 12) = PutUint64 n"
    using S by (auto intro!: sub_at_gslice)
  have u: "unat (of_nat ?gl :: u32) = ?gl" "unat (of_nat ?tl :: u32) = ?tl"
    using unat_of_nat_u32 [of ?gl] unat_of_nat_u32 [of ?tl] G by simp_all
  have fr: "gslice (PutUint32 c @ ?pl) 0 4 = PutUint32 c" "drop 4 (PutUint32 c @ ?pl) = ?pl" for c
    by (simp_all add: gslice_def)
  show ?thesis
    unfolding decode_commit_def fr Let_def at Uint32_PutUint32 Uint64_PutUint64 u using G
    by (simp add: offset_consts entry_length_def)
qed

section \<open>Recovery reads the entries back\<close>

text \<open>A call left every file alone, and succeeds on a disk that does not fail.\<close>

definition untouched :: "disk \<Rightarrow> disk \<Rightarrow> bool" where
  "untouched d d' \<longleftrightarrow> files d' = files d \<and> flushed d' = flushed d \<and> (faults d = [] \<longrightarrow> faults d' = [])"

lemma untouched_refl [simp]: "untouched d d"
  by (simp add: untouched_def)

lemma untouched_trans: "untouched d d1 \<Longrightarrow> untouched d1 d2 \<Longrightarrow> untouched d d2"
  by (simp add: untouched_def)

lemma untouched_content: "untouched d d' \<Longrightarrow> content d' = content d"
  by (simp add: untouched_def content_def fun_eq_iff)

lemma untouched_faults: "untouched d d' \<Longrightarrow> faults d' \<noteq> [] \<Longrightarrow> faults d \<noteq> []"
  by (auto simp: untouched_def)

lemma file_read_cases:
  assumes "pos + n \<le> length (content d p)" "file_read p n pos d = (r, d')"
  shows "untouched d d'" "r = Inr (take n (drop pos (content d p))) \<or> r = Inl EIO \<and> faults d \<noteq> []"
proof -
  obtain f d1 where nf: "next_fault d = (f, d1)" by fastforce
  note D = next_faultD [OF nf]
  show "untouched d d'" "r = Inr (take n (drop pos (content d p))) \<or> r = Inl EIO \<and> faults d \<noteq> []"
    using assms D
    by (auto simp: file_read_def sys_pread_def nf Let_def untouched_def split: if_splits)
qed

text \<open>A tail that recovery cuts off: the beginning of an entry, and not all of it.\<close>

definition torn_commit :: "bytes \<Rightarrow> bool" where
  "torn_commit t \<longleftrightarrow> t \<noteq> [] \<and> (\<exists>c j. commit_ok c \<and> j < length (commit_bytes c) \<and> t = take j (commit_bytes c))"

definition restored :: "gostring \<Rightarrow> bytes \<Rightarrow> disk \<Rightarrow> bool" where
  "restored p c d \<longleftrightarrow> map_of (files d) p = Some c \<and> map_of (flushed d) p = Some c"

lemma truncateAndSync_cases:
  assumes "truncateAndSync p n d = (r, d')" "n \<le> length (content d p)"
  shows "r = None \<and> restored p (take n (content d p)) d' \<or> r = Some EIO \<and> faults d \<noteq> [] \<and> content d' p \<in> {content d p, take n (content d p)}"
    "faults d = [] \<Longrightarrow> faults d' = []"
proof -
  obtain f1 d1 where nf1: "next_fault d = (f1, d1)" by fastforce
  define d2 where "d2 = put_file p (take n (content d p)) d1"
  obtain f2 d3 where nf2: "next_fault d2 = (f2, d3)" by fastforce
  note D1 = next_faultD [OF nf1] and D2 = next_faultD [OF nf2]
  have tr: "sys_truncate p n d = (if fails f1 then (Inl EIO, d1) else (Inr (), d2))"
    using assms(2) D1(4) by (simp add: sys_truncate_def nf1 d2_def)
  have fs: "sys_fsync p d2 = (if fails f2 then (Inl EIO, d3) else (Inr (), d3\<lparr>flushed := AList.update p (content d3 p) (flushed d3)\<rparr>))"
    by (simp add: sys_fsync_def nf2)
  have c: "content d2 p = take n (content d p)" "map_of (files d2) p = Some (take n (content d p))" by (simp_all add: d2_def)
  have f: "faults d1 = [] \<Longrightarrow> faults d2 = []" by (simp add: d2_def)
  show "r = None \<and> restored p (take n (content d p)) d' \<or> r = Some EIO \<and> faults d \<noteq> [] \<and> content d' p \<in> {content d p, take n (content d p)}"
    using assms(1) c f D1 D2
    by (auto simp: truncateAndSync_def tr fs restored_def update_conv' content_def split: if_splits)
  show "faults d = [] \<Longrightarrow> faults d' = []"
    using assms(1) f D1(5) D2(5) by (auto simp: truncateAndSync_def tr fs split: if_splits)
qed

text \<open>One round of the loop, by what the file has at the position.\<close>

lemma prefix_fields:
  "gslice (prefix_bytes m) 0 4 = OffsetMagic" "prefix_bytes m ! 4 = 1" "gslice (prefix_bytes m) 5 9 = PutUint32 (of_nat m)"
  by (simp_all add: prefix_bytes_def gslice_def nth_append OffsetMagic_def)

lemma recover_entry_prefix:
  assumes "content d p = pre @ prefix_bytes m @ rest" "32 \<le> m" "m \<le> 1024"
    and "recover_entry p (length (content d p)) (length pre) d = (r, d')"
  shows "\<exists>d1. untouched d d1 \<and>
    (r = Inl EIO \<and> d' = d1 \<and> faults d \<noteq> [] \<or>
     length rest < m \<and> (\<exists>e. truncateAndSync p (length pre) d1 = (e, d') \<and> r = (case e of Some x \<Rightarrow> Inl x | None \<Rightarrow> Inr None)) \<or>
     m \<le> length rest \<and> d' = d1 \<and>
       r = (case decode_commit (take m rest) m of Inl e \<Rightarrow> Inl e | Inr (key, n) \<Rightarrow> Inr (Some (key, n, length pre + 9 + m))))"
proof -
  obtain r1 d1 where e1: "file_read p 9 (length pre) d = (r1, d1)" by fastforce
  have m: "unat (of_nat m :: u32) = m" using unat_of_nat_u32 [of m] assms(3) by simp
  have len: "length (content d p) = length pre + 9 + length rest" using assms(1) by simp
  have F1: "untouched d d1" "r1 = Inr (prefix_bytes m) \<or> r1 = Inl EIO \<and> faults d \<noteq> []"
    using file_read_cases [OF _ e1] len assms(1) by simp_all
  have c1: "content d1 p = pre @ prefix_bytes m @ rest" using untouched_content [OF F1(1)] assms(1) by simp
  have step: "recover_entry p (length (content d p)) (length pre) d =
      (if r1 = Inl EIO then (Inl EIO, d1)
       else if length rest < m then case truncateAndSync p (length pre) d1 of (Some e, d) \<Rightarrow> (Inl e, d) | (None, d) \<Rightarrow> (Inr None, d)
       else case file_read p m (length pre + 9) d1 of
              (Inl e, d) \<Rightarrow> (Inl e, d)
            | (Inr frame, d) \<Rightarrow> (case decode_commit frame m of Inl e \<Rightarrow> (Inl e, d)
                | Inr (key, n) \<Rightarrow> (Inr (Some (key, n, length pre + 9 + m)), d)))"
  proof (cases "r1 = Inl EIO")
    case True
    then show ?thesis using len e1 by (simp add: recover_entry_def Let_def offset_consts)
  next
    case False
    then have r1: "r1 = Inr (prefix_bytes m)" using F1(2) by blast
    have at: "unat (Uint32 (gslice (prefix_bytes m) 5 9)) = m" by (simp add: prefix_fields m)
    show ?thesis
      unfolding recover_entry_def Let_def offset_consts e1 r1 prod.case sum.case at
      using assms(2,3) len by (simp add: prefix_fields)
  qed
  consider "r1 = Inl EIO" | "r1 \<noteq> Inl EIO" "length rest < m" | "r1 \<noteq> Inl EIO" "m \<le> length rest" by linarith
  then show ?thesis
  proof cases
    case 1
    then show ?thesis using F1 assms(4) step by auto
  next
    case 2
    obtain e d2 where "truncateAndSync p (length pre) d1 = (e, d2)" by fastforce
    then show ?thesis using 2 F1(1) assms(4) step by (auto split: option.splits)
  next
    case 3
    obtain r2 d2 where e2: "file_read p m (length pre + 9) d1 = (r2, d2)" by fastforce
    have "r2 = Inr (take m rest) \<or> r2 = Inl EIO \<and> faults d1 \<noteq> []" "untouched d1 d2"
      using file_read_cases [OF _ e2] c1 3(2) by simp_all
    then show ?thesis
      using 3 F1(1) assms(4) step e2 untouched_trans [OF F1(1)] untouched_faults [OF F1(1)]
      by (auto split: sum.splits prod.splits)
  qed
qed

lemma recover_entry_commit:
  assumes "content d p = pre @ commit_bytes c @ rest" "commit_ok c"
    and "recover_entry p (length (content d p)) (length pre) d = (r, d')"
  shows "untouched d d'"
    "r = Inr (Some (fst c, fst (snd c), length pre + length (commit_bytes c))) \<or> r = Inl EIO \<and> faults d \<noteq> []"
proof -
  obtain k n t where c: "c = (k, n, t)" by (metis surj_pair)
  let ?frame = "PutUint32 (ChecksumIEEE (payload_fields k n t)) @ payload_fields k n t"
  have ok: "commit_ok (k, n, t)" using assms(2) c by simp
  note L = entry_length_bounds [OF ok]
  have cb: "content d p = pre @ prefix_bytes (entry_length k) @ (?frame @ rest)"
    using assms(1) by (simp add: c encode_commit_eq [OF ok])
  have len: "length ?frame = entry_length k" by (simp add: entry_length_def offset_consts)
  then have fr: "take (entry_length k) (?frame @ rest) = ?frame" "entry_length k \<le> length (?frame @ rest)" by simp_all
  from recover_entry_prefix [OF cb L(1,2) assms(3), unfolded fr(1) decode_commit_payload [OF ok]]
  show "untouched d d'" "r = Inr (Some (fst c, fst (snd c), length pre + length (commit_bytes c))) \<or> r = Inl EIO \<and> faults d \<noteq> []"
    using fr(2) length_commit_bytes [OF ok] c by auto
qed

lemma recover_entry_torn:
  assumes "content d p = pre @ t" "torn_commit t"
    and "recover_entry p (length (content d p)) (length pre) d = (r, d')"
  shows "r = Inr None \<and> restored p pre d' \<or> r = Inl EIO \<and> faults d \<noteq> [] \<and> content d' p \<in> {content d p, pre}"
    "faults d = [] \<Longrightarrow> faults d' = []"
proof -
  have T: "(r = Inr None \<and> restored p pre d' \<or> r = Inl EIO \<and> faults d \<noteq> [] \<and> content d' p \<in> {content d p, pre}) \<and> (faults d = [] \<longrightarrow> faults d' = [])"
    if "untouched d d1" "truncateAndSync p (length pre) d1 = (e, d')" "r = (case e of Some x \<Rightarrow> Inl x | None \<Rightarrow> Inr None)" for d1 e
    using truncateAndSync_cases [OF that(2)] that(1,3) assms(1) untouched_content [OF that(1)]
    by (auto simp: untouched_def)
  obtain k n ts j where c: "commit_ok (k, n, ts)" "j < length (commit_bytes (k, n, ts))" "t = take j (commit_bytes (k, n, ts))"
    using assms(2) by (auto simp: torn_commit_def)
  note L = entry_length_bounds [OF c(1)]
  have "(r = Inr None \<and> restored p pre d' \<or> r = Inl EIO \<and> faults d \<noteq> [] \<and> content d' p \<in> {content d p, pre}) \<and> (faults d = [] \<longrightarrow> faults d' = [])"
  proof (cases "length t < 9")
    case True
    obtain e d2 where tr: "truncateAndSync p (length pre) d = (e, d2)" by fastforce
    have "r = (case e of Some x \<Rightarrow> Inl x | None \<Rightarrow> Inr None) \<and> d' = d2"
      using assms(1,3) True tr by (auto simp: recover_entry_def Let_def OffsetPrefixSize_def split: option.splits)
    then show ?thesis using T [OF untouched_refl] tr by blast
  next
    case False
    let ?frame = "PutUint32 (ChecksumIEEE (payload_fields k n ts)) @ payload_fields k n ts"
    have j: "9 \<le> j" using False c(3) by simp
    have t: "t = prefix_bytes (entry_length k) @ take (j - 9) ?frame"
      using c(3) j by (simp add: encode_commit_eq [OF c(1)])
    have short: "length (take (j - 9) ?frame) < entry_length k"
      using c(2) j length_commit_bytes [OF c(1)] by simp
    from recover_entry_prefix [OF _ L(1,2) assms(3), of "take (j - 9) ?frame"] assms(1) t short
    obtain d1 where "untouched d d1"
      "r = Inl EIO \<and> d' = d1 \<and> faults d \<noteq> [] \<or>
       (\<exists>e. truncateAndSync p (length pre) d1 = (e, d') \<and> r = (case e of Some x \<Rightarrow> Inl x | None \<Rightarrow> Inr None))"
      by (auto simp del: length_take)
    then show ?thesis using T [of d1] untouched_content [of d d1] by auto
  qed
  then show "r = Inr None \<and> restored p pre d' \<or> r = Inl EIO \<and> faults d \<noteq> [] \<and> content d' p \<in> {content d p, pre}"
    "faults d = [] \<Longrightarrow> faults d' = []" by auto
qed

text \<open>The loop passes over complete entries and collects them.\<close>

lemma recover_commits:
  assumes "\<forall>c \<in> set ds. commit_ok c" "content d p = commits_bytes (cs @ ds) @ rest"
    and "recover_offsets p (length (content d p)) (length (commits_bytes cs)) (committed cs) d = (r, d')"
  shows "(\<exists>d1. untouched d d1 \<and>
      recover_offsets p (length (content d p)) (length (commits_bytes (cs @ ds))) (committed (cs @ ds)) d1 = (r, d'))
    \<or> r = Inl EIO \<and> faults d \<noteq> [] \<and> untouched d d'"
  using assms
proof (induction ds arbitrary: cs d)
  case Nil
  then show ?case using untouched_refl [of d] by fastforce
next
  case (Cons c ds)
  obtain k n t where c: "c = (k, n, t)" by (metis surj_pair)
  have ok: "commit_ok c" and oks: "\<forall>c \<in> set ds. commit_ok c" using Cons.prems(1) by simp_all
  obtain r1 d1 where e1: "recover_entry p (length (content d p)) (length (commits_bytes cs)) d = (r1, d1)" by fastforce
  have cont: "content d p = commits_bytes cs @ commit_bytes c @ (commits_bytes ds @ rest)" using Cons.prems(2) by simp
  note E = recover_entry_commit [OF cont ok e1]
  have lt: "length (commits_bytes cs) < length (content d p)"
    using length_commit_bytes [of k n t] ok c cont by simp
  have c1: "content d1 p = content d p" using untouched_content [OF E(1)] by simp
  from E(2) show ?case
  proof
    assume r1: "r1 = Inr (Some (fst c, fst (snd c), length (commits_bytes cs) + length (commit_bytes c)))"
    have "recover_offsets p (length (content d1 p)) (length (commits_bytes (cs @ [c]))) (committed (cs @ [c])) d1 = (r, d')"
      using Cons.prems(3) lt e1 r1 by (subst (asm) recover_offsets.simps) (simp add: c c1 del: commit_bytes.simps)
    from Cons.IH [OF oks _ this] Cons.prems(2) c1
    show ?thesis using untouched_trans [OF E(1)] untouched_faults [OF E(1)] by auto
  next
    assume "r1 = Inl EIO \<and> faults d \<noteq> []"
    then show ?thesis using Cons.prems(3) lt e1 E(1) by (subst (asm) recover_offsets.simps) simp
  qed
qed

lemma recover_ok:
  assumes "\<forall>c \<in> set cs. commit_ok c" "content d p = commits_bytes cs @ t" "t = [] \<or> torn_commit t"
    and "recover_offsets p (length (content d p)) 0 Map.empty d = (r, d')"
  shows "r = Inr (length (commits_bytes cs), committed cs) \<and> (t = [] \<and> untouched d d' \<or> restored p (commits_bytes cs) d') \<or>
      r = Inl EIO \<and> faults d \<noteq> [] \<and> content d' p \<in> {content d p, commits_bytes cs}"
    "faults d = [] \<Longrightarrow> faults d' = []"
proof -
  let ?n = "length (commits_bytes cs)"
  consider d1 where "untouched d d1" "recover_offsets p (length (content d p)) ?n (committed cs) d1 = (r, d')"
    | "r = Inl EIO" "faults d \<noteq> []" "untouched d d'"
    using recover_commits [OF assms(1), of d p "[]" t r d'] assms(2,4) by auto
  then have "(r = Inr (?n, committed cs) \<and> (t = [] \<and> untouched d d' \<or> restored p (commits_bytes cs) d') \<or>
      r = Inl EIO \<and> faults d \<noteq> [] \<and> content d' p \<in> {content d p, commits_bytes cs}) \<and> (faults d = [] \<longrightarrow> faults d' = [])"
  proof cases
    case (1 d1)
    have c1: "content d1 p = commits_bytes cs @ t" using untouched_content [OF 1(1)] assms(2) by simp
    show ?thesis
    proof (cases "t = []")
      case True
      then have "r = Inr (?n, committed cs) \<and> d' = d1"
        using 1(2) assms(2) by (subst (asm) recover_offsets.simps) simp
      then show ?thesis using 1(1) True by (auto simp: untouched_def)
    next
      case False
      then have t: "torn_commit t" "?n < length (content d p)" using assms(2,3) by auto
      obtain r2 d2 where e2: "recover_entry p (length (content d p)) ?n d1 = (r2, d2)" by fastforce
      have "recover_entry p (length (content d1 p)) ?n d1 = (r2, d2)" using e2 c1 assms(2) by simp
      note E = recover_entry_torn [OF c1 t(1) this]
      have "(r, d') = (case r2 of Inl e \<Rightarrow> (Inl e, d2) | Inr None \<Rightarrow> (Inr (?n, committed cs), d2)
          | Inr (Some (k, n, e)) \<Rightarrow> recover_offsets p (length (content d p)) e ((committed cs)(k \<mapsto> n)) d2)"
        using 1(2) t(2) e2 by (subst (asm) recover_offsets.simps) simp
      then show ?thesis using E untouched_faults [OF 1(1)] 1(1) c1 assms(2) by (auto simp: untouched_def)
    qed
  next
    case 2
    then show ?thesis using untouched_content [OF 2(3)] by simp
  qed
  then show "r = Inr (?n, committed cs) \<and> (t = [] \<and> untouched d d' \<or> restored p (commits_bytes cs) d') \<or>
      r = Inl EIO \<and> faults d \<noteq> [] \<and> content d' p \<in> {content d p, commits_bytes cs}"
    "faults d = [] \<Longrightarrow> faults d' = []" by auto
qed

section \<open>The invariant of the store\<close>

text \<open>
  The map is what the entries say, \<open>oSize\<close> is their length, and the file holds them and nothing else;
  after a failed write some bytes of one more entry may follow.
\<close>

definition offsets_repr :: "offset_store \<Rightarrow> disk \<Rightarrow> commit list \<Rightarrow> bool" where
  "offsets_repr s d cs \<longleftrightarrow>
     (\<forall>c \<in> set cs. commit_ok c) \<and> offsets s = committed cs \<and> oSize s = length (commits_bytes cs) \<and>
     (\<exists>t. map_of (files d) (filePath s) = Some (commits_bytes cs @ t) \<and>
        (if oWriteFailed s then \<exists>c j. commit_ok c \<and> t = take j (commit_bytes c) else t = []))"

text \<open>What a process finds when it opens the file: an error of the disk, or the committed offsets.\<close>

definition reopened :: "gostring \<Rightarrow> commit list \<Rightarrow> disk \<Rightarrow> (err + offset_store) \<times> disk \<Rightarrow> bool" where
  "reopened p cs d x \<longleftrightarrow> (case x of
     (Inl e, d') \<Rightarrow> e = EIO \<and> faults d \<noteq> [] \<and> content d' p \<in> {content d p, commits_bytes cs}
   | (Inr s, d') \<Rightarrow> offsets_repr s d' cs \<and> filePath s = p \<and> \<not> oClosed s \<and> \<not> oWriteFailed s \<and> (faults d = [] \<longrightarrow> faults d' = []))"

text \<open>Opening up to the start of recovery: the file is there, with the content it had.\<close>

lemma open_offsets_start:
  assumes "OpenOffsetStore p d = (r, d')"
  shows "r = Inl EIO \<and> faults d \<noteq> [] \<and> content d' p = content d p \<or>
    (\<exists>d1 x d2. recover_offsets p (length (content d1 p)) 0 Map.empty d1 = (x, d2) \<and> content d1 p = content d p \<and>
       map_of (files d1) p = Some (content d p) \<and> flushed d1 = flushed d \<and> (faults d = [] \<longrightarrow> faults d1 = []) \<and>
       (case x of Inl e \<Rightarrow> r = Inl e \<and> files d' = files d2
        | Inr (n, m) \<Rightarrow> r = Inr \<lparr>filePath = p, offsets = m, oSize = n, oClosed = False, oWriteFailed = False\<rparr> \<and> d' = d2))"
proof -
  obtain r1 d1 where e1: "sys_mkdir d = (r1, d1)" by fastforce
  obtain r2 d2 where e2: "sys_open_create p d1 = (r2, d2)" by fastforce
  obtain r3 d3 where e3: "sys_stat p d2 = (r3, d3)" by fastforce
  obtain x d4 where e4: "recover_offsets p (length (content d3 p)) 0 Map.empty d3 = (x, d4)" by fastforce
  note F1 = sys_mkdir_facts [OF e1] and F2 = sys_open_create_facts [OF e2] and F3 = sys_stat_facts [OF e3]
  have c1: "content d1 p = content d p" using content_cong [OF F1(1)] by simp
  show ?thesis
  proof (cases "r1 = Inr () \<and> r2 = Inr ()")
    case False
    have r2: "r2 = Inr () \<or> r2 = Inl EIO \<and> faults d1 \<noteq> [] \<and> files d2 = files d1"
      using e2 F2(2,4) by (auto simp: sys_open_create_def Let_def split_def split: if_splits)
    have f1: "faults d1 \<noteq> [] \<Longrightarrow> faults d \<noteq> []" using F1(2) by auto
    have "r = Inl EIO \<and> faults d \<noteq> [] \<and> files d' = files d"
    proof (cases r1)
      case (Inl e)
      then have "e = EIO" "faults d \<noteq> []" using F1(4) by blast+
      then show ?thesis using assms e1 Inl F1(1) by (simp add: OpenOffsetStore_def)
    next
      case (Inr u)
      then have "r2 = Inl EIO" "faults d1 \<noteq> []" "files d2 = files d" using False r2 F1(1) by auto
      then show ?thesis using assms e1 e2 Inr f1 by (simp add: OpenOffsetStore_def)
    qed
    then show ?thesis by (simp add: content_def)
  next
    case True
    have m2: "map_of (files d2) p = Some (content d p)" using F2(3) True c1 by simp
    have c3: "content d3 p = content d p" "map_of (files d3) p = Some (content d p)" "flushed d3 = flushed d"
      using m2 F3(1,2) F2(1) F1(3) by (simp_all add: content_def)
    have r3: "r3 = Inr (length (content d3 p)) \<or> r3 = Inl EIO \<and> faults d2 \<noteq> []"
      using e3 F3(4) m2 c3(1) by (auto simp: sys_stat_def Let_def split_def split: if_splits)
    have f: "faults d = [] \<longrightarrow> faults d3 = []" "faults d2 \<noteq> [] \<longrightarrow> faults d \<noteq> []" using F1(2) F2(2) F3(3) by auto
    from r3 show ?thesis
    proof
      assume "r3 = Inr (length (content d3 p))"
      then show ?thesis using assms True e1 e2 e3 e4 c3 f(1)
        by (intro disjI2 exI [of _ d3] exI [of _ x] exI [of _ d4])
          (auto simp: OpenOffsetStore_def split: sum.splits prod.splits)
    next
      assume "r3 = Inl EIO \<and> faults d2 \<noteq> []"
      then show ?thesis using assms True e1 e2 e3 c3(1) f(2) content_cong [OF sys_close_files, of d3 p]
        by (auto simp: OpenOffsetStore_def)
    qed
  qed
qed

lemma open_offsets_ok:
  assumes "\<forall>c \<in> set cs. commit_ok c" "content d p = commits_bytes cs @ t" "t = [] \<or> torn_commit t"
  shows "reopened p cs d (OpenOffsetStore p d)"
proof -
  obtain r d' where op: "OpenOffsetStore p d = (r, d')" by fastforce
  from open_offsets_start [OF op] show ?thesis
  proof (elim disjE exE conjE, goal_cases)
    case 1
    then show ?case by (simp add: op reopened_def)
  next
    case (2 d1 x d2)
    have c1: "content d1 p = commits_bytes cs @ t" using 2(2) assms(2) by simp
    note R = recover_ok [OF assms(1) c1 assms(3) 2(1)]
    have c': "files d' = files d2 \<Longrightarrow> content d' p = content d2 p" by (simp add: content_def)
    show ?case
      using R 2(2-6) assms(1,2) c' by (auto simp: op reopened_def offsets_repr_def restored_def untouched_def)
  qed
qed

section \<open>Commits\<close>

definition commit_key :: "gostring \<Rightarrow> gostring \<Rightarrow> u32 \<Rightarrow> Key" where
  "commit_key grp topic part = \<lparr>kGroup = grp, kTopic = topic, kPartition = part\<rparr>"

text \<open>
  The three outcomes of a commit: it is refused and nothing changes; the write or the flush fails,
  and the store goes out of service with part of the entry in the file; or the entry is durable.
\<close>

lemma Commit_cases:
  assumes repr: "offsets_repr s d cs" and com: "Commit ts grp topic part n s d = (r, s', d')"
  defines "c \<equiv> (commit_key grp topic part, n, ts)"
  obtains e where "r = Some e" "s' = s" "d' = d" "e \<in> {ErrInvalidArgument, ErrOffsetStoreClosed, ErrOffsetStoreUnavailable}"
      "\<not> commit_ok c \<or> oClosed s \<or> oWriteFailed s"
  | e j where "r = Some e" "s' = s\<lparr>oWriteFailed := True\<rparr>" "commit_ok c" "faults d \<noteq> []" "flushed d' = flushed d" "\<not> oClosed s" "\<not> oWriteFailed s"
      "map_of (files d') = (map_of (files d))(filePath s \<mapsto> commits_bytes cs @ take j (commit_bytes c))"
  | "r = None" "s' = s\<lparr>oSize := length (commits_bytes (cs @ [c])), offsets := committed (cs @ [c])\<rparr>" "commit_ok c"
      "restored (filePath s) (commits_bytes (cs @ [c])) d'" "\<not> oClosed s" "\<not> oWriteFailed s" "faults d = [] \<Longrightarrow> faults d' = []"
      "map_of (files d') = (map_of (files d))(filePath s \<mapsto> commits_bytes (cs @ [c]))"
proof (cases "commit_ok c \<and> \<not> oClosed s \<and> \<not> oWriteFailed s")
  case False
  then show ?thesis
    using com by (intro that(1) [of "the r"]) (auto simp: Commit_def c_def commit_key_def split: if_splits)
next
  case True
  let ?enc = "commit_bytes c" and ?p = "filePath s"
  obtain w e1 d1 where e1: "sys_pwrite ?p (oSize s) ?enc d = ((w, e1), d1)" by (metis surj_pair)
  obtain r2 d2 where e2: "sys_fsync ?p d1 = (r2, d2)" by fastforce
  note P = sys_pwrite_facts [OF e1]
  have fl: "content d ?p = commits_bytes cs" "oSize s = length (commits_bytes cs)" "offsets s = committed cs"
    using repr True by (auto simp: offsets_repr_def content_def)
  have m1: "map_of (files d1) = (map_of (files d))(?p \<mapsto> commits_bytes cs @ take w ?enc)"
    using P(4) fl(1,2) splice_append [of "commits_bytes cs"] by simp
  have step: "(r, s', d') = (case e1 of Some e \<Rightarrow> (Some e, s\<lparr>oWriteFailed := True\<rparr>, d1)
      | None \<Rightarrow> if w \<noteq> length ?enc then (Some ErrShortWrite, s\<lparr>oWriteFailed := True\<rparr>, d1)
        else (case r2 of Inl e \<Rightarrow> (Some e, s\<lparr>oWriteFailed := True\<rparr>, d2)
          | Inr _ \<Rightarrow> (None, s\<lparr>oSize := oSize s + length ?enc, offsets := (offsets s)(commit_key grp topic part \<mapsto> n)\<rparr>, d2)))"
    using com True e1 e2
    by (auto simp: Commit_def c_def commit_key_def Let_def split: option.splits sum.splits)
  have c1: "content d1 ?p = commits_bytes cs @ take w ?enc" using m1 by (simp add: content_def)
  show ?thesis
  proof (cases "e1 = None \<and> w = length ?enc")
    case False
    then have "faults d \<noteq> []" using P(5) by auto
    then show ?thesis using False step True P(2) m1
      by (intro that(2) [of "case e1 of Some e \<Rightarrow> e | None \<Rightarrow> ErrShortWrite" w]) (auto split: option.splits)
  next
    case w: True
    from e2 show ?thesis
    proof (cases rule: sys_fsync_cases)
      case 1
      have m2: "map_of (files d2) = (map_of (files d))(?p \<mapsto> commits_bytes (cs @ [c]))" using 1(2) m1 w by simp
      moreover have "restored ?p (commits_bytes (cs @ [c])) d2" using 1(3) c1 w m2 by (simp add: restored_def)
      moreover have "s' = s\<lparr>oSize := length (commits_bytes (cs @ [c])), offsets := committed (cs @ [c])\<rparr>"
        using step 1(1) w fl(2,3) by (simp add: c_def)
      ultimately show ?thesis using step 1(1,4) w True P(5) by (intro that(3)) auto
    next
      case 2
      then have "faults d \<noteq> []" using P(5) by auto
      then show ?thesis using 2 w step True P(2) m1 by (intro that(2) [of EIO w]) auto
    qed
  qed
qed

lemma Commit_ok:
  assumes "offsets_repr s d cs" "commit_ok (commit_key grp topic part, n, ts)" "\<not> oClosed s" "\<not> oWriteFailed s" "faults d = []"
  shows "\<exists>s' d'. Commit ts grp topic part n s d = (None, s', d') \<and> faults d' = []"
proof -
  obtain r s' d' where com: "Commit ts grp topic part n s d = (r, s', d')" by (metis surj_pair)
  show ?thesis by (rule Commit_cases [OF assms(1) com]) (use assms com in auto)
qed

text \<open>What the file holds when the store stops: the entries, and maybe part of one more.\<close>

lemma commit_prefix:
  assumes "commit_ok c"
  shows "take j (commit_bytes c) = [] \<or> torn_commit (take j (commit_bytes c)) \<or> take j (commit_bytes c) = commit_bytes c"
proof (cases "j < length (commit_bytes c)")
  case True
  then show ?thesis using assms unfolding torn_commit_def by blast
qed simp

lemma open_prefix:
  assumes "\<forall>c \<in> set cs. commit_ok c" "commit_ok c" "content d p = commits_bytes cs @ take j (commit_bytes c)"
  shows "reopened p cs d (OpenOffsetStore p d) \<or> take j (commit_bytes c) = commit_bytes c \<and> reopened p (cs @ [c]) d (OpenOffsetStore p d)"
proof (cases "take j (commit_bytes c) = commit_bytes c")
  case False
  then show ?thesis using open_offsets_ok [OF assms(1,3)] commit_prefix [OF assms(2), of j] by blast
next
  case w: True
  have "content d p = commits_bytes (cs @ [c]) @ []" using assms(3) w by simp
  then show ?thesis using open_offsets_ok [of "cs @ [c]" d p "[]"] assms(1,2) w by auto
qed

end
