(* ===== verification/Offset_Contract.thy ===== *)
theory Offset_Contract
  imports Offset_Store
begin

text \<open>
  What the offset store promises: the contract of \<^verbatim>\<open>Commit\<close> and \<^verbatim>\<open>Get\<close>, atomicity and durability of commits
  under crashes and power losses, recovery of a torn file, detection of damage, and the behaviour of
  a store that is closed or has failed. The contract that the rest of the broker uses is the locale
  \<open>offset_map\<close>, interpreted on the store.
\<close>

section \<open>A sample store\<close>

definition sample_path :: gostring where
  "sample_path = [111]"

definition sample_commit :: commit where
  "sample_commit = (\<lparr>kGroup = [103], kTopic = [116], kPartition = 0\<rparr>, 5, 1000)"

definition sample_offsets :: offset_store where
  "sample_offsets = \<lparr>filePath = sample_path, offsets = committed [sample_commit],
     oSize = length (commit_bytes sample_commit), oClosed = False, oWriteFailed = False\<rparr>"

definition sample_offsets_disk :: disk where
  "sample_offsets_disk = \<lparr>files = [(sample_path, commit_bytes sample_commit)],
     flushed = [(sample_path, commit_bytes sample_commit)], entries = [], faults = []\<rparr>"

lemma commit_ok_ascii:
  assumes "0 < length g" "length g \<le> 255" "list_all (\<lambda>b. unat b < 128) g"
    "0 < length t" "length t \<le> 255" "list_all (\<lambda>b. unat b < 128) t"
  shows "commit_ok (\<lparr>kGroup = g, kTopic = t, kPartition = p\<rparr>, n, ts)"
  using assms by (simp add: valid_name_def offset_consts utf8_valid_ascii)

lemma sample_commit_ok: "commit_ok sample_commit" "commit_ok (commit_key [103] [116] p, n, ts)"
  by (auto simp: sample_commit_def commit_key_def simp del: commit_ok.simps intro!: commit_ok_ascii)

lemma sample_offsets_repr: "offsets_repr sample_offsets sample_offsets_disk [sample_commit]"
  using sample_commit_ok(1) by (simp add: offsets_repr_def sample_offsets_def sample_offsets_disk_def)

lemma sample_offsets_fields [simp]:
  "filePath sample_offsets = sample_path" "oClosed sample_offsets = False" "oWriteFailed sample_offsets = False"
  "faults sample_offsets_disk = []" "content sample_offsets_disk sample_path = commit_bytes sample_commit"
  by (simp_all add: sample_offsets_def sample_offsets_disk_def content_def)

section \<open>Commit and Get\<close>

lemma Get_repr:
  assumes "offsets_repr s d cs"
  shows "Get g t p s = (if oClosed s then Inl ErrOffsetStoreClosed else if oWriteFailed s then Inl ErrOffsetStoreUnavailable
     else Inr (committed cs (commit_key g t p)))"
  using assms by (simp add: Get_def offsets_repr_def commit_key_def)

lemma commit_key_eq [simp]: "commit_key g t p = commit_key g' t' p' \<longleftrightarrow> g = g' \<and> t = t' \<and> p = p'"
  by (simp add: commit_key_def)

lemma Commit_repr:
  assumes "offsets_repr s d cs" "Commit ts grp topic part n s d = (r, s', d')"
  shows "offsets_repr s' d' (if r = None then cs @ [(commit_key grp topic part, n, ts)] else cs) \<and>
    (\<forall>q. q \<noteq> filePath s \<longrightarrow> map_of (files d') q = map_of (files d) q) \<and> filePath s' = filePath s"
  by (rule Commit_cases [OF assms]) (use assms(1) in \<open>auto simp: offsets_repr_def restored_def simp del: commit_bytes.simps\<close>)

text \<open>
  C20. The contract of \<^verbatim>\<open>Commit\<close> and \<^verbatim>\<open>Get\<close>, for every pattern of I/O failures. A commit that returns no error
  has added its entry to the file, and \<^verbatim>\<open>Get\<close> returns the committed offset for its key and for every
  other key what it returned before. A commit that returns an error was refused without any effect,
  or the store is unavailable from then on. It touches no other file, and it succeeds when its names
  are valid, the store is in service and the disk does not fail.
\<close>

theorem commit_contract:
  assumes "offsets_repr s d cs"
  shows "case Commit ts grp topic part n s d of (r, s', d') \<Rightarrow>
    (case r of
       None \<Rightarrow> offsets_repr s' d' (cs @ [(commit_key grp topic part, n, ts)]) \<and>
         (\<forall>g t p. Get g t p s' = (if (g, t, p) = (grp, topic, part) then Inr (Some n) else Get g t p s))
     | Some e \<Rightarrow> s' = s \<and> d' = d \<and> e \<in> {ErrInvalidArgument, ErrOffsetStoreClosed, ErrOffsetStoreUnavailable} \<or>
         offsets_repr s' d' cs \<and> (\<forall>g t p. Get g t p s' = Inl ErrOffsetStoreUnavailable)) \<and>
    (\<forall>q. q \<noteq> filePath s \<longrightarrow> map_of (files d') q = map_of (files d) q) \<and>
    (valid_name MaxConsumerGroupBytes grp \<and> valid_name MaxTopicNameBytes topic \<and> \<not> oClosed s \<and> \<not> oWriteFailed s \<and> faults d = []
      \<longrightarrow> r = None)"
proof -
  obtain r s' d' where com: "Commit ts grp topic part n s d = (r, s', d')" by (metis surj_pair)
  note R = Commit_repr [OF assms com]
  have "commit_ok (commit_key grp topic part, n, ts) \<longleftrightarrow> valid_name MaxConsumerGroupBytes grp \<and> valid_name MaxTopicNameBytes topic"
    by (simp add: commit_key_def)
  then have "valid_name MaxConsumerGroupBytes grp \<and> valid_name MaxTopicNameBytes topic \<and> \<not> oClosed s \<and> \<not> oWriteFailed s \<and> faults d = []
      \<longrightarrow> r = None"
    using Commit_ok [OF assms, of grp topic part n ts] com by auto
  moreover have "case r of
       None \<Rightarrow> offsets_repr s' d' (cs @ [(commit_key grp topic part, n, ts)]) \<and>
         (\<forall>g t p. Get g t p s' = (if (g, t, p) = (grp, topic, part) then Inr (Some n) else Get g t p s))
     | Some e \<Rightarrow> s' = s \<and> d' = d \<and> e \<in> {ErrInvalidArgument, ErrOffsetStoreClosed, ErrOffsetStoreUnavailable} \<or>
         offsets_repr s' d' cs \<and> (\<forall>g t p. Get g t p s' = Inl ErrOffsetStoreUnavailable)"
  proof (rule Commit_cases [OF assms com], goal_cases)
    case (1 e)
    then show ?case by simp
  next
    case (2 e j)
    then show ?case using R by (simp add: Get_def)
  next
    case 3
    then show ?case using R Get_repr [OF assms] Get_repr [of s'] by simp
  qed
  ultimately show ?thesis using R by (simp add: com)
qed

theorem commit_contract_witness:
  "case Commit 2000 [103] [116] 0 9 sample_offsets sample_offsets_disk of (r, s', d') \<Rightarrow>
     r = None \<and> Get [103] [116] 0 s' = Inr (Some 9) \<and> Get [103] [116] 1 s' = Inr None"
proof -
  obtain r s' d' where com: "Commit 2000 [103] [116] 0 9 sample_offsets sample_offsets_disk = (r, s', d')" by (metis surj_pair)
  have "Get [103] [116] 1 sample_offsets = Inr None"
    by (simp add: Get_def sample_offsets_def committed_def sample_commit_def)
  moreover have "valid_name MaxConsumerGroupBytes [103]" "valid_name MaxTopicNameBytes [116]"
    using sample_commit_ok(2) by (simp_all add: commit_key_def)
  ultimately show ?thesis using commit_contract [OF sample_offsets_repr, where ts = 2000 and grp = "[103]" and topic = "[116]" and part = 0 and n = 9]
    by (auto simp: com)
qed

section \<open>Crashes\<close>

text \<open>Everything the store relies on has been flushed.\<close>

definition offsets_durable :: "offset_store \<Rightarrow> disk \<Rightarrow> bool" where
  "offsets_durable s d \<longleftrightarrow> oSize s = 0 \<or> (\<exists>f. map_of (flushed d) (filePath s) = Some f \<and> length f = oSize s)"

lemma cut_prefix:
  assumes "cut_file p d d'" "map_of (files d) p = Some (a @ b)" "length a = 0 \<or> map_of (flushed d) p = Some f \<and> length f = length a"
  shows "\<exists>j. content d' p = a @ take j b"
proof -
  obtain n where n: "n \<le> length (a @ b)" "map_of (files d') p = Some (take n (a @ b))"
    "\<forall>f. map_of (flushed d) p = Some f \<longrightarrow> length f \<le> n \<or> n = length (a @ b)"
    using assms(1,2) by (auto simp: cut_file_def)
  then have "length a \<le> n" using assms(3) by auto
  then show ?thesis using n(2) by (auto simp: content_def)
qed

lemma cut_whole:
  assumes "cut_file p d d'" "restored p c d"
  shows "content d' p = c"
  using assms by (auto simp: cut_file_def restored_def content_def)

lemma reopened_fine:
  assumes "reopened p cs (restarted d) x"
  shows "\<exists>s d'. x = (Inr s, d') \<and> offsets_repr s d' cs \<and> filePath s = p \<and> \<not> oClosed s \<and> \<not> oWriteFailed s \<and> faults d' = []"
  using assms by (auto simp: reopened_def restarted_def split: prod.splits sum.splits)

lemma content_restarted [simp]: "content (restarted d) = content d"
  by (simp add: restarted_def content_def fun_eq_iff)

lemma Commit_cut:
  assumes "offsets_repr s d cs" "\<not> oWriteFailed s" "Commit ts grp topic part n s d = (r, s1, d1)"
    and "d2 = d1 \<or> cut_file (filePath s) d1 d2 \<and> offsets_durable s d"
  shows "(r = None \<longrightarrow> offsets_durable s1 d1) \<and>
    (\<exists>s3 d3 cs'. OpenOffsetStore (filePath s) (restarted d2) = (Inr s3, d3) \<and> offsets_repr s3 d3 cs' \<and>
       (cs' = cs @ [(commit_key grp topic part, n, ts)] \<or> cs' = cs \<and> r \<noteq> None) \<and>
       \<not> oClosed s3 \<and> \<not> oWriteFailed s3)"
proof -
  let ?c = "(commit_key grp topic part, n, ts)" and ?p = "filePath s"
  have oks: "\<forall>c \<in> set cs. commit_ok c" and size: "oSize s = length (commits_bytes cs)"
    and fl: "map_of (files d) ?p = Some (commits_bytes cs)"
    using assms(1,2) by (auto simp: offsets_repr_def)
  have "(r = None \<longrightarrow> offsets_durable s1 d1) \<and>
    (\<exists>cs'. reopened ?p cs' (restarted d2) (OpenOffsetStore ?p (restarted d2)) \<and> (cs' = cs @ [?c] \<or> cs' = cs \<and> r \<noteq> None))"
  proof (rule Commit_cases [OF assms(1,3)], goal_cases)
    case (1 e)
    have "content d2 ?p = commits_bytes cs"
      using assms(4) 1 fl size cut_prefix [of ?p d d2 "commits_bytes cs" "[]"] by (auto simp: content_def offsets_durable_def)
    then show ?case using 1(1) open_offsets_ok [OF oks, of "restarted d2" ?p "[]"] by auto
  next
    case (2 e j)
    have "map_of (files d1) ?p = Some (commits_bytes cs @ take j (commit_bytes ?c))" using 2(8) by simp
    then obtain i where "content d2 ?p = commits_bytes cs @ take i (commit_bytes ?c)"
      using assms(4) 2(5) size cut_prefix [of ?p d1 d2 "commits_bytes cs" "take j (commit_bytes ?c)"]
      by (auto simp: content_def offsets_durable_def simp del: commit_bytes.simps)
    then show ?case using 2(1) open_prefix [OF oks 2(3), of "restarted d2" ?p i] by auto
  next
    case 3
    have "content d2 ?p = commits_bytes (cs @ [?c]) @ []"
      using assms(4) 3(4) cut_whole [of ?p d1 d2] by (auto simp: restored_def content_def)
    moreover have "offsets_durable s1 d1" using 3(2,4) by (simp add: offsets_durable_def restored_def)
    ultimately show ?case using 3(3) open_offsets_ok [of "cs @ [?c]" "restarted d2" ?p "[]"] oks by auto
  qed
  then obtain cs' where "r = None \<longrightarrow> offsets_durable s1 d1" "reopened ?p cs' (restarted d2) (OpenOffsetStore ?p (restarted d2))"
    "cs' = cs @ [?c] \<or> cs' = cs \<and> r \<noteq> None" by blast
  then show ?thesis using reopened_fine [of ?p cs' d2] by blast
qed

lemmas Commit_reopen = Commit_cut [OF _ _ _ disjI1 [OF refl], THEN conjunct2]



section \<open>Opening the file\<close>

text \<open>
  C22. Opening a file that holds complete entries and maybe the beginning of one more, as an
  interrupted commit leaves it, restores exactly the committed offsets, the last entry of a key
  winning, and cuts the incomplete entry off. The only other result is the error of a disk that
  fails, and then no complete entry is lost.
\<close>

theorem offsets_open_recovers:
  assumes "\<forall>c \<in> set cs. commit_ok c" "content d p = commits_bytes cs @ t" "t = [] \<or> torn_commit t"
  shows "case OpenOffsetStore p d of (r, d') \<Rightarrow>
    (case r of
       Inl e \<Rightarrow> e = EIO \<and> faults d \<noteq> [] \<and> content d' p \<in> {content d p, commits_bytes cs}
     | Inr s \<Rightarrow> offsets_repr s d' cs \<and> content d' p = commits_bytes cs \<and>
         (\<forall>g tp pt. Get g tp pt s = Inr (committed cs (commit_key g tp pt))))"
proof -
  obtain r d' where op: "OpenOffsetStore p d = (r, d')" by fastforce
  show ?thesis
    using open_offsets_ok [OF assms] Get_repr [of _ d' cs]
    by (auto simp: op reopened_def offsets_repr_def content_def split: sum.splits)
qed

text \<open>The sample entry and the first ten bytes of another one.\<close>

definition torn_offsets_disk :: disk where
  "torn_offsets_disk = \<lparr>files = [(sample_path, commit_bytes sample_commit @ take 10 (commit_bytes sample_commit))],
     flushed = [], entries = [], faults = []\<rparr>"

lemma sample_commit_length: "length (commit_bytes sample_commit) = 43"
  using length_commit_bytes sample_commit_ok(1)
  by (simp add: sample_commit_def entry_length_def offset_consts del: commit_bytes.simps commit_ok.simps)

theorem offsets_open_recovers_witness:
  "case OpenOffsetStore sample_path torn_offsets_disk of (r, d') \<Rightarrow>
     (\<exists>s. r = Inr s \<and> Get [103] [116] 0 s = Inr (Some 5)) \<and> length (content d' sample_path) = 43"
proof -
  let ?t = "take 10 (commit_bytes sample_commit)"
  have "length ?t \<noteq> length (commit_bytes sample_commit)" by (simp add: sample_commit_length)
  then have "?t \<noteq> commit_bytes sample_commit" by metis
  then have t: "?t = [] \<or> torn_commit ?t" using commit_prefix [OF sample_commit_ok(1), of 10] by blast
  have c: "content torn_offsets_disk sample_path = commits_bytes [sample_commit] @ ?t" "faults torn_offsets_disk = []"
    by (simp_all add: torn_offsets_disk_def content_def)
  obtain r d' where op: "OpenOffsetStore sample_path torn_offsets_disk = (r, d')" by fastforce
  have "committed [sample_commit] (commit_key [103] [116] 0) = Some 5"
    by (simp add: committed_def sample_commit_def commit_key_def)
  then show ?thesis
    using offsets_open_recovers [OF _ c(1) t] sample_commit_ok(1) sample_commit_length c(2) by (auto simp: op split: sum.splits)
qed

text \<open>
  A store that is closed, also when its last flush or the close fails, opens again with the same
  offsets.
\<close>

lemma offsets_close_open:
  assumes "offsets_repr s d cs" "\<not> oWriteFailed s" "\<not> oClosed s"
  shows "case CloseOffsets s d of (e, s1, d1) \<Rightarrow>
    oClosed s1 \<and> (\<forall>g t p. Get g t p s1 = Inl ErrOffsetStoreClosed) \<and> (faults d = [] \<longrightarrow> e = None) \<and>
    (\<exists>s2 d2. OpenOffsetStore (filePath s) (restarted d1) = (Inr s2, d2) \<and> offsets_repr s2 d2 cs \<and>
       (\<forall>g t p. Get g t p s2 = Get g t p s))"
proof -
  obtain e s1 d1 where cl: "CloseOffsets s d = (e, s1, d1)" by (metis surj_pair)
  obtain r2 d2 where e2: "sys_fsync (filePath s) d = (r2, d2)" by fastforce
  obtain r3 d3 where e3: "sys_close d2 = (r3, d3)" by fastforce
  have F: "files d1 = files d" "s1 = s\<lparr>oClosed := True\<rparr>" "e = join_err (err_of r2) (err_of r3)"
    using cl e2 e3 sys_fsync_files [of "filePath s" d] sys_close_files [of d2] assms(2,3)
    by (auto simp: CloseOffsets_def Let_def)
  have "e = None" if "faults d = []"
    using e2 sys_close_facts(3) [OF e3] that F(3)
    by (cases rule: sys_fsync_cases) (auto simp: err_of_def join_err_def)
  moreover have "content (restarted d1) (filePath s) = commits_bytes cs @ []" "\<forall>c \<in> set cs. commit_ok c"
    using assms(1,2) F(1) by (auto simp: offsets_repr_def content_def restarted_def)
  note O = reopened_fine [OF open_offsets_ok [OF this(2,1)]]
  ultimately show ?thesis
    using O F(2) assms Get_repr [OF assms(1)] Get_repr [of _ _ cs] by (fastforce simp: cl Get_def)
qed

section \<open>Damage\<close>

text \<open>A changed byte of the checksum or of the payload makes them disagree.\<close>

lemma frame_damage:
  assumes "i < length (PutUint32 (ChecksumIEEE pl) @ pl)" "x \<noteq> (PutUint32 (ChecksumIEEE pl) @ pl) ! i"
  shows "decode_commit ((PutUint32 (ChecksumIEEE pl) @ pl)[i := x]) m = Inl ErrCorruptOffsetLog"
proof -
  let ?c = "PutUint32 (ChecksumIEEE pl)"
  have bad: "decode_commit (c @ q) m = Inl ErrCorruptOffsetLog" if "length c = 4" "Uint32 c \<noteq> ChecksumIEEE q" for c q
    using that by (simp add: decode_commit_def Let_def gslice_def)
  show ?thesis
  proof (cases "i < 4")
    case True
    then have "?c[i := x] \<noteq> ?c" using assms(2) by (intro update_ne) (simp_all add: nth_append)
    then have "Uint32 (?c[i := x]) \<noteq> ChecksumIEEE pl"
      using PutUint32_Uint32 [of "?c[i := x]"] by (metis length_PutUint32 length_list_update)
    then show ?thesis using True bad [of "?c[i := x]" pl] by (simp add: list_update_append)
  next
    case False
    then have "ChecksumIEEE (pl[i - 4 := x]) \<noteq> ChecksumIEEE pl"
      using assms by (intro ChecksumIEEE_detects_update) (simp_all add: nth_append)
    then show ?thesis using False bad [of ?c "pl[i - 4 := x]"] by (simp add: list_update_append)
  qed
qed

lemma recover_entry_bad_prefix:
  assumes "content d p = pre @ q @ rest" "length q = 9" "gslice q 0 4 \<noteq> OffsetMagic \<or> q ! 4 \<noteq> 1"
    and "recover_entry p (length (content d p)) (length pre) d = (r, d')"
  shows "untouched d d' \<and> (r = Inl ErrCorruptOffsetLog \<or> r = Inl EIO \<and> faults d \<noteq> [])"
proof -
  obtain r1 d1 where e1: "file_read p 9 (length pre) d = (r1, d1)" by fastforce
  have "untouched d d1" "r1 = Inr q \<or> r1 = Inl EIO \<and> faults d \<noteq> []"
    using file_read_cases [OF _ e1] assms(1,2) by simp_all
  then show ?thesis using assms e1 by (auto simp: recover_entry_def Let_def OffsetPrefixSize_def)
qed

lemma recover_entry_damaged:
  assumes "commit_ok c" "i < length (commit_bytes c)" "i \<notin> {5..<9}" "x \<noteq> commit_bytes c ! i"
    and "content d p = pre @ (commit_bytes c)[i := x] @ rest"
    and "recover_entry p (length (content d p)) (length pre) d = (r, d')"
  shows "untouched d d' \<and> (r = Inl ErrCorruptOffsetLog \<or> r = Inl EIO \<and> faults d \<noteq> [])"
proof -
  obtain k n t where c: "c = (k, n, t)" by (metis surj_pair)
  have ok: "commit_ok (k, n, t)" using assms(1) c by simp
  define pl where "pl = payload_fields k n t"
  let ?pre = "prefix_bytes (entry_length k)" and ?frame = "PutUint32 (ChecksumIEEE pl) @ pl"
  have cb: "commit_bytes c = ?pre @ ?frame" by (simp add: c encode_commit_eq [OF ok] pl_def)
  show ?thesis
  proof (cases "i < 9")
    case True
    have p5: "?pre = OffsetMagic @ [1] @ PutUint32 (of_nat (entry_length k))" by (simp add: prefix_bytes_def)
    have "gslice (?pre[i := x]) 0 4 \<noteq> OffsetMagic \<or> ?pre[i := x] ! 4 \<noteq> 1"
    proof (cases "i = 4")
      case True
      then show ?thesis using assms(4) unfolding cb by (simp add: nth_append prefix_fields)
    next
      case False
      then have i: "i < 4" using \<open>i < 9\<close> assms(3) by auto
      then have "gslice (?pre[i := x]) 0 4 = OffsetMagic[i := x]" by (simp add: p5 gslice_def list_update_append)
      moreover have "OffsetMagic[i := x] \<noteq> OffsetMagic"
        using assms(4) i unfolding cb p5 by (intro update_ne) (simp_all add: nth_append)
      ultimately show ?thesis by simp
    qed
    moreover have "content d p = pre @ ?pre[i := x] @ (?frame @ rest)"
      using assms(5) True unfolding cb by (simp add: list_update_append)
    ultimately show ?thesis using recover_entry_bad_prefix [OF _ _ _ assms(6)] by simp
  next
    case False
    let ?frame' = "?frame[i - 9 := x]"
    have len: "length ?frame' = entry_length k" by (simp add: pl_def entry_length_def offset_consts)
    have "content d p = pre @ ?pre @ (?frame' @ rest)"
      using assms(5) False unfolding cb by (simp add: list_update_append)
    from recover_entry_prefix [OF this entry_length_bounds(1,2) [OF ok] assms(6)]
    have *: "\<exists>d1. untouched d d1 \<and> (r = Inl EIO \<and> d' = d1 \<and> faults d \<noteq> [] \<or>
        d' = d1 \<and> r = (case decode_commit ?frame' (entry_length k) of Inl e \<Rightarrow> Inl e
          | Inr (key, n) \<Rightarrow> Inr (Some (key, n, length pre + 9 + entry_length k))))"
      using len by auto
    have "i - 9 < length ?frame" "x \<noteq> ?frame ! (i - 9)" using assms(2,4) False unfolding cb by (auto simp: nth_append)
    from frame_damage [OF this] * show ?thesis by auto
  qed
qed

text \<open>
  C21. A file with a damaged entry is not opened: when any byte of a complete entry outside its length
  field has changed, recovery reports a corrupt log, wherever the entry is, and leaves the file as it
  is; no damaged offset is ever served.
\<close>

theorem offsets_damage_detected:
  assumes "\<forall>c \<in> set cs. commit_ok c" "commit_ok c"
    and "content d p = commits_bytes cs @ (commit_bytes c)[i := x] @ rest"
    and "i < length (commit_bytes c)" "i \<notin> {5..<9}" "x \<noteq> commit_bytes c ! i"
  shows "case OpenOffsetStore p d of (r, d') \<Rightarrow>
    content d' p = content d p \<and> (r = Inl ErrCorruptOffsetLog \<or> r = Inl EIO \<and> faults d \<noteq> [])"
proof -
  let ?n = "length (commits_bytes cs)"
  obtain r d' where op: "OpenOffsetStore p d = (r, d')" by fastforce
  have lt: "?n < length (content d p)" using assms(3,4) by auto
  from open_offsets_start [OF op] show ?thesis
  proof (elim disjE exE conjE, goal_cases)
    case 1
    then show ?case by (simp add: op)
  next
    case (2 d1 y d2)
    have c1: "content d1 p = commits_bytes ([] @ cs) @ (commit_bytes c)[i := x] @ rest" using 2(2) assms(3) by simp
    have "recover_offsets p (length (content d1 p)) (length (commits_bytes [])) (committed []) d1 = (y, d2)" using 2(1) by simp
    from recover_commits [OF assms(1) c1 this]
    have "untouched d1 d2 \<and> (y = Inl ErrCorruptOffsetLog \<or> y = Inl EIO \<and> faults d1 \<noteq> [])"
    proof (elim disjE exE conjE)
      fix d3 assume u: "untouched d1 d3"
        and rc: "recover_offsets p (length (content d1 p)) (length (commits_bytes ([] @ cs))) (committed ([] @ cs)) d3 = (y, d2)"
      obtain r4 d4 where e4: "recover_entry p (length (content d3 p)) ?n d3 = (r4, d4)" by fastforce
      have c3: "content d3 p = commits_bytes cs @ (commit_bytes c)[i := x] @ rest" using untouched_content [OF u] c1 by simp
      note E = recover_entry_damaged [OF assms(2,4-6) c3 e4]
      have "y = Inl e \<and> d2 = d4" if "r4 = Inl e" for e
        using rc lt e4 2(2) untouched_content [OF u] that by (subst (asm) recover_offsets.simps) simp
      then show ?thesis using E untouched_trans [OF u] untouched_faults [OF u] by auto
    qed simp
    then show ?case
      using 2(2,5,6) untouched_content [of d1 d2] content_cong [of d' d2 p] by (auto simp: op)
  qed
qed

theorem offsets_damage_detected_witness:
  "case OpenOffsetStore sample_path \<lparr>files = [(sample_path, (commit_bytes sample_commit)[0 := 1])], flushed = [], entries = [], faults = []\<rparr>
   of (r, d') \<Rightarrow> r = Inl ErrCorruptOffsetLog"
proof -
  let ?d = "\<lparr>files = [(sample_path, (commit_bytes sample_commit)[0 := 1])], flushed = [], entries = [], faults = []\<rparr>"
  obtain k n t where c: "sample_commit = (k, n, t)" by (metis surj_pair)
  have "commit_bytes sample_commit ! 0 = 0x4F"
    using encode_commit_eq [of k n t] sample_commit_ok(1) unfolding c by (simp add: prefix_bytes_def OffsetMagic_def)
  moreover have "content ?d sample_path = commits_bytes [] @ (commit_bytes sample_commit)[0 := 1] @ []" by (simp add: content_def)
  ultimately show ?thesis
    using offsets_damage_detected [of "[]", OF _ sample_commit_ok(1), of ?d sample_path 0 1 "[]"] sample_commit_length
    by (auto split: prod.splits)
qed

text \<open>
  C35. Damage to a length field is the exception. When the field claims up to 1024 bytes and more than
  the file still has, recovery takes the complete entry for the beginning of an interrupted commit:
  it opens the file without an error, and this entry and every later one are cut off, acknowledged or
  not. The comment of the code says that a complete record is never truncated.
\<close>

theorem offsets_length_damage:
  assumes "\<forall>c \<in> set cs. commit_ok c" "content d p = commits_bytes cs @ prefix_bytes m @ rest"
    and "32 \<le> m" "m \<le> 1024" "length rest < m" "faults d = []"
  shows "\<exists>s d'. OpenOffsetStore p d = (Inr s, d') \<and> offsets_repr s d' cs \<and> content d' p = commits_bytes cs"
proof -
  let ?n = "length (commits_bytes cs)"
  obtain r d' where op: "OpenOffsetStore p d = (r, d')" by fastforce
  from open_offsets_start [OF op] assms(6) obtain d1 y d2 where
    2: "recover_offsets p (length (content d1 p)) 0 Map.empty d1 = (y, d2)" "content d1 p = content d p" "faults d1 = []"
      "case y of Inl e \<Rightarrow> r = Inl e \<and> files d' = files d2
        | Inr (n, m) \<Rightarrow> r = Inr \<lparr>filePath = p, offsets = m, oSize = n, oClosed = False, oWriteFailed = False\<rparr> \<and> d' = d2"
    by auto
  have c1: "content d1 p = commits_bytes ([] @ cs) @ prefix_bytes m @ rest" using 2(2) assms(2) by simp
  have "recover_offsets p (length (content d1 p)) (length (commits_bytes [])) (committed []) d1 = (y, d2)" using 2(1) by simp
  from recover_commits [OF assms(1) c1 this] 2(3) obtain d3 where
    u: "untouched d1 d3" and rc: "recover_offsets p (length (content d1 p)) ?n (committed cs) d3 = (y, d2)"
    by auto
  have c3: "content d3 p = commits_bytes cs @ prefix_bytes m @ rest" "faults d3 = []"
    using untouched_content [OF u] c1 u 2(3) by (simp_all add: untouched_def)
  obtain r4 d4 where e4: "recover_entry p (length (content d3 p)) ?n d3 = (r4, d4)" by fastforce
  from recover_entry_prefix [OF c3(1) assms(3,4) e4] c3(2) assms(5) obtain d5 e where
    d5: "untouched d3 d5" "truncateAndSync p ?n d5 = (e, d4)" "r4 = (case e of Some x \<Rightarrow> Inl x | None \<Rightarrow> Inr None)"
    by auto
  have c5: "content d5 p = content d3 p" "faults d5 = []"
    using untouched_content [OF d5(1)] d5(1) c3(2) by (simp_all add: untouched_def)
  then have t: "e = None \<and> restored p (commits_bytes cs) d4"
    using truncateAndSync_cases(1) [OF d5(2)] c3(1) by simp
  have "?n < length (content d1 p)" using c1 by simp
  then have "y = Inr (?n, committed cs) \<and> d2 = d4"
    using rc e4 t d5(3) c3(1) c1 by (subst (asm) recover_offsets.simps) simp
  then show ?thesis
    using 2(4) t assms(1) by (auto simp: op offsets_repr_def restored_def content_def)
qed

theorem offsets_length_damage_witness:
  "\<exists>s d'. OpenOffsetStore sample_path \<lparr>files = [(sample_path, prefix_bytes 1000 @ drop 9 (commit_bytes sample_commit) @ commit_bytes sample_commit)],
       flushed = [], entries = [], faults = []\<rparr> = (Inr s, d') \<and> content d' sample_path = []"
  using offsets_length_damage [of "[]" "\<lparr>files = [(sample_path, prefix_bytes 1000 @ drop 9 (commit_bytes sample_commit) @ commit_bytes sample_commit)],
       flushed = [], entries = [], faults = []\<rparr>" sample_path 1000 "drop 9 (commit_bytes sample_commit) @ commit_bytes sample_commit"]
    sample_commit_length
  by (auto simp: content_def)

section \<open>Stores out of service\<close>

text \<open>
  A store that is closed or has failed never answers with an offset, never writes and stays out of
  service: \<^verbatim>\<open>Commit\<close> and \<^verbatim>\<open>Get\<close> return its error, and a second \<^verbatim>\<open>Close\<close> does nothing.
\<close>

lemma offsets_out_of_service:
  assumes "oClosed s \<or> oWriteFailed s" "valid_name MaxConsumerGroupBytes grp" "valid_name MaxTopicNameBytes topic"
  shows "Commit ts grp topic part n s d = (Some (if oClosed s then ErrOffsetStoreClosed else ErrOffsetStoreUnavailable), s, d) \<and>
    Get grp topic part s = Inl (if oClosed s then ErrOffsetStoreClosed else ErrOffsetStoreUnavailable) \<and>
    (case CloseOffsets s d of (e, s', d') \<Rightarrow> oClosed s' \<and> files d' = files d \<and> (oClosed s \<longrightarrow> e = None \<and> s' = s \<and> d' = d))"
  using assms by (auto simp: Commit_def Get_def CloseOffsets_def Let_def split: prod.splits dest: sys_close_facts(1))

section \<open>The contract of the store\<close>

text \<open>
  A client that commits one offset after the other, and the offsets that its acknowledged commits leave:
  the last one of a key.
\<close>

fun commit_all :: "(Key \<Rightarrow> u64 \<Rightarrow> 's \<Rightarrow> err option \<times> 's) \<Rightarrow> (Key \<times> u64) list \<Rightarrow> 's \<Rightarrow> err option list \<times> 's" where
  "commit_all com [] s = ([], s)"
| "commit_all com ((k, n) # ks) s = (let (r, s) = com k n s; (rs, s) = commit_all com ks s in (r # rs, s))"

definition acked_map :: "(Key \<rightharpoonup> u64) \<Rightarrow> (Key \<times> u64) list \<Rightarrow> err option list \<Rightarrow> (Key \<rightharpoonup> u64)" where
  "acked_map m ks rs = foldl (\<lambda>m ((k, n), r). if r = None then m(k \<mapsto> n) else m) m (zip ks rs)"

text \<open>
  What a client relies on about committed offsets. \<open>keeps s m\<close> says that the store \<open>s\<close> has committed the
  offsets \<open>m\<close>; \<open>reopen\<close> is a crash, at any moment, and the start of a new process.
\<close>

locale offset_map =
  fixes keeps :: "'s \<Rightarrow> (Key \<rightharpoonup> u64) \<Rightarrow> bool"
    and serving :: "'s \<Rightarrow> bool"
    and commit :: "Key \<Rightarrow> u64 \<Rightarrow> 's \<Rightarrow> err option \<times> 's"
    and get :: "Key \<Rightarrow> 's \<Rightarrow> err + u64 option"
    and reopen :: "'s \<Rightarrow> err + 's"
  assumes get_ok: "keeps s m \<Longrightarrow> get k s = Inr v \<Longrightarrow> v = m k"
    and get_serving: "keeps s m \<Longrightarrow> serving s \<Longrightarrow> get k s = Inr (m k)"
    and commit_ok: "keeps s m \<Longrightarrow> commit k n s = (None, s') \<Longrightarrow> keeps s' (m(k \<mapsto> n)) \<and> serving s'"
    and commit_error: "keeps s m \<Longrightarrow> commit k n s = (Some e, s') \<Longrightarrow> keeps s' m"
    and reopen_ok: "keeps s m \<Longrightarrow> serving s \<Longrightarrow> reopen s = Inr s' \<Longrightarrow> keeps s' m \<and> serving s'"
    and reopen_commit: "keeps s m \<Longrightarrow> serving s \<Longrightarrow> commit k n s = (r, s1) \<Longrightarrow>
      \<exists>s2. reopen s1 = Inr s2 \<and> serving s2 \<and> (keeps s2 (m(k \<mapsto> n)) \<or> keeps s2 m \<and> r \<noteq> None)"
begin

lemma commit_all_keeps:
  "keeps s m \<Longrightarrow> commit_all commit ks s = (rs, s') \<Longrightarrow> keeps s' (acked_map m ks rs)"
proof (induction ks arbitrary: s m rs)
  case (Cons kn ks)
  obtain k n where kn: "kn = (k, n)" by fastforce
  obtain r s1 where c: "commit k n s = (r, s1)" by fastforce
  obtain rs1 s2 where cs: "commit_all commit ks s1 = (rs1, s2)" by fastforce
  have k1: "keeps s1 (if r = None then m(k \<mapsto> n) else m)"
    using commit_ok [OF Cons.prems(1)] commit_error [OF Cons.prems(1)] c by (cases r) auto
  have rs: "rs = r # rs1" "s2 = s'" using Cons.prems(2) by (simp_all add: kn c cs)
  with Cons.IH [OF k1 cs [unfolded rs(2)]] show ?case by (simp add: acked_map_def kn)
qed (simp add: acked_map_def)

lemma get_last_acked:
  assumes "keeps s m" "commit_all commit ks s = (rs, s')" "get k s' = Inr v"
  shows "v = acked_map m ks rs k"
  using get_ok [OF commit_all_keeps [OF assms(1,2)] assms(3)] .

end

text \<open>The store keeps the contract; a state is the store and its disk.\<close>

type_synonym offset_state = "offset_store \<times> disk"

definition offsets_keep :: "offset_state \<Rightarrow> (Key \<rightharpoonup> u64) \<Rightarrow> bool" where
  "offsets_keep st m \<longleftrightarrow> (\<exists>cs. offsets_repr (fst st) (snd st) cs \<and> m = committed cs)"

definition offsets_serving :: "offset_state \<Rightarrow> bool" where
  "offsets_serving st \<longleftrightarrow> \<not> oClosed (fst st) \<and> \<not> oWriteFailed (fst st)"

definition offsets_commit :: "i64 \<Rightarrow> Key \<Rightarrow> u64 \<Rightarrow> offset_state \<Rightarrow> err option \<times> offset_state" where
  "offsets_commit ts k n st = Commit ts (kGroup k) (kTopic k) (kPartition k) n (fst st) (snd st)"

definition offsets_get :: "Key \<Rightarrow> offset_state \<Rightarrow> err + u64 option" where
  "offsets_get k st = Get (kGroup k) (kTopic k) (kPartition k) (fst st)"

definition offsets_reopen :: "offset_state \<Rightarrow> err + offset_state" where
  "offsets_reopen st = (case OpenOffsetStore (filePath (fst st)) (restarted (snd st)) of
     (Inl e, _) \<Rightarrow> Inl e | (Inr s, d) \<Rightarrow> Inr (s, d))"

lemma commit_key_self [simp]: "commit_key (kGroup k) (kTopic k) (kPartition k) = k"
  by (simp add: commit_key_def)

lemma offsets_get_keep:
  assumes "offsets_keep st m"
  shows "offsets_get k st = (if oClosed (fst st) then Inl ErrOffsetStoreClosed
    else if oWriteFailed (fst st) then Inl ErrOffsetStoreUnavailable else Inr (m k))"
  using assms Get_repr by (fastforce simp: offsets_keep_def offsets_get_def)

lemma offsets_reopen_keep:
  assumes "offsets_keep st m" "offsets_serving st"
  shows "\<exists>st'. offsets_reopen st = Inr st' \<and> offsets_keep st' m \<and> offsets_serving st'"
proof -
  obtain cs where cs: "offsets_repr (fst st) (snd st) cs" "m = committed cs" using assms(1) by (auto simp: offsets_keep_def)
  have "content (restarted (snd st)) (filePath (fst st)) = commits_bytes cs @ []" "\<forall>c \<in> set cs. commit_ok c"
    using cs(1) assms(2) by (auto simp: offsets_repr_def offsets_serving_def content_def restarted_def)
  from reopened_fine [OF open_offsets_ok [OF this(2,1)]] cs(2) show ?thesis
    by (auto simp: offsets_reopen_def offsets_keep_def offsets_serving_def)
qed

interpretation om: offset_map offsets_keep offsets_serving "offsets_commit ts" offsets_get offsets_reopen for ts
proof
  fix s m k v
  assume k: "offsets_keep s m"
  show "offsets_get k s = Inr v \<Longrightarrow> v = m k" using offsets_get_keep [OF k, of k] by (simp split: if_splits)
  show "offsets_serving s \<Longrightarrow> offsets_get k s = Inr (m k)" using offsets_get_keep [OF k, of k] by (simp add: offsets_serving_def)
next
  fix s m k n s'
  assume k: "offsets_keep s m" and c: "offsets_commit ts k n s = (None, s')"
  then obtain cs where cs: "offsets_repr (fst s) (snd s) cs" "m = committed cs" by (auto simp: offsets_keep_def)
  have com: "Commit ts (kGroup k) (kTopic k) (kPartition k) n (fst s) (snd s) = (None, fst s', snd s')"
    using c by (simp add: offsets_commit_def)
  have "offsets_serving s'"
    by (rule Commit_cases [OF cs(1) com]) (auto simp: offsets_serving_def)
  then show "offsets_keep s' (m(k \<mapsto> n)) \<and> offsets_serving s'"
    using Commit_repr [OF cs(1) com] cs(2) by (auto simp: offsets_keep_def)
next
  fix s m k n e s'
  assume k: "offsets_keep s m" and c: "offsets_commit ts k n s = (Some e, s')"
  then obtain cs where cs: "offsets_repr (fst s) (snd s) cs" "m = committed cs" by (auto simp: offsets_keep_def)
  have com: "Commit ts (kGroup k) (kTopic k) (kPartition k) n (fst s) (snd s) = (Some e, fst s', snd s')"
    using c by (simp add: offsets_commit_def)
  show "offsets_keep s' m" using Commit_repr [OF cs(1) com] cs(2) by (auto simp: offsets_keep_def)
next
  fix s m s'
  assume "offsets_keep s m" "offsets_serving s" "offsets_reopen s = Inr s'"
  then show "offsets_keep s' m \<and> offsets_serving s'" using offsets_reopen_keep by fastforce
next
  fix s m k n r s1
  assume k: "offsets_keep s m" "offsets_serving s" and c: "offsets_commit ts k n s = (r, s1)"
  then obtain cs where cs: "offsets_repr (fst s) (snd s) cs" "m = committed cs" by (auto simp: offsets_keep_def)
  have com: "Commit ts (kGroup k) (kTopic k) (kPartition k) n (fst s) (snd s) = (r, fst s1, snd s1)"
    using c by (simp add: offsets_commit_def)
  obtain s3 d3 cs' where R: "OpenOffsetStore (filePath (fst s)) (restarted (snd s1)) = (Inr s3, d3)" "offsets_repr s3 d3 cs'"
    "cs' = cs @ [(k, n, ts)] \<or> cs' = cs \<and> r \<noteq> None" "\<not> oClosed s3 \<and> \<not> oWriteFailed s3"
    using Commit_reopen [OF cs(1) _ com] k(2) by (auto simp: offsets_serving_def)
  moreover have "filePath (fst s1) = filePath (fst s)" using Commit_repr [OF cs(1) com] by simp
  ultimately show "\<exists>s2. offsets_reopen s1 = Inr s2 \<and> offsets_serving s2 \<and> (offsets_keep s2 (m(k \<mapsto> n)) \<or> offsets_keep s2 m \<and> r \<noteq> None)"
    using cs(2) by (intro exI [of _ "(s3, d3)"]) (auto simp: offsets_reopen_def offsets_keep_def offsets_serving_def)
qed

text \<open>
  In any sequence of commits by any consumers, some failing, an offset that \<^verbatim>\<open>Get\<close> returns is the last
  one whose commit was acknowledged for that group, topic and partition, or the one the store had
  before when there was none.
\<close>

theorem get_last_acked_commit:
  assumes "offsets_keep st m" "commit_all (offsets_commit ts) ks st = (rs, st')" "offsets_get k st' = Inr v"
  shows "v = acked_map m ks rs k"
  by (rule om.get_last_acked [OF assms])

theorem get_last_acked_commit_witness:
  "\<exists>rs st'. commit_all (offsets_commit 7) [(commit_key [103] [116] 0, 8), (commit_key [103] [116] 0, 9)]
       (sample_offsets, sample_offsets_disk) = (rs, st') \<and>
     offsets_get (commit_key [103] [116] 0) st' = Inr (acked_map (committed [sample_commit])
       [(commit_key [103] [116] 0, 8), (commit_key [103] [116] 0, 9)] rs (commit_key [103] [116] 0))"
proof -
  let ?k = "commit_key [103] [116] 0" and ?st = "(sample_offsets, sample_offsets_disk)"
  have k: "offsets_keep ?st (committed [sample_commit])" using sample_offsets_repr by (auto simp: offsets_keep_def)
  obtain s1 d1 where c1: "Commit 7 [103] [116] 0 8 sample_offsets sample_offsets_disk = (None, s1, d1)" "faults d1 = []"
    using Commit_ok [OF sample_offsets_repr sample_commit_ok(2), where part = 0 and n = 8 and ts = 7] by auto
  have r1: "offsets_repr s1 d1 [sample_commit, (?k, 8, 7)]" using Commit_repr [OF sample_offsets_repr c1(1)] by simp
  have s1: "\<not> oClosed s1" "\<not> oWriteFailed s1"
    using om.commit_ok [OF k, where ts = 7 and k = ?k and n = 8 and s' = "(s1, d1)"] c1(1)
    by (simp_all add: offsets_commit_def offsets_serving_def commit_key_def)
  obtain s2 d2 where c2: "Commit 7 [103] [116] 0 9 s1 d1 = (None, s2, d2)"
    using Commit_ok [OF r1 sample_commit_ok(2) s1 c1(2), where part = 0 and n = 9 and ts = 7] by auto
  have st2: "commit_all (offsets_commit 7) [(?k, 8), (?k, 9)] ?st = ([None, None], (s2, d2))"
    using c1(1) c2 by (simp add: offsets_commit_def commit_key_def)
  have "\<not> oClosed s2 \<and> \<not> oWriteFailed s2" by (rule Commit_cases [OF r1 c2]) auto
  then have "offsets_get ?k (s2, d2) = Inr (offsets s2 ?k)" by (simp add: offsets_get_def Get_def commit_key_def)
  with get_last_acked_commit [OF k st2 this] show ?thesis using st2 by auto
qed

end
