(* ===== verification/Config.thy ===== *)
theory Config
  imports Json
begin

text \<open>
  The configuration (\<^verbatim>\<open>internal/config/config.go\<close>): its records, the defaults, and \<open>Load\<close> with the
  environment variables and the checks. Durations are counted in nanoseconds on 64 bits.
\<close>

section \<open>Records\<close>

record BrokerConfig =
  bcGRPCAddress :: gostring
  bcHTTPAddress :: gostring
  bcGracefulShutdownTimeout :: i64
  bcShutdownTimeoutStr :: gostring

record StorageConfig =
  scDataDirectory :: gostring
  scMaxRecordBytes :: int
  scMaxBatchBytes :: int
  scSegmentMaxBytes :: int
  scIndexIntervalBytes :: int
  scFlushMode :: gostring

record ObservabilityConfig =
  ocLogLevel :: gostring
  ocLogFormat :: gostring
  ocMetricsEnabled :: bool
  ocPprofEnabled :: bool
  ocMutexProfileFraction :: int
  ocBlockProfileRate :: int

record RetentionConfig =
  rcDefaultMaxAgeStr :: gostring
  rcDefaultMaxPartitionBytes :: u64
  rcCheckIntervalStr :: gostring
  rcDefaultMaxAge :: i64
  rcCheckInterval :: i64

record Config =
  cBroker :: BrokerConfig
  cStorage :: StorageConfig
  cRetention :: RetentionConfig
  cObservability :: ObservabilityConfig

definition Second :: i64 where
  "Second = 1000000000"

definition Hour :: i64 where
  "Hour = 3600 * Second"

definition DefaultConfig :: Config where
  "DefaultConfig =
     \<lparr>cBroker = \<lparr>bcGRPCAddress = str ''localhost:50051'', bcHTTPAddress = str ''localhost:9093'',
        bcGracefulShutdownTimeout = 0, bcShutdownTimeoutStr = str ''15s''\<rparr>,
      cStorage = \<lparr>scDataDirectory = str ''./data'', scMaxRecordBytes = 1048576, scMaxBatchBytes = 5242880,
        scSegmentMaxBytes = 134217728, scIndexIntervalBytes = 4096, scFlushMode = str ''sync''\<rparr>,
      cRetention = \<lparr>rcDefaultMaxAgeStr = str ''168h'', rcDefaultMaxPartitionBytes = 10737418240,
        rcCheckIntervalStr = str ''5m'', rcDefaultMaxAge = 168 * Hour, rcCheckInterval = 300 * Second\<rparr>,
      cObservability = \<lparr>ocLogLevel = str ''info'', ocLogFormat = str ''json'', ocMetricsEnabled = True,
        ocPprofEnabled = False, ocMutexProfileFraction = 0, ocBlockProfileRate = 0\<rparr>\<rparr>"

end
