(* ===== verification/Grpc_Handlers.thy ===== *)
theory Grpc_Handlers
  imports Topic_Contract Offset_Contract Config
begin

text \<open>
  The request handlers (\<^verbatim>\<open>internal/grpcserver/broker_handler.go\<close> and \<^verbatim>\<open>admin.go\<close>) on the state that the
  broker's services share: the topic manager, the offset store and their directories, and the request
  counters. The text of a status is left out; its code is kept.

  A handler makes several calls that each hold a lock. What other requests do between two of them is
  an argument \<open>others\<close> of the handlers, by the number of the gap; with \<open>quiet\<close> a handler runs alone.
\<close>

section \<open>Messages\<close>

record ProtoHeader =
  phKey :: gostring
  phValue :: bytes

record ProtoRecord =
  pbKey :: "bytes option"
  pbValue :: "bytes option"
  pbHeaders :: "ProtoHeader list"
  pbTimestamp :: i64

record ProtoStoredRecord =
  psOffset :: u64
  psTimestamp :: i64
  psKey :: "bytes option"
  psValue :: "bytes option"
  psHeaders :: "ProtoHeader list"

record ProduceRequest =
  prTopic :: gostring
  prPartition :: u32
  prRecords :: "ProtoRecord list"

record ProduceResponse =
  prBaseOffset :: u64
  prLastOffset :: u64
  prRecordCount :: u32

record FetchRequest =
  frTopic :: gostring
  frPartition :: u32
  frOffset :: u64
  frMaxBytes :: u32

record FetchResponse =
  frRecords :: "ProtoStoredRecord list"
  frEarliestOffset :: u64
  frLogEndOffset :: u64

record CommitOffsetRequest =
  coConsumerGroup :: gostring
  coTopic :: gostring
  coPartition :: u32
  coNextOffset :: u64

record FetchCommittedOffsetRequest =
  fcConsumerGroup :: gostring
  fcTopic :: gostring
  fcPartition :: u32

record FetchCommittedOffsetResponse =
  fcFound :: bool
  fcNextOffset :: u64

record CreateTopicRequest =
  ctName :: gostring
  ctPartitionCount :: u32
  ctRetention :: "RetentionPolicy option"

record PartitionMetadata =
  pmPartitionId :: u32
  pmEarliestOffset :: u64
  pmLogEndOffset :: u64

record TopicMetadata =
  tmName :: gostring
  tmPartitionCount :: u32
  tmPartitions :: "PartitionMetadata list"
  tmRetention :: RetentionPolicy

section \<open>Statuses\<close>

datatype code =
    OK | Canceled | Unknown | InvalidArgument | DeadlineExceeded | NotFound | AlreadyExists | PermissionDenied
  | ResourceExhausted | FailedPrecondition | Aborted | OutOfRange | Unimplemented | Internal | Unavailable
  | DataLoss | Unauthenticated

text \<open>The error of a call: a status, another error, or a panic, which ends the process.\<close>

datatype rpc_error = StatusErr code | OtherErr | Crash

fun grpcStatusLabel :: "rpc_error option \<Rightarrow> gostring" where
  "grpcStatusLabel None = str ''ok''"
| "grpcStatusLabel (Some (StatusErr c)) =
     (case c of
        OK \<Rightarrow> str ''ok''
      | InvalidArgument \<Rightarrow> str ''invalid_argument''
      | NotFound \<Rightarrow> str ''not_found''
      | OutOfRange \<Rightarrow> str ''out_of_range''
      | ResourceExhausted \<Rightarrow> str ''resource_exhausted''
      | Unavailable \<Rightarrow> str ''unavailable''
      | _ \<Rightarrow> str ''internal'')"
| "grpcStatusLabel (Some _) = str ''internal''"

section \<open>State\<close>

datatype counter = ProduceRequests | FetchRequests | OffsetCommits

text \<open>Every increment of a counter, with the labels of its method and status; \<open>None\<close> when metrics are off.\<close>

record Broker =
  bManager :: Manager
  bDataDir :: data_dir
  bOffsets :: offset_store
  bOffsetsDir :: disk
  bStorageCfg :: StorageConfig
  bMetrics :: "(counter \<times> gostring \<times> gostring) list option"

text \<open>A deferred function sees the error of the call, and none when the call panics.\<close>

definition returned_err :: "rpc_error + 'a \<Rightarrow> rpc_error option" where
  "returned_err r = (case r of Inr _ \<Rightarrow> None | Inl e \<Rightarrow> if e = Crash then None else Some e)"

definition inc :: "counter \<Rightarrow> gostring \<Rightarrow> (rpc_error + 'a) \<times> Broker \<Rightarrow> (rpc_error + 'a) \<times> Broker" where
  "inc c method rb =
     (case rb of (r, b) \<Rightarrow>
        (r, b\<lparr>bMetrics := map_option (\<lambda>ms. ms @ [(c, method, grpcStatusLabel (returned_err r))]) (bMetrics b)\<rparr>))"

definition quiet :: "nat \<Rightarrow> Broker \<Rightarrow> Broker" where
  "quiet i b = b"

definition resolve :: "gostring \<Rightarrow> u32 \<Rightarrow> Broker \<Rightarrow> rpc_error + Log" where
  "resolve topic pid b =
     (case GetPartition topic pid (bManager b) of
        Inr l \<Rightarrow> Inr l
      | Inl e \<Rightarrow> if e = ErrTopicNotFound \<or> e = ErrPartitionNotFound then Inl (StatusErr NotFound) else Inl (StatusErr Internal))"

text \<open>The log that a handler has resolved, as other requests have left it, and what the handler does to it.\<close>

definition log_now :: "gostring \<Rightarrow> u32 \<Rightarrow> Log \<Rightarrow> Broker \<Rightarrow> Log" where
  "log_now topic pid l b = (case GetPartition topic pid (bManager b) of Inr l' \<Rightarrow> l' | Inl _ \<Rightarrow> l)"

definition set_log :: "gostring \<Rightarrow> u32 \<Rightarrow> Log \<Rightarrow> Broker \<Rightarrow> Broker" where
  "set_log topic pid l b = b\<lparr>bManager := set_partition topic (unat pid) l (bManager b)\<rparr>"

section \<open>Produce\<close>

definition recordPayloadSize :: "ProtoRecord \<Rightarrow> int" where
  "recordPayloadSize r =
     int (olen (pbKey r) + olen (pbValue r) + sum_list (map (\<lambda>h. length (phKey h) + length (phValue h)) (pbHeaders r)))"

definition to_record :: "ProtoRecord \<Rightarrow> model_record" where
  "to_record r =
     \<lparr>rKey = pbKey r, rValue = pbValue r,
      rHeaders = map (\<lambda>h. \<lparr>hKey = phKey h, hValue = phValue h\<rparr>) (pbHeaders r), rTimestamp = pbTimestamp r\<rparr>"

fun convert_records :: "int \<Rightarrow> ProtoRecord list \<Rightarrow> rpc_error + model_record list" where
  "convert_records maxRecordBytes [] = Inr []"
| "convert_records maxRecordBytes (r # rs) =
     (if recordPayloadSize r > maxRecordBytes then Inl (StatusErr ResourceExhausted)
      else case convert_records maxRecordBytes rs of Inl e \<Rightarrow> Inl e | Inr xs \<Rightarrow> Inr (to_record r # xs))"

definition append_status :: "err \<Rightarrow> rpc_error" where
  "append_status e =
     (if e = GoPanic then Crash else if e = ErrBatchTooLarge then StatusErr ResourceExhausted else StatusErr Internal)"

text \<open>\<open>ts\<close> is the time that the store reads when it stamps the batch.\<close>

definition Produce :: "(nat \<Rightarrow> Broker \<Rightarrow> Broker) \<Rightarrow> i64 \<Rightarrow> ProduceRequest \<Rightarrow> Broker \<Rightarrow> (rpc_error + ProduceResponse) \<times> Broker" where
  "Produce others ts req b =
     inc ProduceRequests (str ''produce'')
       (if prRecords req = [] then (Inl (StatusErr InvalidArgument), b)
        else
        case resolve (prTopic req) (prPartition req) b of
          Inl e \<Rightarrow> (Inl e, b)
        | Inr l \<Rightarrow>
            let b = others 0 b in
            (case convert_records (scMaxRecordBytes (bStorageCfg b)) (prRecords req) of
               Inl e \<Rightarrow> (Inl e, b)
             | Inr internalRecs \<Rightarrow>
                 let (r, l) = LogAppend ts internalRecs (log_now (prTopic req) (prPartition req) l b);
                     b = set_log (prTopic req) (prPartition req) l b in
                 (case r of
                    Inl e \<Rightarrow> (Inl (append_status e), b)
                  | Inr (base, lst) \<Rightarrow>
                      (Inr \<lparr>prBaseOffset = base, prLastOffset = lst, prRecordCount = of_nat (length (prRecords req))\<rparr>, b))))"

section \<open>Fetch\<close>

definition to_proto :: "stored_record \<Rightarrow> ProtoStoredRecord" where
  "to_proto r =
     \<lparr>psOffset = srOffset r, psTimestamp = srTimestamp r, psKey = srKey r, psValue = srValue r,
      psHeaders = map (\<lambda>h. \<lparr>phKey = hKey h, phValue = hValue h\<rparr>) (srHeaders r)\<rparr>"

definition read_status :: "err \<Rightarrow> rpc_error" where
  "read_status e =
     (if e = GoPanic then Crash else if e = ErrOffsetOutOfRange then StatusErr OutOfRange else StatusErr Internal)"

definition Fetch :: "(nat \<Rightarrow> Broker \<Rightarrow> Broker) \<Rightarrow> FetchRequest \<Rightarrow> Broker \<Rightarrow> (rpc_error + FetchResponse) \<times> Broker" where
  "Fetch others req b =
     inc FetchRequests (str ''fetch'')
       (if frMaxBytes req = 0 then (Inl (StatusErr InvalidArgument), b)
        else
        case resolve (frTopic req) (frPartition req) b of
          Inl e \<Rightarrow> (Inl e, b)
        | Inr l \<Rightarrow>
            let b = others 0 b;
                (r, l) = LogRead (frOffset req) (int (unat (frMaxBytes req))) (log_now (frTopic req) (frPartition req) l b);
                b = set_log (frTopic req) (frPartition req) l b in
            (case r of
               Inl e \<Rightarrow> (Inl (read_status e), b)
             | Inr stored \<Rightarrow>
                 let b = others 1 b;
                     earliest = LogEarliestOffset (log_now (frTopic req) (frPartition req) l b);
                     b = others 2 b;
                     logEnd = LogLogEndOffset (log_now (frTopic req) (frPartition req) l b) in
                 (Inr \<lparr>frRecords = map to_proto stored, frEarliestOffset = earliest, frLogEndOffset = logEnd\<rparr>, b)))"

section \<open>Committed offsets\<close>

definition commit_status :: "err \<Rightarrow> rpc_error" where
  "commit_status e =
     (if e = ErrOffsetStoreUnavailable \<or> e = ErrOffsetStoreClosed then StatusErr Unavailable
      else if e = ErrInvalidArgument then StatusErr InvalidArgument else StatusErr Internal)"

text \<open>\<open>None\<close> is a nil request.\<close>

definition CommitOffset :: "(nat \<Rightarrow> Broker \<Rightarrow> Broker) \<Rightarrow> i64 \<Rightarrow> CommitOffsetRequest option \<Rightarrow> Broker \<Rightarrow> (rpc_error + unit) \<times> Broker" where
  "CommitOffset others ts req b =
     inc OffsetCommits (str ''commit_offset'')
       (case req of
          None \<Rightarrow> (Inl (StatusErr InvalidArgument), b)
        | Some req \<Rightarrow>
            if coConsumerGroup req = [] then (Inl (StatusErr InvalidArgument), b)
            else
            (case resolve (coTopic req) (coPartition req) b of
               Inl e \<Rightarrow> (Inl e, b)
             | Inr l \<Rightarrow>
                 let b = others 0 b;
                     earliest = LogEarliestOffset (log_now (coTopic req) (coPartition req) l b);
                     b = others 1 b;
                     logEnd = LogLogEndOffset (log_now (coTopic req) (coPartition req) l b) in
                 if coNextOffset req < earliest \<or> coNextOffset req > logEnd then (Inl (StatusErr OutOfRange), b)
                 else
                 let b = others 2 b;
                     (r, s, d) = Commit ts (coConsumerGroup req) (coTopic req) (coPartition req) (coNextOffset req)
                       (bOffsets b) (bOffsetsDir b);
                     b = b\<lparr>bOffsets := s, bOffsetsDir := d\<rparr> in
                 (case r of None \<Rightarrow> (Inr (), b) | Some e \<Rightarrow> (Inl (commit_status e), b))))"

definition get_status :: "err \<Rightarrow> rpc_error" where
  "get_status e =
     (if e = ErrOffsetStoreUnavailable \<or> e = ErrOffsetStoreClosed then StatusErr Unavailable else StatusErr Internal)"

definition FetchCommittedOffset ::
  "(nat \<Rightarrow> Broker \<Rightarrow> Broker) \<Rightarrow> FetchCommittedOffsetRequest option \<Rightarrow> Broker \<Rightarrow> (rpc_error + FetchCommittedOffsetResponse) \<times> Broker" where
  "FetchCommittedOffset others req b =
     (case req of
        None \<Rightarrow> (Inl (StatusErr InvalidArgument), b)
      | Some req \<Rightarrow>
          if fcConsumerGroup req = [] then (Inl (StatusErr InvalidArgument), b)
          else
          (case resolve (fcTopic req) (fcPartition req) b of
             Inl e \<Rightarrow> (Inl e, b)
           | Inr _ \<Rightarrow>
               let b = others 0 b in
               (case Get (fcConsumerGroup req) (fcTopic req) (fcPartition req) (bOffsets b) of
                  Inl e \<Rightarrow> (Inl (get_status e), b)
                | Inr None \<Rightarrow> (Inr \<lparr>fcFound = False, fcNextOffset = 0\<rparr>, b)
                | Inr (Some n) \<Rightarrow> (Inr \<lparr>fcFound = True, fcNextOffset = n\<rparr>, b))))"

section \<open>Topics\<close>

definition convertToProtoMetadata :: "Topic \<Rightarrow> TopicMetadata" where
  "convertToProtoMetadata t =
     \<lparr>tmName = tName t, tmPartitionCount = of_nat (PartitionCount t),
      tmPartitions = map (\<lambda>i. \<lparr>pmPartitionId = of_nat i, pmEarliestOffset = LogEarliestOffset (tPartitions t ! i),
          pmLogEndOffset = LogLogEndOffset (tPartitions t ! i)\<rparr>) [0..<PartitionCount t],
      tmRetention = tRetention t\<rparr>"

definition create_status :: "err \<Rightarrow> rpc_error" where
  "create_status e =
     (if e = GoPanic then Crash
      else if e = ErrTopicExists then StatusErr AlreadyExists
      else if e = ErrInvalidTopicName then StatusErr InvalidArgument
      else if e = ErrTooManyPartitions then StatusErr InvalidArgument
      else StatusErr Internal)"

definition AdminCreateTopic :: "CreateTopicRequest \<Rightarrow> Broker \<Rightarrow> (rpc_error + TopicMetadata) \<times> Broker" where
  "AdminCreateTopic req b =
     (if ctName req = [] then (Inl (StatusErr InvalidArgument), b)
      else if ctPartitionCount req = 0 then (Inl (StatusErr InvalidArgument), b)
      else
      let retention = (case ctRetention req of None \<Rightarrow> \<lparr>rpMaxAgeSeconds = 0, rpMaxBytes = 0\<rparr> | Some r \<Rightarrow> r);
          (r, m, fs) = CreateTopic (ctName req) (int (unat (ctPartitionCount req))) retention (bManager b) (bDataDir b);
          b = b\<lparr>bManager := m, bDataDir := fs\<rparr> in
      case r of Inl e \<Rightarrow> (Inl (create_status e), b) | Inr t \<Rightarrow> (Inr (convertToProtoMetadata t), b))"

definition AdminListTopics :: "gostring list \<Rightarrow> Broker \<Rightarrow> TopicMetadata list" where
  "AdminListTopics order b = map convertToProtoMetadata (ListTopics order (bManager b))"

definition DescribeTopic :: "gostring \<Rightarrow> Broker \<Rightarrow> rpc_error + TopicMetadata" where
  "DescribeTopic name b =
     (if name = [] then Inl (StatusErr InvalidArgument)
      else
      case GetTopic name (bManager b) of
        Inl e \<Rightarrow> if e = ErrTopicNotFound then Inl (StatusErr NotFound) else Inl (StatusErr Internal)
      | Inr t \<Rightarrow> Inr (convertToProtoMetadata t))"

end
