(* ===== verification/Log_Service.thy ===== *)
theory Log_Service
  imports Topic_Contract
begin

text \<open>
  A partition log over the life of the broker: the records that it serves, and the records that a new
  process finds in its directory when it is out of service. Every operation of the log is a step between
  such states, with an error that names its cause.
\<close>

section \<open>Sizes\<close>

lemma append_index_size: "append_index s relative pos g d = (g', d') \<Longrightarrow> segSize g' = segSize g"
  by (auto simp: append_index_def AppendIndexEntry_def Let_def split: if_splits prod.splits option.splits)

lemma Flush_size: "Flush g d = (r, g', d') \<Longrightarrow> segSize g' = segSize g"
  using Flush_facts(2) [of g d r g' d'] by auto

lemma append_active_size:
  assumes "append_active ts count enc base s d = (Inr x, s', d')" "activeSegment s < length (segments s)"
  shows "segSize (active_seg s') = segSize (active_seg s) + length enc"
proof -
  let ?relative = "base - baseOffset (active_seg s)"
  obtain r1 g1 d1 where sa: "SegAppend (active_seg s) enc d = (r1, g1, d1)" by (metis surj_pair)
  have rel: "\<not> unat ?relative > 2 ^ 32 - 1" using assms(1) by (auto simp: append_active_def)
  obtain pos where r1: "r1 = Inr pos" using assms(1) rel by (cases r1) (auto simp: append_active_def sa)
  have g1: "segSize g1 = segSize (active_seg s) + length enc"
    using sa r1 by (auto simp: SegAppend_def Let_def split: if_splits prod.splits option.splits)
  define s1 where "s1 = s\<lparr>logEndOffset := base + of_nat count - 1 + 1\<rparr>"
  define g2 where "g2 = (if sint ts > sint (maxTimestamp g1) then g1\<lparr>maxTimestamp := ts\<rparr> else g1)\<lparr>nextOffset := logEndOffset s1\<rparr>"
  obtain g3 d3 where ai: "append_index s1 ?relative pos g2 d1 = (g3, d3)" by fastforce
  have fin: "finish_append base (base + of_nat count - 1) (set_active g3 s1) d3 = (Inr x, s', d')"
    using assms(1) rel ai by (simp add: append_active_def sa r1 Let_def s1_def g2_def)
  have g3: "segSize g3 = segSize (active_seg s) + length enc" using append_index_size [OF ai] g1 by (simp add: g2_def)
  have act: "active_seg (set_active g s1) = g" "active_seg (set_active g (set_active g' s1)) = g" for g g'
    using assms(2) by (simp_all add: active_seg_def set_active_def s1_def)
  obtain r4 g4 d4 where fl: "Flush g3 d3 = (r4, g4, d4)" by (metis surj_pair)
  have obs: "active_seg (updateGaugesLocked u) = active_seg u" "active_seg (observe ev u) = active_seg u" for u ev
    by (simp_all add: updateGaugesLocked_def observe_def active_seg_def)
  have "active_seg s' = g3 \<or> active_seg s' = g4"
    using fin by (auto simp: finish_append_def act fl obs split: if_splits option.splits)
  then show ?thesis using g3 Flush_size [OF fl] by auto
qed

section \<open>Errors of an append\<close>

definition write_errors :: "err set" where
  "write_errors = {EIO, ENOENT, EClosed, ErrShortWrite, ErrIndexOffsetOverflow}"

lemma sys_error:
  "sys_open_create p d = (Inl e, d') \<Longrightarrow> e = EIO" "sys_stat p d = (Inl e, d') \<Longrightarrow> e = EIO \<or> e = ENOENT"
  "sys_fsync p d = (Inl e, d') \<Longrightarrow> e = EIO" "sys_pwrite p pos bs d = ((n, Some e), d') \<Longrightarrow> e = EIO"
  by (auto simp: sys_open_create_def sys_stat_def sys_fsync_def sys_pwrite_def Let_def split: if_splits prod.splits option.splits)

lemma Flush_error: "Flush g d = (Some e, g', d') \<Longrightarrow> e \<in> write_errors"
  by (auto simp: Flush_def FlushIndex_def write_errors_def dest: sys_error split: if_splits prod.splits sum.splits)

lemma NewSegment_error:
  assumes "NewSegment base act d = (Inl e, d')"
  shows "e \<in> write_errors"
proof -
  obtain r1 d1 where e1: "sys_open_create (log_name base) d = (r1, d1)" by fastforce
  obtain r2 d2 where e2: "sys_stat (log_name base) d1 = (r2, d2)" by fastforce
  obtain r3 d3 where e3: "sys_open_create (index_name base) d2 = (r3, d3)" by fastforce
  obtain r4 d4 where e4: "sys_stat (index_name base) d3 = (r4, d4)" by fastforce
  have "r1 = Inl e \<or> r2 = Inl e \<or> r3 = Inl e \<or> r4 = Inl e"
    using assms by (auto simp: NewSegment_def Let_def e1 e2 e3 e4 split: sum.splits)
  then show ?thesis using e1 e2 e3 e4 sys_error(1,2) unfolding write_errors_def by blast
qed

lemma SegAppend_error: "SegAppend g enc d = (Inl e, g', d') \<Longrightarrow> e \<in> write_errors"
  by (auto simp: SegAppend_def write_errors_def Let_def dest: sys_error split: if_splits prod.splits option.splits)

lemma roll_segment_error: "roll_segment n s d = (Some e, s', d') \<Longrightarrow> e \<in> write_errors"
  by (auto simp: roll_segment_def Let_def dest: Flush_error NewSegment_error split: if_splits prod.splits option.splits sum.splits)

lemma append_active_error:
  assumes "append_active ts count enc base s d = (Inl e, s', d')"
  shows "e \<in> write_errors"
proof -
  have "finish_append base lst s1 d1 = (Inl e, s2, d2) \<Longrightarrow> e \<in> write_errors" for lst s1 d1 s2 d2
    by (auto simp: finish_append_def dest: Flush_error split: if_splits prod.splits option.splits)
  then show ?thesis
    using assms by (auto simp: append_active_def Let_def write_errors_def [symmetric] dest: SegAppend_error
        split: if_splits prod.splits sum.splits) (simp add: write_errors_def)
qed

section \<open>The states of a log\<close>

definition kept :: "batch list list \<Rightarrow> bool" where
  "kept bss \<longleftrightarrow> (\<forall>b \<in> set (concat bss). clean b) \<and> small (2 ^ 36) bss"

text \<open>In service with the records \<open>rs\<close> from the offset \<open>first\<close> on.\<close>

definition log_serves :: "int \<Rightarrow> Log \<Rightarrow> u64 \<Rightarrow> stored_record list \<Rightarrow> bool" where
  "log_serves mb l first rs \<longleftrightarrow> (\<exists>bss. store_repr (logStore l) (logDisk l) bss \<and> kept bss \<and> rs = concat (concat bss)) \<and>
     LogEarliestOffset l = first \<and> maxBatchBytes (logStore l) = mb \<and> segmentMaxBytes (logStore l) \<le> 2 ^ 36"

text \<open>The records that the directory holds, whether the log is in service or not.\<close>

definition log_keeps :: "int \<Rightarrow> Log \<Rightarrow> u64 \<Rightarrow> stored_record list \<Rightarrow> bool" where
  "log_keeps mb l first rs \<longleftrightarrow> (\<exists>segs t fin. disk_log mb (logDisk l) segs t fin \<and> kept (map snd segs) \<and>
     rs = concat (concat (map snd segs)) \<and> fst (hd segs) = first)"

lemma serves_keeps:
  assumes "log_serves mb l first rs"
  shows "log_keeps mb l first rs"
proof -
  obtain bss where bss: "store_repr (logStore l) (logDisk l) bss" "kept bss" "rs = concat (concat bss)"
    "LogEarliestOffset l = first" "maxBatchBytes (logStore l) = mb"
    using assms by (auto simp: log_serves_def)
  note D = store_repr_disk [OF bss(1)]
  show ?thesis unfolding log_keeps_def
    using D(1,2,7) bss(2-5) by (intro exI [of _ "disk_segs (logStore l) bss"] exI) (auto simp: LogEarliestOffset_def EarliestOffset_def)
qed

lemma serves_healthy: "log_serves mb l first rs \<Longrightarrow> log_healthy l rs"
  by (auto simp: log_serves_def log_healthy_def)

lemma serves_end:
  assumes "log_serves mb l first rs"
  shows "LogLogEndOffset l = first + of_nat (length rs)" "unat (LogLogEndOffset l) = unat first + length rs"
proof -
  obtain bss where bss: "rs = concat (concat bss)" "chain (unat (LogEarliestOffset l)) (concat bss) (unat (LogLogEndOffset l))"
    using serves_healthy [OF assms] by (rule log_healthyE)
  have "LogEarliestOffset l = first" using assms by (simp add: log_serves_def)
  then show eq: "unat (LogLogEndOffset l) = unat first + length rs" using chain_fin [OF bss(2)] bss(1) by simp
  have "unat first + length rs < 2 ^ 64" using eq unsigned_less [of "LogLogEndOffset l", where 'a = nat] by simp
  then show "LogLogEndOffset l = first + of_nat (length rs)" using eq unat_add_u64 [of first "length rs"]
    by (intro unsigned_word_eqI [where 'a = nat]) simp
qed

lemma keeps_opens:
  assumes "log_keeps (mMaxBatchBytes m) l first rs" "mMaxBatchBytes m < 2 ^ 31" "mSegmentMaxBytes m \<le> 2 ^ 36"
  shows "opens m (restarted (logDisk l)) (\<lambda>l'. log_serves (mMaxBatchBytes m) l' first rs \<and> faults (logDisk l') = [])"
proof -
  obtain segs t fin where L: "disk_log (mMaxBatchBytes m) (logDisk l) segs t fin" "kept (map snd segs)"
    "rs = concat (concat (map snd segs))" "fst (hd segs) = first"
    using assms(1) by (auto simp: log_keeps_def)
  have sm: "small (24 * 2 ^ 32) (map snd segs)" using L(2) by (auto simp: kept_def small_def)
  have lim: "mSegmentMaxBytes m < 2 ^ 63" using assms(3) by simp
  have cl: "\<forall>b \<in> set (concat (map snd segs)). clean b" using L(2) by (simp add: kept_def)
  obtain e s d' where op: "open_store (mSegmentMaxBytes m) (mMaxBatchBytes m) (mIndexIntervalBytes m) (mFlushMode m) [] (restarted (logDisk l)) = (e, s, d')"
    by (metis surj_pair)
  note R = reopen_ok [OF L(1) cl sm assms(2) lim op]
  let ?l = "\<lparr>logStore = observe (ObserveRecovery False) s, logDisk = d'\<rparr>"
  have "store_repr (observe (ObserveRecovery False) s) d' (map snd segs)" using R by simp
  then have "log_serves (mMaxBatchBytes m) ?l first rs"
    using R L(2-4) assms(3) by (auto simp: log_serves_def LogEarliestOffset_def EarliestOffset_def config_def observe_def)
  then show ?thesis using R by (simp add: opens_def NewLog_def OpenStore_def op)
qed

section \<open>Operations\<close>

lemma observe_fields [simp]:
  "earliestOffset (observe ev s) = earliestOffset s" "maxBatchBytes (observe ev s) = maxBatchBytes s"
  "segmentMaxBytes (observe ev s) = segmentMaxBytes s"
  by (simp_all add: observe_def)

lemma serves_observed:
  assumes "log_serves mb l first rs" "files d' = files (logDisk l)"
  shows "log_serves mb \<lparr>logStore = observe ev (logStore l), logDisk = d'\<rparr> first rs"
  using assms store_repr_files [OF assms(2)] by (auto simp: log_serves_def LogEarliestOffset_def EarliestOffset_def)

lemma Append_errors:
  assumes "store_repr s d bss" "- (2 ^ 63) < sint ts" "unat (logEndOffset s) + length recs < 2 ^ 64" "recs \<noteq> []"
    and "int (length (batch_bytes (stamp (logEndOffset s) ts recs))) \<le> maxBatchBytes s"
    and "Append ts recs s d = (Inl e, s', d')"
  shows "e \<in> write_errors"
proof -
  have open_: "\<not> closed s" "\<not> writeFailed s" using assms(1) by (auto simp: store_repr_def)
  have enc: "EncodeBatch (stamp (logEndOffset s) ts recs) = Inr (batch_bytes (stamp (logEndOffset s) ts recs))"
    using EncodeBatch_batch_bytes assms(4) by simp
  obtain r1 s1 d1 where roll: "roll_segment (length (batch_bytes (stamp (logEndOffset s) ts recs))) s d = (r1, s1, d1)" by (metis surj_pair)
  obtain r2 s2 d2 where act: "append_active ts (length recs) (batch_bytes (stamp (logEndOffset s) ts recs)) (logEndOffset s) s1 d1 = (r2, s2, d2)"
    by (metis surj_pair)
  have "r1 = Some e \<or> r2 = Inl e"
    using assms(4-6) open_ by (auto simp: Append_def append_locked_def Let_def enc roll act split: option.splits)
  then show ?thesis using roll_segment_error append_active_error roll act by blast
qed

text \<open>The segments after an acknowledged append are within the limits.\<close>

lemma acked_kept:
  assumes repr: "store_repr s d bss" and hyps: "- (2 ^ 63) < sint ts" "unat (logEndOffset s) + length recs < 2 ^ 64"
    and kept: "kept bss" "clean (stamp (logEndOffset s) ts recs)" "segmentMaxBytes s \<le> 2 ^ 36"
    and app: "Append ts recs s d = (Inr x, s1, d1)"
    and bss1: "store_repr s1 d1 bss1" "bss1 \<in> {butlast bss @ [last bss @ [b]], bss @ [[b]]}" "b = stamp (logEndOffset s) ts recs"
  shows "kept bss1"
proof -
  have lim: "maxBatchBytes s < 2 ^ 31" "\<not> closed s" "\<not> writeFailed s" using repr by (auto simp: store_repr_def limits_ok_def)
  have ne: "recs \<noteq> []" using app by (auto simp: Append_def)
  then have enc: "EncodeBatch (stamp (logEndOffset s) ts recs) = Inr (batch_bytes b)" using EncodeBatch_batch_bytes bss1(3) by simp
  obtain r2 s2 d2 where roll: "roll_segment (length (batch_bytes b)) s d = (r2, s2, d2)" by (metis surj_pair)
  obtain r3 s3 d3 where act: "append_active ts (length recs) (batch_bytes b) (logEndOffset s) s2 d2 = (r3, s3, d3)" by (metis surj_pair)
  have A: "r2 = None" "r3 = Inr x" "\<exists>ev. s1 = observe ev s3" "int (length (batch_bytes b)) \<le> maxBatchBytes s"
    using app ne lim(2,3) by (auto simp: Append_def append_locked_def Let_def enc roll act split: if_splits option.splits)
  obtain bss2 where bss2: "store_repr s2 d2 bss2"
    "segSize (active_seg s2) = 0 \<or> int (segSize (active_seg s2)) + int (length (batch_bytes b)) \<le> segmentMaxBytes s"
    using roll_segment_ok(6) [OF repr roll A(1)] by blast
  have "activeSegment s2 < length (segments s2)" using bss2(1) by (auto simp: store_repr_def)
  from append_active_size [OF act [unfolded A(2)] this] have "segSize (active_seg s1) = segSize (active_seg s2) + length (batch_bytes b)"
    using A(3) by (auto simp: active_seg_def observe_def)
  then have "length (log_bytes (last bss1)) \<le> 2 ^ 36"
    using bss2(2) A(4) lim(1) kept(3) seg_reprD(2) [OF store_repr_last(1) [OF bss1(1)]] by auto
  moreover have "bs \<in> set bss \<or> bs = last bss1" if "bs \<in> set bss1" for bs using that bss1(2) by (auto dest: in_set_butlastD)
  ultimately have "small (2 ^ 36) bss1" using kept(1) by (auto simp: kept_def small_def)
  moreover have "set (concat bss1) \<subseteq> insert b (set (concat bss))" using appended_log [OF bss1(2) store_repr_ne [OF repr]] by auto
  ultimately show ?thesis using kept(1,2) bss1(3) by (auto simp: kept_def)
qed

text \<open>
  An append is acknowledged, or rejected, or it fails: then the log is out of service, and its directory
  holds the records with or without the batch.
\<close>

lemma append_serves:
  assumes ser: "log_serves mb l first rs" and room: "log_room ts recs l" and cl: "clean (stamp (LogLogEndOffset l) ts recs)"
    and app: "LogAppend ts recs l = (r, l')" and ne: "recs \<noteq> []"
  obtains (acked) "r = Inr (LogLogEndOffset l, LogLogEndOffset l + of_nat (length recs) - 1)"
      "log_serves mb l' first (rs @ stamp (LogLogEndOffset l) ts recs)" "int (length (batch_bytes (stamp (LogLogEndOffset l) ts recs))) \<le> mb"
  | (rejected) "r = Inl ErrBatchTooLarge" "log_serves mb l' first rs"
      "int (length (batch_bytes (stamp (LogLogEndOffset l) ts recs))) > mb"
  | (failed) e rs' where "r = Inl e" "e \<in> write_errors" "writeFailed (logStore l')" "log_keeps mb l' first rs'"
      "rs' = rs \<or> rs' = rs @ stamp (LogLogEndOffset l) ts recs" "int (length (batch_bytes (stamp (LogLogEndOffset l) ts recs))) \<le> mb"
proof -
  obtain bss where bss: "store_repr (logStore l) (logDisk l) bss" "kept bss" "rs = concat (concat bss)"
    and cfg: "earliestOffset (logStore l) = first" "maxBatchBytes (logStore l) = mb" "segmentMaxBytes (logStore l) \<le> 2 ^ 36"
    using ser by (auto simp: log_serves_def LogEarliestOffset_def EarliestOffset_def)
  let ?s = "logStore l" and ?d = "logDisk l" and ?b = "stamp (LogLogEndOffset l) ts recs"
  have hyps: "- (2 ^ 63) < sint ts" "unat (logEndOffset ?s) + length recs < 2 ^ 64" and ends: "LogLogEndOffset l = logEndOffset ?s"
    using room by (simp_all add: log_room_def LogLogEndOffset_def LogEndOffset_def)
  obtain r0 s' d' where ap: "Append ts recs ?s ?d = (r0, s', d')" by (metis surj_pair)
  have l': "l' = \<lparr>logStore = s', logDisk = d'\<rparr>" "r = r0" using app by (auto simp: LogAppend_def ap)
  show thesis
  proof (rule Append_outcome [OF bss(1) hyps ap], goal_cases)
    case (1 ev)
    then have "log_serves mb l' first rs" using serves_observed [OF ser] by (simp add: l')
    then show ?case using 1(1) ne ends cfg(2) l'(2) by (intro rejected) auto
  next
    case 2
    show ?case
    proof (cases r)
      case (Inr x)
      then obtain bss1 where B: "x = (logEndOffset ?s, logEndOffset ?s + of_nat (length recs) - 1)" "store_repr s' d' bss1"
        "bss1 \<in> {butlast bss @ [last bss @ [?b]], bss @ [[?b]]}" "same_frame ?s s'"
        using 2(3) by (auto simp: l' append_post_def Let_def ends)
      have ack: "Append ts recs ?s ?d = (Inr x, s', d')" using ap l'(2) Inr by simp
      have "kept bss1" using acked_kept [OF bss(1) hyps bss(2) _ cfg(3) ack B(2,3)] cl ends by simp
      moreover have "concat (concat bss1) = rs @ ?b" using appended_log(1) [OF B(3) store_repr_ne [OF bss(1)]] bss(3) by simp
      ultimately have "log_serves mb l' first (rs @ ?b)"
        using B(2,4) cfg by (auto simp: log_serves_def l'(1) LogEarliestOffset_def EarliestOffset_def same_frame_def config_def)
      then show ?thesis using B(1) Inr ends 2(2) cfg(2) by (intro acked) auto
    next
      case (Inl e)
      have err: "e \<in> write_errors" using Append_errors [OF bss(1) hyps 2(1,2)] ap Inl l'(2) by simp
      obtain r1 n s1 d1 where al: "append_locked ts recs ?s ?d = (r1, n, s1, d1)" by (metis surj_pair)
      have "r1 = r" "d1 = d'" using ap 2(1) l'(2) by (auto simp: Append_def al)
      then obtain segs t fin where S: "disk_log mb d' segs t fin" "grown ?s bss ?b False (map snd segs)" "fst (hd segs) = first"
        using append_locked_disk [OF bss(1) 2(1) hyps refl 2(2) al] Inl cfg ends by auto
      have "small (2 ^ 36) (map snd segs)" unfolding small_def
      proof
        fix bs assume "bs \<in> set (map snd segs)"
        then have "bs \<in> set bss \<or> int (length (log_bytes bs)) \<le> max (segmentMaxBytes ?s) (maxBatchBytes ?s)"
          using S(2) by (auto simp: grown_def)
        then show "length (log_bytes bs) \<le> 2 ^ 36" using bss(1,2) cfg(3) by (auto simp: kept_def small_def store_repr_def limits_ok_def)
      qed
      moreover have "set (concat (map snd segs)) \<subseteq> insert ?b (set (concat bss))" using S(2) unfolding grown_def by blast
      ultimately have "kept (map snd segs)" using bss(2) cl unfolding kept_def by blast
      then have kp: "log_keeps mb l' first (concat (concat (map snd segs)))"
        using S(1,3) unfolding log_keeps_def l'(1) by auto
      have "writeFailed (logStore l')" using 2(3) Inl by (simp add: l' append_post_def Let_def)
      then show ?thesis using S(2) bss(3) kp err 2(2) cfg(2) ends by (intro failed [OF Inl]) (auto simp: grown_def)
    qed
  qed
qed

lemma read_serves:
  assumes ser: "log_serves mb l first rs" and pos: "0 < n" and rd: "LogRead off n l = (r, l')"
  shows "log_serves mb l' first rs"
    "off < first \<or> first + of_nat (length rs) < off \<Longrightarrow> r = Inl ErrOffsetOutOfRange"
    "first \<le> off \<Longrightarrow> off \<le> first + of_nat (length rs) \<Longrightarrow> r = Inl EIO \<or> r = Inr (window n (drop (unat off - unat first) rs))"
    "first \<le> off \<Longrightarrow> off \<le> first + of_nat (length rs) \<Longrightarrow> faults (logDisk l) = [] \<Longrightarrow>
       r = Inr (window n (drop (unat off - unat first) rs)) \<and> faults (logDisk l') = []"
proof -
  obtain bss where bss: "store_repr (logStore l) (logDisk l) bss" "rs = concat (concat bss)" and fst: "earliestOffset (logStore l) = first"
    using ser by (auto simp: log_serves_def LogEarliestOffset_def EarliestOffset_def)
  have fin: "logEndOffset (logStore l) = first + of_nat (length rs)"
    using serves_end(1) [OF ser] by (simp add: LogLogEndOffset_def LogEndOffset_def)
  obtain r0 s' d' where R: "Read off n (logStore l) (logDisk l) = (r0, s', d')" by (metis surj_pair)
  have l': "l' = \<lparr>logStore = s', logDisk = d'\<rparr>" "r = r0" using rd by (auto simp: LogRead_def R split: sum.splits)
  consider (out) "off < first \<or> first + of_nat (length rs) < off" | (ok) "first \<le> off" "off \<le> first + of_nat (length rs)"
    by (meson not_le)
  then have "log_serves mb l' first rs \<and>
    (off < first \<or> first + of_nat (length rs) < off \<longrightarrow> r = Inl ErrOffsetOutOfRange) \<and>
    (first \<le> off \<and> off \<le> first + of_nat (length rs) \<longrightarrow> (r = Inl EIO \<or> r = Inr (window n (drop (unat off - unat first) rs))) \<and>
       (faults (logDisk l) = [] \<longrightarrow> r = Inr (window n (drop (unat off - unat first) rs)) \<and> faults (logDisk l') = []))"
  proof cases
    case out
    then obtain ev where "r0 = Inl ErrOffsetOutOfRange" "s' = observe ev (logStore l)" "d' = logDisk l"
      using Read_range [OF bss(1) pos, of off] fst fin R by auto
    then show ?thesis using serves_observed [OF ser] out l' by auto
  next
    case ok
    have rng: "earliestOffset (logStore l) \<le> off" "off \<le> logEndOffset (logStore l)" using ok fst fin by simp_all
    note K = Read_ok [OF bss(1) pos rng R]
    have w: "read_spec off n (concat (concat bss)) = window n (drop (unat off - unat first) rs)"
      using store_repr_filter [OF bss(1), of off] bss(2) fst rng by (simp add: read_spec_def)
    have "log_serves mb l' first rs" using serves_observed [OF ser K(1)] K(3) l'(1) by auto
    then show ?thesis using K(2,4) w ok l' by (cases r0) auto
  qed
  then show "log_serves mb l' first rs"
    "off < first \<or> first + of_nat (length rs) < off \<Longrightarrow> r = Inl ErrOffsetOutOfRange"
    "first \<le> off \<Longrightarrow> off \<le> first + of_nat (length rs) \<Longrightarrow> r = Inl EIO \<or> r = Inr (window n (drop (unat off - unat first) rs))"
    "first \<le> off \<Longrightarrow> off \<le> first + of_nat (length rs) \<Longrightarrow> faults (logDisk l) = [] \<Longrightarrow>
       r = Inr (window n (drop (unat off - unat first) rs)) \<and> faults (logDisk l') = []"
    by blast+
qed

lemma retain_serves:
  assumes ser: "log_serves mb l first rs" and ret: "LogApplyRetention now maxAge mx l = (r, l')"
  shows "\<exists>k \<le> length rs. log_serves mb l' (first + of_nat k) (drop k rs)"
proof -
  obtain bss where bss: "store_repr (logStore l) (logDisk l) bss" "kept bss" "rs = concat (concat bss)"
    and cfg: "maxBatchBytes (logStore l) = mb" "segmentMaxBytes (logStore l) \<le> 2 ^ 36"
    using ser by (auto simp: log_serves_def)
  obtain r0 s' d' where ar: "ApplyRetention now maxAge mx (logStore l) (logDisk l) = (r0, s', d')" by (metis surj_pair)
  have l': "l' = \<lparr>logStore = s', logDisk = d'\<rparr>" using ret by (auto simp: LogApplyRetention_def ar)
  obtain j where T: "trimmed j (logStore l) (logDisk l) bss s' d'" using ApplyRetention_ok [OF bss(1) ar] by blast
  then have repr: "store_repr s' d' (drop j bss)" and cfg': "config s' = config (logStore l)" "logEndOffset s' = logEndOffset (logStore l)"
    by (auto simp: trimmed_def)
  let ?k = "length (concat (concat (take j bss)))"
  have dr: "concat (concat (drop j bss)) = drop ?k rs" "?k \<le> length rs"
    unfolding bss(3) by (metis append_eq_conv_conj append_take_drop_id concat_append)
      (metis append_take_drop_id concat_append length_append le_add1)
  have "kept (drop j bss)" using bss(2) by (auto simp: kept_def small_def dest: in_set_dropD)
  then have ser': "log_serves mb l' (LogEarliestOffset l') (drop ?k rs)"
    using repr cfg cfg' dr(1) by (auto simp: log_serves_def l' config_def)
  have "unat (LogEarliestOffset l') + (length rs - ?k) = unat first + length rs"
    using serves_end(2) [OF ser'] serves_end(2) [OF ser] cfg'(2) by (simp add: l' LogLogEndOffset_def LogEndOffset_def)
  then have u: "unat (LogEarliestOffset l') = unat first + ?k" using dr(2) by simp
  then have "unat first + ?k < 2 ^ 64" using unsigned_less [of "LogEarliestOffset l'", where 'a = nat] by simp
  then have "LogEarliestOffset l' = first + of_nat ?k"
    using u unat_add_u64 [of first ?k] by (intro unsigned_word_eqI [where 'a = nat]) simp
  then show ?thesis using ser' dr(2) by auto
qed

lemma new_error:
  assumes "files d = []" "NewLog sm mb iv mode d = (Inl e, d')"
  shows "e \<in> write_errors"
proof -
  obtain r1 d2 where e1: "sys_mkdir d = (r1, d2)" by fastforce
  obtain r2 d3 where e2: "sys_readdir d2 = (r2, d3)" by fastforce
  obtain r3 d4 where e3: "NewSegment 0 True d3 = (r3, d4)" by fastforce
  have r: "r1 = Inl EIO \<or> r1 = Inr ()" "r2 = Inl EIO \<or> r2 = Inr []"
    using sys_mkdir_facts(1) [OF e1] sys_readdir_facts(1) [OF e2] e1 e2 assms(1)
    by (auto simp: sys_mkdir_def sys_readdir_def split: prod.splits if_splits)
  have "e = EIO \<or> r3 = Inl e"
    using assms(2) r by (auto simp: NewLog_def OpenStore_def open_store_def e1 e2 e3 remove_tmps_def List.map_filter_def Let_def split: sum.splits)
  then show ?thesis using NewSegment_error [of 0 True d3 e d4] e3 by (auto simp: write_errors_def)
qed

lemma new_serves:
  assumes "files d = []" "mb < 2 ^ 31" "sm \<le> 2 ^ 36" "NewLog sm mb iv mode d = (Inr l, d')"
  shows "log_serves mb l 0 []"
proof -
  obtain e s d1 where op: "OpenStore sm mb iv mode [] d = (e, s, d1)" by (metis surj_pair)
  have l: "e = None" "l = \<lparr>logStore = s, logDisk = d1\<rparr>" using assms(4) by (auto simp: NewLog_def op split: option.splits)
  then have R: "store_repr s d1 [[]]" "earliestOffset s = 0" using OpenStore_empty [of d mb sm iv mode "[]"] assms(1-3) op by auto
  obtain r1 d2 where e1: "sys_mkdir d = (r1, d2)" by fastforce
  obtain r2 d3 where e2: "sys_readdir d2 = (r2, d3)" by fastforce
  obtain r3 d4 where e3: "NewSegment 0 True d3 = (r3, d4)" by fastforce
  have "r2 = Inl EIO \<or> r2 = Inr []"
    using sys_mkdir_facts(1) [OF e1] sys_readdir_facts(1) [OF e2] e2 assms(1) by (auto simp: sys_readdir_def split: prod.splits if_splits)
  then have "config s = (sm, mb, iv, to_lower mode)"
    using op l(1) by (auto simp: OpenStore_def open_store_def e1 e2 e3 remove_tmps_def List.map_filter_def config_def observe_def updateGaugesLocked_def
        Let_def split: sum.splits)
  then show ?thesis
    using R assms(3) by (auto simp: l(2) log_serves_def LogEarliestOffset_def EarliestOffset_def config_def kept_def small_def log_bytes_def intro!: exI [of _ "[[]]"])
qed

end
