(* ===== verification/Broker_Spec.thy ===== *)
theory Broker_Spec
  imports Grpc_Handlers Log_Service
begin

text \<open>
  What the broker promises its clients, without files, segments or caches: topics of partitions that are
  sequences of records, and a map of committed offsets. A partition, or the offsets, may be out of service
  after a failure of the disk until the broker is started again.
\<close>

section \<open>The abstract state\<close>

record spec_part =
  spServing :: bool
  spFirst :: u64
  spRecords :: "stored_record list"

record spec =
  sTopics :: "gostring \<rightharpoonup> RetentionPolicy \<times> spec_part list"
  sOffServing :: bool
  sOffsets :: "Key \<rightharpoonup> u64"

definition spEnd :: "spec_part \<Rightarrow> u64" where
  "spEnd p = spFirst p + of_nat (length (spRecords p))"

definition spec_part_at :: "gostring \<Rightarrow> u32 \<Rightarrow> spec \<Rightarrow> spec_part option" where
  "spec_part_at topic pid S =
     (case sTopics S topic of
        None \<Rightarrow> None
      | Some (ret, ps) \<Rightarrow> if unat pid < length ps then Some (ps ! unat pid) else None)"

definition spec_set_part :: "gostring \<Rightarrow> u32 \<Rightarrow> spec_part \<Rightarrow> spec \<Rightarrow> spec" where
  "spec_set_part topic pid p S =
     (case sTopics S topic of
        None \<Rightarrow> S
      | Some (ret, ps) \<Rightarrow> S\<lparr>sTopics := (sTopics S)(topic \<mapsto> (ret, ps[unat pid := p]))\<rparr>)"

section \<open>Requests\<close>

datatype request =
    Producing ProduceRequest
  | Fetching FetchRequest
  | Committing "CommitOffsetRequest option"
  | Committed "FetchCommittedOffsetRequest option"
  | Creating CreateTopicRequest

datatype response =
    RespProduce ProduceResponse
  | RespFetch FetchResponse
  | RespCommit
  | RespCommitted FetchCommittedOffsetResponse
  | RespTopic TopicMetadata

definition fail :: "code \<Rightarrow> rpc_error + response" where
  "fail c = Inl (StatusErr c)"

text \<open>
  \<open>mx\<close> and \<open>mb\<close> are the limits of a record and of an encoded batch. A failed append may or may not have
  reached the disk, and nobody can tell before the next start.
\<close>

definition spec_produce :: "int \<Rightarrow> int \<Rightarrow> i64 \<Rightarrow> ProduceRequest \<Rightarrow> spec \<Rightarrow> rpc_error + response \<Rightarrow> spec \<Rightarrow> bool" where
  "spec_produce mx mb ts q S r S' \<longleftrightarrow>
     (if prRecords q = [] then r = fail InvalidArgument \<and> S' = S
      else case spec_part_at (prTopic q) (prPartition q) S of
        None \<Rightarrow> r = fail NotFound \<and> S' = S
      | Some p \<Rightarrow>
          let batch = stamp (spEnd p) ts (map to_record (prRecords q));
              put = (\<lambda>p. spec_set_part (prTopic q) (prPartition q) p S) in
          if \<exists>x \<in> set (prRecords q). recordPayloadSize x > mx then r = fail ResourceExhausted \<and> S' = S
          else if \<not> spServing p then r = fail Internal \<and> S' = S
          else if int (length (batch_bytes batch)) > mb then r = fail ResourceExhausted \<and> S' = S
          else
            r = Inr (RespProduce \<lparr>prBaseOffset = spEnd p, prLastOffset = spEnd p + of_nat (length (prRecords q)) - 1,
                prRecordCount = of_nat (length (prRecords q))\<rparr>) \<and> S' = put (p\<lparr>spRecords := spRecords p @ batch\<rparr>)
          \<or> r = fail Internal \<and> (S' = put (p\<lparr>spServing := False\<rparr>) \<or>
              S' = put (p\<lparr>spServing := False, spRecords := spRecords p @ batch\<rparr>)))"

definition spec_fetch :: "FetchRequest \<Rightarrow> spec \<Rightarrow> rpc_error + response \<Rightarrow> bool" where
  "spec_fetch q S r \<longleftrightarrow>
     (if frMaxBytes q = 0 then r = fail InvalidArgument
      else case spec_part_at (frTopic q) (frPartition q) S of
        None \<Rightarrow> r = fail NotFound
      | Some p \<Rightarrow>
          if \<not> spServing p then r = fail Internal
          else if frOffset q < spFirst p \<or> frOffset q > spEnd p then r = fail OutOfRange
          else
            r = fail Internal \<or>
            r = Inr (RespFetch \<lparr>frRecords = map to_proto (window (int (unat (frMaxBytes q)))
                  (drop (unat (frOffset q) - unat (spFirst p)) (spRecords p))),
                frEarliestOffset = spFirst p, frLogEndOffset = spEnd p\<rparr>))"

definition spec_commit :: "CommitOffsetRequest option \<Rightarrow> spec \<Rightarrow> rpc_error + response \<Rightarrow> spec \<Rightarrow> bool" where
  "spec_commit q S r S' \<longleftrightarrow>
     (case q of
        None \<Rightarrow> r = fail InvalidArgument \<and> S' = S
      | Some q \<Rightarrow>
          if coConsumerGroup q = [] then r = fail InvalidArgument \<and> S' = S
          else case spec_part_at (coTopic q) (coPartition q) S of
            None \<Rightarrow> r = fail NotFound \<and> S' = S
          | Some p \<Rightarrow>
              let offs = (sOffsets S)(\<lparr>kGroup = coConsumerGroup q, kTopic = coTopic q, kPartition = coPartition q\<rparr> \<mapsto> coNextOffset q) in
              if spServing p \<and> (coNextOffset q < spFirst p \<or> coNextOffset q > spEnd p) then r = fail OutOfRange \<and> S' = S
              else if \<not> spServing p \<and> r = fail OutOfRange then S' = S
              else if \<not> valid_name MaxConsumerGroupBytes (coConsumerGroup q) \<or> \<not> valid_name MaxTopicNameBytes (coTopic q)
              then r = fail InvalidArgument \<and> S' = S
              else if \<not> sOffServing S then r = fail Unavailable \<and> S' = S
              else r = Inr RespCommit \<and> S' = S\<lparr>sOffsets := offs\<rparr>
                \<or> r = fail Internal \<and> (S' = S\<lparr>sOffServing := False\<rparr> \<or> S' = S\<lparr>sOffServing := False, sOffsets := offs\<rparr>))"

definition spec_committed :: "FetchCommittedOffsetRequest option \<Rightarrow> spec \<Rightarrow> rpc_error + response \<Rightarrow> bool" where
  "spec_committed q S r \<longleftrightarrow>
     (case q of
        None \<Rightarrow> r = fail InvalidArgument
      | Some q \<Rightarrow>
          if fcConsumerGroup q = [] then r = fail InvalidArgument
          else case spec_part_at (fcTopic q) (fcPartition q) S of
            None \<Rightarrow> r = fail NotFound
          | Some p \<Rightarrow>
              if \<not> sOffServing S then r = fail Unavailable
              else r = Inr (RespCommitted
                (case sOffsets S \<lparr>kGroup = fcConsumerGroup q, kTopic = fcTopic q, kPartition = fcPartition q\<rparr> of
                   None \<Rightarrow> \<lparr>fcFound = False, fcNextOffset = 0\<rparr> | Some n \<Rightarrow> \<lparr>fcFound = True, fcNextOffset = n\<rparr>)))"

text \<open>A new topic has empty partitions from offset 0 on; limits of 0 become the defaults.\<close>

definition new_part :: spec_part where
  "new_part = \<lparr>spServing = True, spFirst = 0, spRecords = []\<rparr>"

definition spec_create :: "(RetentionPolicy \<Rightarrow> RetentionPolicy) \<Rightarrow> CreateTopicRequest \<Rightarrow> spec \<Rightarrow> rpc_error + response \<Rightarrow> spec \<Rightarrow> bool" where
  "spec_create defaults q S r S' \<longleftrightarrow>
     (let n = unat (ctPartitionCount q);
          ret = defaults (case ctRetention q of None \<Rightarrow> \<lparr>rpMaxAgeSeconds = 0, rpMaxBytes = 0\<rparr> | Some x \<Rightarrow> x) in
      if \<not> topicNameRegex (ctName q) \<or> n = 0 \<or> n > 1024 then r = fail InvalidArgument \<and> S' = S
      else if sTopics S (ctName q) \<noteq> None then r = fail AlreadyExists \<and> S' = S
      else r = fail Internal \<and> S' = S
        \<or> r = Inr (RespTopic \<lparr>tmName = ctName q, tmPartitionCount = ctPartitionCount q,
              tmPartitions = map (\<lambda>i. \<lparr>pmPartitionId = of_nat i, pmEarliestOffset = 0, pmLogEndOffset = 0\<rparr>) [0..<n], tmRetention = ret\<rparr>) \<and>
          S' = S\<lparr>sTopics := (sTopics S)(ctName q \<mapsto> (ret, replicate n new_part))\<rparr>)"

section \<open>Maintenance and restart\<close>

text \<open>Retention takes records from the front of partitions that are in service.\<close>

definition part_retained :: "spec_part \<Rightarrow> spec_part \<Rightarrow> bool" where
  "part_retained p p' \<longleftrightarrow> p' = p \<or>
     spServing p \<and> (\<exists>k \<le> length (spRecords p). p' = p\<lparr>spFirst := spFirst p + of_nat k, spRecords := drop k (spRecords p)\<rparr>)"

definition spec_retain :: "spec \<Rightarrow> spec \<Rightarrow> bool" where
  "spec_retain S S' \<longleftrightarrow> S' = S\<lparr>sTopics := sTopics S'\<rparr> \<and>
     (\<forall>name. rel_option (rel_prod (=) (list_all2 part_retained)) (sTopics S name) (sTopics S' name))"

text \<open>After a restart everything is in service again.\<close>

definition spec_restart :: "spec \<Rightarrow> spec" where
  "spec_restart S =
     \<lparr>sTopics = (\<lambda>name. map_option (map_prod id (map (\<lambda>p. p\<lparr>spServing := True\<rparr>))) (sTopics S name)),
      sOffServing = True, sOffsets = sOffsets S\<rparr>"

end
