(* ===== verification/Broker_Lifecycle.thy ===== *)
theory Broker_Lifecycle
  imports Grpc_Handlers
begin

text \<open>
  The broker process (\<^verbatim>\<open>internal/broker/broker.go\<close>): how it is put together from the configuration and the
  data directory, its start, its maintenance worker and its shutdown. What the servers of the network
  report is an input.
\<close>

section \<open>Construction\<close>

definition offsetsFile :: gostring where
  "offsetsFile = str ''consumer-offsets.log''"

text \<open>\<^verbatim>\<open>Seconds\<close> of a duration that is a whole number of seconds.\<close>

definition seconds_of :: "i64 \<Rightarrow> u64" where
  "seconds_of d = of_int (sint d div 1000000000)"

text \<open>
  The directories are the ones before the call. When the offsets cannot be opened, the manager is closed
  again.
\<close>

definition New :: "(TopicsMetadata \<Rightarrow> gostring list) \<Rightarrow> Config \<Rightarrow> data_dir \<Rightarrow> disk \<Rightarrow> (err + Broker) \<times> data_dir \<times> disk" where
  "New order cfg fs od =
     (let st = cStorage cfg in
      case NewManager order (scSegmentMaxBytes st) (scMaxBatchBytes st) (scIndexIntervalBytes st) (scFlushMode st) fs of
        (Inl e, fs) \<Rightarrow> (Inl e, fs, od)
      | (Inr m, fs) \<Rightarrow>
          let m = SetRetentionDefaults (seconds_of (rcDefaultMaxAge (cRetention cfg))) (rcDefaultMaxPartitionBytes (cRetention cfg)) m in
          (case OpenOffsetStore offsetsFile od of
             (Inl e, od) \<Rightarrow> (Inl e, snd (ManagerClose m fs), od)
           | (Inr s, od) \<Rightarrow>
               (Inr \<lparr>bManager = m, bDataDir = fs, bOffsets = s, bOffsetsDir = od, bStorageCfg = st, bMetrics = Some []\<rparr>, fs, od)))"

section \<open>Start and shutdown\<close>

record Process =
  pBroker :: Broker
  pStarted :: bool
  pStopped :: bool
  pReady :: bool
  pHTTPBound :: bool
  pGRPCBound :: bool

text \<open>
  The offset store is closed first, then the logs; the errors are joined. \<open>grpcErr\<close> and \<open>httpErr\<close> are what
  the servers return when they are shut down.
\<close>

definition Shutdown :: "err option \<Rightarrow> err option \<Rightarrow> Process \<Rightarrow> err option \<times> Process" where
  "Shutdown grpcErr httpErr p =
     (if pStopped p then (None, p)
      else
      let b = pBroker p;
          (offsetErr, s, od) = CloseOffsets (bOffsets b) (bOffsetsDir b);
          (storageErr, fs) = ManagerClose (bManager b) (bDataDir b);
          b = b\<lparr>bOffsets := s, bOffsetsDir := od, bDataDir := fs\<rparr> in
      (join_err (join_err (join_err grpcErr httpErr) offsetErr) storageErr,
       p\<lparr>pBroker := b, pStopped := True, pReady := False, pHTTPBound := False, pGRPCBound := False\<rparr>))"

text \<open>
  \<open>httpBind\<close> and \<open>grpcBind\<close> are the results of binding the two listeners, \<open>early\<close> the error of a server that
  stops within the first moments, and \<open>maintain\<close> the first run of the retention worker.
\<close>

definition Start :: "err option \<Rightarrow> err option \<Rightarrow> err option \<Rightarrow> (Broker \<Rightarrow> Broker) \<Rightarrow> Process \<Rightarrow> err option \<times> Process" where
  "Start httpBind grpcBind early maintain p =
     (if pStarted p then (None, p)
      else
      let p = p\<lparr>pStarted := True\<rparr> in
      case httpBind of
        Some e \<Rightarrow> (Some e, p\<lparr>pStarted := False\<rparr>)
      | None \<Rightarrow>
          let p = p\<lparr>pHTTPBound := True\<rparr> in
          (case grpcBind of
             Some e \<Rightarrow> (Some e, p\<lparr>pHTTPBound := False, pStarted := False\<rparr>)
           | None \<Rightarrow>
               let p = p\<lparr>pGRPCBound := True, pBroker := maintain (pBroker p)\<rparr> in
               (case early of
                  Some e \<Rightarrow> (Some e, snd (Shutdown None None (p\<lparr>pReady := False\<rparr>)))
                | None \<Rightarrow> (None, p\<lparr>pReady := True\<rparr>))))"

text \<open>A server that stops while the broker runs takes the broker down.\<close>

definition monitorServe :: "Process \<Rightarrow> Process" where
  "monitorServe p = (if pStopped p then p else snd (Shutdown None None (p\<lparr>pReady := False\<rparr>)))"

text \<open>One run of the retention worker.\<close>

definition retention_run :: "(gostring \<Rightarrow> nat \<Rightarrow> int) \<Rightarrow> nat option \<Rightarrow> gostring list \<Rightarrow> Broker \<Rightarrow> Broker" where
  "retention_run now stop order b = b\<lparr>bManager := ManagerApplyRetention now stop order (bManager b)\<rparr>"

end
