(* ===== verification/Broker_Refinement.thy ===== *)
theory Broker_Refinement
  imports Broker_Spec Broker_Lifecycle
begin

text \<open>
  The handlers implement the abstract broker: a relation between the two states, and for every request,
  every run of the retention worker and every restart a step of the abstract one.
\<close>

section \<open>Committed offsets\<close>

definition offs_repr :: "offset_store \<Rightarrow> disk \<Rightarrow> bool \<Rightarrow> (Key \<rightharpoonup> u64) \<Rightarrow> bool" where
  "offs_repr s d serving m \<longleftrightarrow> \<not> oClosed s \<and> oWriteFailed s = (\<not> serving) \<and>
     (if serving then \<exists>cs. offsets_repr s d cs \<and> m = committed cs
      else \<exists>cs t. content d (filePath s) = commits_bytes cs @ t \<and> (\<forall>c \<in> set cs. commit_ok c) \<and>
        (t = [] \<or> torn_commit t) \<and> m = committed cs)"

lemma Commit_error:
  assumes "Commit ts grp topic part n s d = (Some e, s', d')" "valid_name MaxConsumerGroupBytes grp" "valid_name MaxTopicNameBytes topic"
    "\<not> oClosed s" "\<not> oWriteFailed s"
  shows "e = EIO \<or> e = ErrShortWrite"
  using assms by (auto simp: Commit_def Let_def dest: sys_error(3,4) split: prod.splits option.splits if_splits sum.splits)

lemma commit_step:
  assumes rep: "offs_repr s d serving m" and com: "Commit ts grp topic part n s d = (r, s', d')"
    and key: "k = \<lparr>kGroup = grp, kTopic = topic, kPartition = part\<rparr>"
  obtains (invalid) "\<not> valid_name MaxConsumerGroupBytes grp \<or> \<not> valid_name MaxTopicNameBytes topic" "r = Some ErrInvalidArgument" "s' = s" "d' = d"
  | (down) "valid_name MaxConsumerGroupBytes grp" "valid_name MaxTopicNameBytes topic" "\<not> serving" "r = Some ErrOffsetStoreUnavailable" "s' = s" "d' = d"
  | (acked) "valid_name MaxConsumerGroupBytes grp" "valid_name MaxTopicNameBytes topic" serving "r = None" "offs_repr s' d' True (m(k \<mapsto> n))" "filePath s' = filePath s"
  | (failed) e m' where "valid_name MaxConsumerGroupBytes grp" "valid_name MaxTopicNameBytes topic" serving "r = Some e" "e = EIO \<or> e = ErrShortWrite"
      "offs_repr s' d' False m'" "m' = m \<or> m' = m(k \<mapsto> n)" "filePath s' = filePath s"
proof -
  have st: "\<not> oClosed s" "oWriteFailed s = (\<not> serving)" using rep by (auto simp: offs_repr_def)
  show thesis
  proof (cases "valid_name MaxConsumerGroupBytes grp \<and> valid_name MaxTopicNameBytes topic \<and> serving")
    case False
    then show thesis using com st by (cases serving) (auto simp: Commit_def intro: invalid down split: if_splits)
  next
    case True
    let ?c = "(commit_key grp topic part, n, ts)"
    have ck: "commit_key grp topic part = k" using key by (simp add: commit_key_def)
    obtain cs where cs: "offsets_repr s d cs" "m = committed cs" using rep True by (auto simp: offs_repr_def)
    have oks: "\<forall>c \<in> set cs. commit_ok c" using cs(1) by (simp add: offsets_repr_def)
    show thesis
    proof (rule Commit_cases [OF cs(1) com], goal_cases)
      case (1 e)
      then show ?case using True st by (auto simp: commit_key_def)
    next
      case (2 e j)
      have c: "content d' (filePath s') = commits_bytes cs @ take j (commit_bytes ?c)" using 2(2,8) by (simp add: content_def)
      have "\<exists>cs' t. content d' (filePath s') = commits_bytes cs' @ t \<and> (\<forall>c \<in> set cs'. commit_ok c) \<and> (t = [] \<or> torn_commit t) \<and>
          (committed cs' = m \<or> committed cs' = m(k \<mapsto> n))"
      proof (cases "take j (commit_bytes ?c) = commit_bytes ?c")
        case w: True
        then show ?thesis using c oks 2(3) cs(2) ck by (intro exI [of _ "cs @ [?c]"] exI [of _ "[]"]) auto
      next
        case False
        then have "take j (commit_bytes ?c) = [] \<or> torn_commit (take j (commit_bytes ?c))" using commit_prefix [OF 2(3), of j] by blast
        then show ?thesis using c oks cs(2) by blast
      qed
      then obtain cs' t where "content d' (filePath s') = commits_bytes cs' @ t" "\<forall>c \<in> set cs'. commit_ok c" "t = [] \<or> torn_commit t"
        "committed cs' = m \<or> committed cs' = m(k \<mapsto> n)" by blast
      moreover from this have "offs_repr s' d' False (committed cs')" using 2(2) st by (auto simp: offs_repr_def)
      moreover have "e = EIO \<or> e = ErrShortWrite" using Commit_error [of ts grp topic part n s d e s' d'] com 2(1,6,7) True by blast
      ultimately show ?case using True 2(1,2) by (intro failed) auto
    next
      case 3
      have "offsets_repr s' d' (cs @ [?c])" using Commit_repr [OF cs(1) com] 3(1) by simp
      then have "offs_repr s' d' True (m(k \<mapsto> n))" using 3(2,5,6) cs(2) ck by (auto simp: offs_repr_def)
      then show ?case using True 3(1,2) by (intro acked) auto
    qed
  qed
qed

lemma offsets_open:
  assumes "offs_repr s d serving m"
  shows "\<exists>s' d'. OpenOffsetStore (filePath s) (restarted d) = (Inr s', d') \<and> offs_repr s' d' True m \<and> filePath s' = filePath s \<and> faults d' = []"
proof -
  obtain cs t where "content (restarted d) (filePath s) = commits_bytes cs @ t" "\<forall>c \<in> set cs. commit_ok c" "t = [] \<or> torn_commit t" "m = committed cs"
    using assms by (auto simp: offs_repr_def offsets_repr_def content_def restarted_def split: if_splits)
  then show ?thesis using reopened_fine [OF open_offsets_ok, of cs d "filePath s" t] by (auto simp: offs_repr_def)
qed

section \<open>The representation\<close>

definition part_repr :: "int \<Rightarrow> Log \<Rightarrow> spec_part \<Rightarrow> bool" where
  "part_repr mb l p \<longleftrightarrow>
     (if spServing p then log_serves mb l (spFirst p) (spRecords p)
      else writeFailed (logStore l) \<and> log_keeps mb l (spFirst p) (spRecords p))"

definition topic_repr :: "int \<Rightarrow> Topic \<Rightarrow> RetentionPolicy \<times> spec_part list \<Rightarrow> bool" where
  "topic_repr mb t x \<longleftrightarrow> tRetention t = fst x \<and> list_all2 (part_repr mb) (tPartitions t) (snd x)"

text \<open>The configuration of the process is in force, and within the limits of the storage.\<close>

definition config_in_force :: "Config \<Rightarrow> Broker \<Rightarrow> bool" where
  "config_in_force cfg b \<longleftrightarrow>
     (let m = bManager b; st = cStorage cfg in
      bStorageCfg b = st \<and> mSegmentMaxBytes m = scSegmentMaxBytes st \<and> mMaxBatchBytes m = scMaxBatchBytes st \<and>
      mIndexIntervalBytes m = scIndexIntervalBytes st \<and> mFlushMode m = scFlushMode st \<and>
      mDefaultMaxAgeSeconds m = seconds_of (rcDefaultMaxAge (cRetention cfg)) \<and>
      mDefaultMaxBytes m = rcDefaultMaxPartitionBytes (cRetention cfg) \<and>
      scMaxBatchBytes st < 2 ^ 31 \<and> scSegmentMaxBytes st \<le> 2 ^ 36)"

definition broker_repr :: "Config \<Rightarrow> Broker \<Rightarrow> spec \<Rightarrow> bool" where
  "broker_repr cfg b S \<longleftrightarrow> config_in_force cfg b \<and> manager_ok (bManager b) (bDataDir b) \<and>
     (\<forall>name. rel_option (topic_repr (scMaxBatchBytes (cStorage cfg))) (map_of (mTopics (bManager b)) name) (sTopics S name)) \<and>
     offs_repr (bOffsets b) (bOffsetsDir b) (sOffServing S) (sOffsets S) \<and> filePath (bOffsets b) = offsetsFile"

lemma broker_repr_metrics [simp]: "broker_repr cfg (b\<lparr>bMetrics := x\<rparr>) S = broker_repr cfg b S"
  by (simp add: broker_repr_def config_in_force_def)

lemma topic_found:
  assumes "broker_repr cfg b S" "map_of (mTopics (bManager b)) name = Some t"
  obtains ret ps where "sTopics S name = Some (ret, ps)" "tRetention t = ret"
    "list_all2 (part_repr (scMaxBatchBytes (cStorage cfg))) (tPartitions t) ps" "length ps = length (tPartitions t)"
    "length (tPartitions t) \<le> 1024" "tName t = name"
proof -
  have "rel_option (topic_repr (scMaxBatchBytes (cStorage cfg))) (Some t) (sTopics S name)"
    using assms by (metis broker_repr_def)
  then obtain x where x: "sTopics S name = Some x" "topic_repr (scMaxBatchBytes (cStorage cfg)) t x" by (auto simp: option_rel_Some1)
  moreover have "disk_topic_ok name (disk_topic t)"
    using assms map_of_SomeD [OF assms(2)] by (auto simp: broker_repr_def manager_ok_def topics_ok_def)
  ultimately show thesis
    by (intro that [of "fst x" "snd x"])
      (auto simp: topic_repr_def disk_topic_ok_def disk_topic_def MaxPartitionsPerTopic_def dest: list_all2_lengthD)
qed

lemma resolve_repr:
  assumes "broker_repr cfg b S"
  shows "case spec_part_at topic pid S of
      None \<Rightarrow> resolve topic pid b = Inl (StatusErr NotFound)
    | Some p \<Rightarrow> \<exists>l. resolve topic pid b = Inr l \<and> GetPartition topic pid (bManager b) = Inr l \<and> part_repr (scMaxBatchBytes (cStorage cfg)) l p"
proof (cases "map_of (mTopics (bManager b)) topic")
  case None
  then have "sTopics S topic = None" using assms by (metis broker_repr_def option.rel_distinct(1) option.exhaust)
  then show ?thesis using None by (simp add: spec_part_at_def resolve_def GetPartition_def)
next
  case (Some t)
  obtain ret ps where T: "sTopics S topic = Some (ret, ps)" "list_all2 (part_repr (scMaxBatchBytes (cStorage cfg))) (tPartitions t) ps"
    "length ps = length (tPartitions t)" "length (tPartitions t) \<le> 1024"
    by (rule topic_found [OF assms Some])
  have len: "length (tPartitions t) < 2 ^ 32" using T(4) by simp
  have "pid \<ge> of_nat (length (tPartitions t)) \<longleftrightarrow> \<not> unat pid < length ps"
    unfolding word_le_nat_alt unat_of_nat_u32 [OF len] T(3) by auto
  then show ?thesis using T(1-3) Some
    by (auto simp: spec_part_at_def resolve_def GetPartition_def Partition_def list_all2_conv_all_nth)
qed

lemma manager_ok_set_partition:
  assumes "manager_ok m fs"
  shows "manager_ok (set_partition name i l m) fs"
proof (cases "map_of (mTopics m) name")
  case None
  then show ?thesis using assms by (simp add: set_partition_def)
next
  case (Some t)
  let ?t = "t\<lparr>tPartitions := (tPartitions t)[i := l]\<rparr>"
  have dt: "disk_topic ?t = disk_topic t" by (simp add: disk_topic_def)
  have "disk_topic_ok name (disk_topic t)" using assms map_of_SomeD [OF Some] by (auto simp: manager_ok_def topics_ok_def)
  then have "topics_ok (m\<lparr>mTopics := AList.update name ?t (mTopics m)\<rparr>)"
    using assms dt by (intro topics_ok_update) (simp_all add: manager_ok_def)
  then show ?thesis using assms Some dt by (auto simp: manager_ok_def set_partition_def update_conv')
qed

lemma set_log_repr:
  assumes "broker_repr cfg b S" "spec_part_at topic pid S = Some p" "part_repr (scMaxBatchBytes (cStorage cfg)) l p'"
  shows "broker_repr cfg (set_log topic pid l b) (spec_set_part topic pid p' S)"
proof -
  let ?mb = "scMaxBatchBytes (cStorage cfg)"
  obtain t where t: "map_of (mTopics (bManager b)) topic = Some t"
    using resolve_repr [OF assms(1), of topic pid] assms(2) by (auto simp: GetPartition_def split: option.splits)
  obtain ret ps where T: "sTopics S topic = Some (ret, ps)" "tRetention t = ret" "list_all2 (part_repr ?mb) (tPartitions t) ps"
    by (rule topic_found [OF assms(1) t])
  let ?t = "t\<lparr>tPartitions := (tPartitions t)[unat pid := l]\<rparr>"
  have m: "set_partition topic (unat pid) l (bManager b) = (bManager b)\<lparr>mTopics := AList.update topic ?t (mTopics (bManager b))\<rparr>"
    using t by (simp add: set_partition_def)
  have "topic_repr ?mb ?t (ret, ps[unat pid := p'])"
    using T(2,3) assms(3) by (simp add: topic_repr_def list_all2_update_cong)
  moreover have "manager_ok (set_partition topic (unat pid) l (bManager b)) (bDataDir b)"
    using assms(1) by (intro manager_ok_set_partition) (simp add: broker_repr_def)
  ultimately show ?thesis
    using assms(1) T(1) by (simp add: broker_repr_def config_in_force_def set_log_def spec_set_part_def m update_conv' Let_def)
qed

section \<open>Requests\<close>

definition map_reply :: "('a \<Rightarrow> response) \<Rightarrow> (rpc_error + 'a) \<times> Broker \<Rightarrow> (rpc_error + response) \<times> Broker" where
  "map_reply f rb = (map_sum id f (fst rb), snd rb)"

fun serve :: "i64 \<Rightarrow> request \<Rightarrow> Broker \<Rightarrow> (rpc_error + response) \<times> Broker" where
  "serve ts (Producing q) b = map_reply RespProduce (Produce quiet ts q b)"
| "serve ts (Fetching q) b = map_reply RespFetch (Fetch quiet q b)"
| "serve ts (Committing q) b = map_reply (\<lambda>_. RespCommit) (CommitOffset quiet ts q b)"
| "serve ts (Committed q) b = map_reply RespCommitted (FetchCommittedOffset quiet q b)"
| "serve ts (Creating q) b = map_reply RespTopic (AdminCreateTopic q b)"

fun spec_step :: "Config \<Rightarrow> i64 \<Rightarrow> request \<Rightarrow> spec \<Rightarrow> rpc_error + response \<Rightarrow> spec \<Rightarrow> bool" where
  "spec_step cfg ts (Producing q) S r S' =
     spec_produce (scMaxRecordBytes (cStorage cfg)) (scMaxBatchBytes (cStorage cfg)) ts q S r S'"
| "spec_step cfg ts (Fetching q) S r S' = (spec_fetch q S r \<and> S' = S)"
| "spec_step cfg ts (Committing q) S r S' = spec_commit q S r S'"
| "spec_step cfg ts (Committed q) S r S' = (spec_committed q S r \<and> S' = S)"
| "spec_step cfg ts (Creating q) S r S' = spec_create
     (\<lambda>ret. \<lparr>rpMaxAgeSeconds = (if rpMaxAgeSeconds ret = 0 then seconds_of (rcDefaultMaxAge (cRetention cfg)) else rpMaxAgeSeconds ret),
        rpMaxBytes = (if rpMaxBytes ret = 0 then rcDefaultMaxPartitionBytes (cRetention cfg) else rpMaxBytes ret)\<rparr>) q S r S'"

lemma inc_simps [simp]: "fst (inc c method rb) = fst rb" "\<exists>x. snd (inc c method rb) = (snd rb)\<lparr>bMetrics := x\<rparr>"
  by (auto simp: inc_def split: prod.splits)

lemma inc_repr [simp]: "broker_repr cfg (snd (inc c method rb)) S = broker_repr cfg (snd rb) S"
  by (metis inc_simps(2) broker_repr_metrics)

lemma map_reply_simps [simp]: "fst (map_reply f rb) = map_sum id f (fst rb)" "snd (map_reply f rb) = snd rb"
  by (simp_all add: map_reply_def)

lemma convert_records_eq:
  "convert_records mx rs = (if \<exists>x \<in> set rs. recordPayloadSize x > mx then Inl (StatusErr ResourceExhausted) else Inr (map to_record rs))"
  by (induction rs) auto

lemma write_errors_status: "e \<in> write_errors \<Longrightarrow> append_status e = StatusErr Internal"
  by (auto simp: write_errors_def append_status_def)

lemma failed_append:
  assumes "writeFailed (logStore l)" "recs \<noteq> []" "LogAppend ts recs l = (r, l')"
  shows "\<exists>e ev. r = Inl e \<and> append_status e = StatusErr Internal \<and> l' = \<lparr>logStore = observe ev (logStore l), logDisk = logDisk l\<rparr>"
  using assms by (auto simp: LogAppend_def Append_def append_locked_def append_status_def split: if_splits)

lemma failed_observed:
  "writeFailed (logStore l) \<Longrightarrow> log_keeps mb l first rs \<Longrightarrow> writeFailed (logStore \<lparr>logStore = observe ev (logStore l), logDisk = logDisk l\<rparr>) \<and>
     log_keeps mb \<lparr>logStore = observe ev (logStore l), logDisk = logDisk l\<rparr> first rs"
  by (simp add: observe_def log_keeps_def)

lemma spec_set_part_same: "spec_part_at topic pid S = Some p \<Longrightarrow> spec_set_part topic pid p S = S"
  by (auto simp: spec_part_at_def spec_set_part_def fun_upd_idem split: option.splits if_splits)

text \<open>A batch that the store can take: there are offsets left, and no part of it looks like the start of another.\<close>

definition batch_fits :: "i64 \<Rightarrow> ProduceRequest \<Rightarrow> Broker \<Rightarrow> bool" where
  "batch_fits ts q b \<longleftrightarrow> (\<forall>l. GetPartition (prTopic q) (prPartition q) (bManager b) = Inr l \<longrightarrow>
     log_room ts (map to_record (prRecords q)) l \<and> clean (stamp (LogLogEndOffset l) ts (map to_record (prRecords q))))"

lemma Produce_result:
  assumes "prRecords q \<noteq> []" "GetPartition (prTopic q) (prPartition q) (bManager b) = Inr l" "LogAppend ts (map to_record (prRecords q)) l = (r, l')"
    and "\<not> (\<exists>x \<in> set (prRecords q). recordPayloadSize x > scMaxRecordBytes (bStorageCfg b))"
  shows "fst (serve ts (Producing q) b) = (case r of Inl e \<Rightarrow> Inl (append_status e)
      | Inr (base, lst) \<Rightarrow> Inr (RespProduce \<lparr>prBaseOffset = base, prLastOffset = lst, prRecordCount = of_nat (length (prRecords q))\<rparr>))"
    "\<exists>x. snd (serve ts (Producing q) b) = (set_log (prTopic q) (prPartition q) l' b)\<lparr>bMetrics := x\<rparr>"
proof -
  have l: "resolve (prTopic q) (prPartition q) b = Inr l" "log_now (prTopic q) (prPartition q) l b = l"
    using assms(2) by (simp_all add: resolve_def log_now_def)
  let ?rb = "case r of Inl e \<Rightarrow> (Inl (append_status e), set_log (prTopic q) (prPartition q) l' b)
      | Inr (base, lst) \<Rightarrow> (Inr \<lparr>prBaseOffset = base, prLastOffset = lst, prRecordCount = of_nat (length (prRecords q))\<rparr>, set_log (prTopic q) (prPartition q) l' b)"
  have "Produce quiet ts q b = inc ProduceRequests (str ''produce'') ?rb"
    using assms(1,3,4) l by (simp add: Produce_def quiet_def convert_records_eq Let_def)
  moreover have "snd ?rb = set_log (prTopic q) (prPartition q) l' b" by (auto split: sum.splits)
  ultimately show "\<exists>x. snd (serve ts (Producing q) b) = (set_log (prTopic q) (prPartition q) l' b)\<lparr>bMetrics := x\<rparr>"
    using inc_simps(2) [of ProduceRequests "str ''produce''" ?rb] by simp
  show "fst (serve ts (Producing q) b) = (case r of Inl e \<Rightarrow> Inl (append_status e)
      | Inr (base, lst) \<Rightarrow> Inr (RespProduce \<lparr>prBaseOffset = base, prLastOffset = lst, prRecordCount = of_nat (length (prRecords q))\<rparr>))"
    using \<open>Produce quiet ts q b = inc ProduceRequests (str ''produce'') ?rb\<close> by (auto split: sum.splits)
qed

lemma Produce_refines:
  assumes rep: "broker_repr cfg b S" and fits: "batch_fits ts q b"
  shows "\<exists>S'. spec_step cfg ts (Producing q) S (fst (serve ts (Producing q) b)) S' \<and> broker_repr cfg (snd (serve ts (Producing q) b)) S'"
proof -
  let ?mb = "scMaxBatchBytes (cStorage cfg)" and ?mx = "scMaxRecordBytes (cStorage cfg)" and ?recs = "map to_record (prRecords q)"
  have cfg: "scMaxRecordBytes (bStorageCfg b) = ?mx" using rep by (simp add: broker_repr_def config_in_force_def Let_def)
  note R = resolve_repr [OF rep, of "prTopic q" "prPartition q"]
  consider (empty) "prRecords q = []" | (missing) "prRecords q \<noteq> []" "spec_part_at (prTopic q) (prPartition q) S = None"
    | (big) p where "prRecords q \<noteq> []" "spec_part_at (prTopic q) (prPartition q) S = Some p" "\<exists>x \<in> set (prRecords q). recordPayloadSize x > ?mx"
    | (go) p where "prRecords q \<noteq> []" "spec_part_at (prTopic q) (prPartition q) S = Some p" "\<not> (\<exists>x \<in> set (prRecords q). recordPayloadSize x > ?mx)"
    by blast
  then show ?thesis
  proof cases
    case empty
    then show ?thesis using rep by (intro exI [of _ S]) (simp add: Produce_def spec_produce_def fail_def)
  next
    case missing
    then show ?thesis using rep R by (intro exI [of _ S]) (simp add: Produce_def spec_produce_def fail_def)
  next
    case big
    then obtain l where "resolve (prTopic q) (prPartition q) b = Inr l" using R by auto
    then show ?thesis using rep big
      by (intro exI [of _ S]) (simp add: Produce_def spec_produce_def fail_def quiet_def convert_records_eq cfg Let_def)
  next
    case go
    obtain l where l: "resolve (prTopic q) (prPartition q) b = Inr l" "GetPartition (prTopic q) (prPartition q) (bManager b) = Inr l" "part_repr ?mb l p"
      using R go(2) by auto
    obtain r l' where app: "LogAppend ts ?recs l = (r, l')" by fastforce
    define b' where "b' = set_log (prTopic q) (prPartition q) l' b"
    note P = Produce_result [OF go(1) l(2) app, unfolded cfg, OF go(3), folded b'_def]
    have out: "fst (serve ts (Producing q) b) = (case r of Inl e \<Rightarrow> Inl (append_status e)
        | Inr (base, lst) \<Rightarrow> Inr (RespProduce \<lparr>prBaseOffset = base, prLastOffset = lst, prRecordCount = of_nat (length (prRecords q))\<rparr>))"
      "broker_repr cfg (snd (serve ts (Producing q) b)) X = broker_repr cfg b' X" for X
      using P by auto
    note put = set_log_repr [OF rep go(2), of l', folded b'_def]
    have ne: "?recs \<noteq> []" using go(1) by simp
    show ?thesis
    proof (cases "spServing p")
      case False
      then have wf: "writeFailed (logStore l)" "log_keeps ?mb l (spFirst p) (spRecords p)" using l(3) by (simp_all add: part_repr_def)
      obtain e ev where e: "r = Inl e" "append_status e = StatusErr Internal" "l' = \<lparr>logStore = observe ev (logStore l), logDisk = logDisk l\<rparr>"
        using failed_append [OF wf(1) ne app] by blast
      have "broker_repr cfg b' S" using put [of p] failed_observed [OF wf] e(3) False spec_set_part_same [OF go(2)] by (simp add: part_repr_def)
      then show ?thesis using go False e(1,2) unfolding out(2)
        by (intro exI [of _ S]) (simp add: spec_produce_def fail_def out(1) del: serve.simps)
    next
      case True
      then have ser: "log_serves ?mb l (spFirst p) (spRecords p)" using l(3) by (simp add: part_repr_def)
      have fin: "LogLogEndOffset l = spEnd p" using serves_end(1) [OF ser] by (simp add: spEnd_def)
      have fit: "log_room ts ?recs l" "clean (stamp (LogLogEndOffset l) ts ?recs)" using fits l(2) by (auto simp: batch_fits_def)
      show ?thesis
      proof (rule append_serves [OF ser fit app ne], goal_cases)
        case 1
        have "broker_repr cfg b' (spec_set_part (prTopic q) (prPartition q) (p\<lparr>spRecords := spRecords p @ stamp (spEnd p) ts ?recs\<rparr>) S)"
          using 1(2) True fin by (intro put) (simp add: part_repr_def)
        moreover have "\<not> int (length (batch_bytes (stamp (spEnd p) ts ?recs))) > ?mb" using 1(3) fin by simp
        ultimately show ?case using go True 1(1) fin unfolding out(2) by (intro exI conjI) (auto simp: spec_produce_def out(1) simp del: serve.simps)
      next
        case 2
        have "broker_repr cfg b' S" using 2(2) True put [of p] spec_set_part_same [OF go(2)] by (simp add: part_repr_def)
        then show ?case using go True 2(1,3) fin unfolding out(2)
          by (intro exI [of _ S]) (simp add: spec_produce_def fail_def out(1) append_status_def del: serve.simps)
      next
        case (3 e rs')
        let ?p = "p\<lparr>spServing := False, spRecords := rs'\<rparr>"
        have "broker_repr cfg b' (spec_set_part (prTopic q) (prPartition q) ?p S)"
          using 3(3,4) by (intro put) (simp add: part_repr_def)
        moreover have "p\<lparr>spServing := False, spRecords := spRecords p\<rparr> = p\<lparr>spServing := False\<rparr>" by (cases p) simp
        moreover have "\<not> int (length (batch_bytes (stamp (spEnd p) ts ?recs))) > ?mb" using 3(6) fin by simp
        ultimately show ?case using go True 3(1,5) write_errors_status [OF 3(2)] fin unfolding out(2)
          by (intro exI conjI) (auto simp: spec_produce_def fail_def out(1) simp del: serve.simps)
      qed
    qed
  qed
qed

lemma GetPartition_set:
  assumes "GetPartition topic pid m = Inr l"
  shows "GetPartition topic pid (set_partition topic (unat pid) l' m) = Inr l'"
proof -
  obtain t where t: "map_of (mTopics m) topic = Some t" "\<not> pid \<ge> of_nat (length (tPartitions t))"
    using assms by (auto simp: GetPartition_def Partition_def split: option.splits if_splits)
  have "unat (of_nat (length (tPartitions t)) :: u32) \<le> length (tPartitions t)" by (simp add: unat_of_nat take_bit_eq_mod)
  then have "unat pid < length (tPartitions t)" using t(2) by (simp add: not_le word_less_nat_alt)
  then show ?thesis using t by (simp add: GetPartition_def Partition_def set_partition_def update_conv')
qed

lemma failed_read:
  assumes "writeFailed (logStore l)" "0 < n" "LogRead off n l = (r, l')"
  shows "\<exists>e ev. r = Inl e \<and> read_status e = StatusErr Internal \<and> l' = \<lparr>logStore = observe ev (logStore l), logDisk = logDisk l\<rparr>"
  using assms by (auto simp: LogRead_def Read_def read_locked_def read_status_def split: if_splits)

lemma Fetch_result:
  assumes "frMaxBytes q \<noteq> 0" "GetPartition (frTopic q) (frPartition q) (bManager b) = Inr l" "LogRead (frOffset q) (int (unat (frMaxBytes q))) l = (r, l')"
  shows "fst (serve ts (Fetching q) b) = (case r of Inl e \<Rightarrow> Inl (read_status e)
      | Inr stored \<Rightarrow> Inr (RespFetch \<lparr>frRecords = map to_proto stored, frEarliestOffset = LogEarliestOffset l', frLogEndOffset = LogLogEndOffset l'\<rparr>))"
    "\<exists>x. snd (serve ts (Fetching q) b) = (set_log (frTopic q) (frPartition q) l' b)\<lparr>bMetrics := x\<rparr>"
proof -
  let ?b = "set_log (frTopic q) (frPartition q) l' b"
  have l: "resolve (frTopic q) (frPartition q) b = Inr l" "log_now (frTopic q) (frPartition q) l b = l" "log_now (frTopic q) (frPartition q) l' ?b = l'"
    using assms(2) GetPartition_set [OF assms(2)] by (simp_all add: resolve_def log_now_def set_log_def)
  let ?rb = "case r of Inl e \<Rightarrow> (Inl (read_status e), ?b)
      | Inr stored \<Rightarrow> (Inr \<lparr>frRecords = map to_proto stored, frEarliestOffset = LogEarliestOffset l', frLogEndOffset = LogLogEndOffset l'\<rparr>, ?b)"
  have F: "Fetch quiet q b = inc FetchRequests (str ''fetch'') ?rb"
    using assms(1,3) l by (simp add: Fetch_def quiet_def Let_def split: sum.splits)
  have "snd ?rb = ?b" by (simp split: sum.splits)
  then show "\<exists>x. snd (serve ts (Fetching q) b) = ?b\<lparr>bMetrics := x\<rparr>"
    using F inc_simps(2) [of FetchRequests "str ''fetch''" ?rb] by simp
  show "fst (serve ts (Fetching q) b) = (case r of Inl e \<Rightarrow> Inl (read_status e)
      | Inr stored \<Rightarrow> Inr (RespFetch \<lparr>frRecords = map to_proto stored, frEarliestOffset = LogEarliestOffset l', frLogEndOffset = LogLogEndOffset l'\<rparr>))"
    using F by (simp split: sum.splits)
qed

lemma Fetch_refines:
  assumes rep: "broker_repr cfg b S"
  shows "spec_step cfg ts (Fetching q) S (fst (serve ts (Fetching q) b)) S \<and> broker_repr cfg (snd (serve ts (Fetching q) b)) S"
proof -
  let ?mb = "scMaxBatchBytes (cStorage cfg)" and ?n = "int (unat (frMaxBytes q))"
  note R = resolve_repr [OF rep, of "frTopic q" "frPartition q"]
  consider (zero) "frMaxBytes q = 0" | (missing) "frMaxBytes q \<noteq> 0" "spec_part_at (frTopic q) (frPartition q) S = None"
    | (go) p where "frMaxBytes q \<noteq> 0" "spec_part_at (frTopic q) (frPartition q) S = Some p"
    by blast
  then show ?thesis
  proof cases
    case zero
    then show ?thesis using rep by (simp add: Fetch_def spec_fetch_def fail_def)
  next
    case missing
    then show ?thesis using rep R by (simp add: Fetch_def spec_fetch_def fail_def)
  next
    case go
    have "unat (frMaxBytes q) \<noteq> 0" using go(1) by (simp add: unat_eq_zero)
    then have pos: "0 < ?n" by (simp only: of_nat_0_less_iff neq0_conv)
    obtain l where l: "resolve (frTopic q) (frPartition q) b = Inr l" "GetPartition (frTopic q) (frPartition q) (bManager b) = Inr l" "part_repr ?mb l p"
      using R go(2) by auto
    obtain r l' where rd: "LogRead (frOffset q) ?n l = (r, l')" by fastforce
    define b' where "b' = set_log (frTopic q) (frPartition q) l' b"
    have out: "fst (serve ts (Fetching q) b) = (case r of Inl e \<Rightarrow> Inl (read_status e)
        | Inr stored \<Rightarrow> Inr (RespFetch \<lparr>frRecords = map to_proto stored, frEarliestOffset = LogEarliestOffset l', frLogEndOffset = LogLogEndOffset l'\<rparr>))"
      "broker_repr cfg (snd (serve ts (Fetching q) b)) S = broker_repr cfg b' S"
      using Fetch_result [OF go(1) l(2) rd, of ts, folded b'_def] by auto
    have put: "part_repr ?mb l' p \<Longrightarrow> broker_repr cfg b' S"
      using set_log_repr [OF rep go(2), of l' p, folded b'_def] spec_set_part_same [OF go(2)] by simp
    show ?thesis
    proof (cases "spServing p")
      case False
      then have wf: "writeFailed (logStore l)" "log_keeps ?mb l (spFirst p) (spRecords p)" using l(3) by (simp_all add: part_repr_def)
      obtain e ev where e: "r = Inl e" "read_status e = StatusErr Internal" "l' = \<lparr>logStore = observe ev (logStore l), logDisk = logDisk l\<rparr>"
        using failed_read [OF wf(1) pos rd] by blast
      have "part_repr ?mb l' p" using failed_observed [OF wf] e(3) False by (simp add: part_repr_def)
      from put [OF this] show ?thesis using go False e(1,2) unfolding out(2) by (simp add: spec_fetch_def fail_def out(1) del: serve.simps)
    next
      case True
      then have ser: "log_serves ?mb l (spFirst p) (spRecords p)" using l(3) by (simp add: part_repr_def)
      note L = read_serves [OF ser pos rd, folded spEnd_def]
      have fin: "LogLogEndOffset l' = spEnd p" "LogEarliestOffset l' = spFirst p"
        using serves_end(1) [OF L(1)] L(1) by (simp_all add: spEnd_def log_serves_def)
      have "part_repr ?mb l' p" using L(1) True by (simp add: part_repr_def)
      note put [OF this]
      moreover have "spec_fetch q S (fst (serve ts (Fetching q) b))"
      proof (cases "frOffset q < spFirst p \<or> frOffset q > spEnd p")
        case out_of: True
        then show ?thesis using L(2) go True by (simp add: spec_fetch_def fail_def out(1) read_status_def del: serve.simps)
      next
        case False
        then have "r = Inl EIO \<or> r = Inr (window ?n (drop (unat (frOffset q) - unat (spFirst p)) (spRecords p)))" using L(3) by (simp add: not_less)
        then show ?thesis using False go True fin by (auto simp: spec_fetch_def fail_def out(1) read_status_def simp del: serve.simps)
      qed
      ultimately show ?thesis unfolding out(2) by simp
    qed
  qed
qed

lemma Commit_refines:
  assumes rep: "broker_repr cfg b S"
  shows "\<exists>S'. spec_step cfg ts (Committing q) S (fst (serve ts (Committing q) b)) S' \<and> broker_repr cfg (snd (serve ts (Committing q) b)) S'"
proof (cases q)
  case None
  then show ?thesis using rep by (intro exI [of _ S]) (simp add: CommitOffset_def spec_commit_def fail_def)
next
  case (Some x)
  let ?mb = "scMaxBatchBytes (cStorage cfg)"
  note R = resolve_repr [OF rep, of "coTopic x" "coPartition x"]
  have offs: "offs_repr (bOffsets b) (bOffsetsDir b) (sOffServing S) (sOffsets S)" using rep by (simp add: broker_repr_def)
  have put: "broker_repr cfg (b\<lparr>bOffsets := s, bOffsetsDir := d\<rparr>) (S\<lparr>sOffServing := v, sOffsets := m\<rparr>)"
    if "offs_repr s d v m" "filePath s = filePath (bOffsets b)" for s d v m
    using rep that by (simp add: broker_repr_def config_in_force_def)
  consider (empty) "coConsumerGroup x = []" | (missing) "coConsumerGroup x \<noteq> []" "spec_part_at (coTopic x) (coPartition x) S = None"
    | (go) p where "coConsumerGroup x \<noteq> []" "spec_part_at (coTopic x) (coPartition x) S = Some p"
    by blast
  then show ?thesis
  proof cases
    case empty
    then show ?thesis using rep Some by (intro exI [of _ S]) (simp add: CommitOffset_def spec_commit_def fail_def)
  next
    case missing
    then show ?thesis using rep R Some by (intro exI [of _ S]) (simp add: CommitOffset_def spec_commit_def fail_def)
  next
    case go
    obtain l where l: "resolve (coTopic x) (coPartition x) b = Inr l" "GetPartition (coTopic x) (coPartition x) (bManager b) = Inr l" "part_repr ?mb l p"
      using R go(2) by auto
    have now: "log_now (coTopic x) (coPartition x) l b = l" using l(2) by (simp add: log_now_def)
    have bnd: "spServing p \<Longrightarrow> LogEarliestOffset l = spFirst p \<and> LogLogEndOffset l = spEnd p"
      using l(3) serves_end(1) [of ?mb l "spFirst p" "spRecords p"] by (simp add: part_repr_def log_serves_def spEnd_def)
    obtain r s d where com: "Commit ts (coConsumerGroup x) (coTopic x) (coPartition x) (coNextOffset x) (bOffsets b) (bOffsetsDir b) = (r, s, d)"
      by (metis surj_pair)
    let ?out = "coNextOffset x < LogEarliestOffset l \<or> coNextOffset x > LogLogEndOffset l"
    have res: "serve ts (Committing (Some x)) b = map_reply (\<lambda>_. RespCommit) (inc OffsetCommits (str ''commit_offset'')
      (if ?out then (Inl (StatusErr OutOfRange), b)
       else let b = b\<lparr>bOffsets := s, bOffsetsDir := d\<rparr> in case r of None \<Rightarrow> (Inr (), b) | Some e \<Rightarrow> (Inl (commit_status e), b)))"
      using go(1) l(1) now com by (simp add: CommitOffset_def quiet_def Let_def)
    show ?thesis
    proof (cases ?out)
      case True
      then show ?thesis using rep go bnd unfolding Some res
        by (intro exI [of _ S]) (auto simp: spec_commit_def fail_def Let_def)
    next
      case False
      then have nb: "\<not> (spServing p \<and> (coNextOffset x < spFirst p \<or> coNextOffset x > spEnd p))" using bnd by auto
      have out: "fst (serve ts (Committing (Some x)) b) = (case r of None \<Rightarrow> Inr RespCommit | Some e \<Rightarrow> Inl (commit_status e))"
        "broker_repr cfg (snd (serve ts (Committing (Some x)) b)) X = broker_repr cfg (b\<lparr>bOffsets := s, bOffsetsDir := d\<rparr>) X" for X
        unfolding res using False by (auto simp: Let_def split: option.splits)
      have same: "broker_repr cfg (b\<lparr>bOffsets := bOffsets b, bOffsetsDir := bOffsetsDir b\<rparr>) S" using rep by simp
      show ?thesis unfolding Some out(2)
      proof (rule commit_step [OF offs com refl], goal_cases)
        case 1
        then show ?case using same go nb
          by (intro exI [of _ S]) (auto simp: spec_commit_def fail_def out(1) commit_status_def Let_def simp del: serve.simps)
      next
        case 2
        then show ?case using same go nb
          by (intro exI [of _ S]) (auto simp: spec_commit_def fail_def out(1) commit_status_def Let_def simp del: serve.simps)
      next
        case 3
        then show ?case using put [OF 3(5,6)] go nb
          by (intro exI conjI) (auto simp: spec_commit_def fail_def out(1) Let_def simp del: serve.simps)
      next
        case (4 e m')
        have "commit_status e = StatusErr Internal" using 4(5) by (auto simp: commit_status_def)
        then show ?case using put [OF 4(6,8)] 4(1-4,7) go nb
          by (intro exI conjI) (auto simp: spec_commit_def fail_def out(1) Let_def simp del: serve.simps)
      qed
    qed
  qed
qed

lemma Committed_refines:
  assumes rep: "broker_repr cfg b S"
  shows "spec_step cfg ts (Committed q) S (fst (serve ts (Committed q) b)) S \<and> broker_repr cfg (snd (serve ts (Committed q) b)) S"
proof (cases q)
  case None
  then show ?thesis using rep by (simp add: FetchCommittedOffset_def spec_committed_def fail_def)
next
  case (Some x)
  note R = resolve_repr [OF rep, of "fcTopic x" "fcPartition x"]
  have get: "Get (fcConsumerGroup x) (fcTopic x) (fcPartition x) (bOffsets b) =
      (if sOffServing S then Inr (sOffsets S \<lparr>kGroup = fcConsumerGroup x, kTopic = fcTopic x, kPartition = fcPartition x\<rparr>)
       else Inl ErrOffsetStoreUnavailable)"
    using rep by (auto simp: broker_repr_def offs_repr_def offsets_repr_def Get_def)
  show ?thesis
  proof (cases "spec_part_at (fcTopic x) (fcPartition x) S")
    case None
    then show ?thesis using rep R Some by (simp add: FetchCommittedOffset_def spec_committed_def fail_def)
  next
    case (Some p)
    then obtain l where "resolve (fcTopic x) (fcPartition x) b = Inr l" using R by auto
    then show ?thesis using rep Some \<open>q = Some x\<close>
      by (auto simp: FetchCommittedOffset_def spec_committed_def fail_def quiet_def get get_status_def Let_def split: option.splits)
  qed
qed

section \<open>New topics\<close>

lemma open_partitions_new:
  assumes "\<forall>k < n. partDirs fs (pDir name (i + k)) = None" "mMaxBatchBytes m < 2 ^ 31" "mSegmentMaxBytes m \<le> 2 ^ 36"
    and "open_partitions m name i n logs fs = (e, logs', fs')"
  shows "(e = None \<longrightarrow> (\<exists>new. logs' = logs @ new \<and> length new = n \<and> (\<forall>l \<in> set new. log_serves (mMaxBatchBytes m) l 0 []))) \<and>
    (\<forall>x. e = Some x \<longrightarrow> x \<in> write_errors)"
  using assms
proof (induction n arbitrary: i logs fs)
  case (Suc n)
  let ?p = "pDir name i"
  have d: "files (open_dir ?p fs) = []" using Suc.prems(1) by (auto simp: open_dir_def)
  obtain r d' where nl: "NewLog (mSegmentMaxBytes m) (mMaxBatchBytes m) (mIndexIntervalBytes m) (mFlushMode m) (open_dir ?p fs) = (r, d')" by fastforce
  show ?case
  proof (cases r)
    case (Inl x)
    then have "e = Some x" using Suc.prems(4) nl by simp
    then show ?thesis using new_error [OF d] nl Inl by auto
  next
    case (Inr l)
    have "log_serves (mMaxBatchBytes m) l 0 []" using new_serves [OF d Suc.prems(2,3)] nl Inr by simp
    moreover have "\<forall>k < n. partDirs (take_dir ?p fs) (pDir name (Suc i + k)) = None" using Suc.prems(1) by (auto simp: take_dir_def)
    moreover have "open_partitions m name (Suc i) n (logs @ [l]) (take_dir ?p fs) = (e, logs', fs')" using Suc.prems(4) nl Inr by simp
    ultimately show ?thesis using Suc.IH [of "take_dir ?p fs" "Suc i" "logs @ [l]"] Suc.prems(2,3) by fastforce
  qed
qed simp

lemma Create_refines:
  assumes rep: "broker_repr cfg b S" and dirs: "\<forall>i. partDirs (bDataDir b) (pDir (ctName q) i) = None"
  shows "\<exists>S'. spec_step cfg ts (Creating q) S (fst (serve ts (Creating q) b)) S' \<and> broker_repr cfg (snd (serve ts (Creating q) b)) S'"
proof -
  let ?m = "bManager b" and ?n = "int (unat (ctPartitionCount q))" and ?mb = "scMaxBatchBytes (cStorage cfg)"
  let ?ret = "case ctRetention q of None \<Rightarrow> \<lparr>rpMaxAgeSeconds = 0, rpMaxBytes = 0\<rparr> | Some x \<Rightarrow> x"
  have ok: "manager_ok ?m (bDataDir b)" and cfg: "mMaxBatchBytes ?m = ?mb" "mMaxBatchBytes ?m < 2 ^ 31" "mSegmentMaxBytes ?m \<le> 2 ^ 36"
    using rep by (auto simp: broker_repr_def config_in_force_def Let_def)
  obtain r m' fs' where cr: "CreateTopic (ctName q) ?n ?ret ?m (bDataDir b) = (r, m', fs')" by (metis surj_pair)
  let ?b = "b\<lparr>bManager := m', bDataDir := fs'\<rparr>"
  have exists: "sTopics S (ctName q) = None \<longleftrightarrow> map_of (mTopics ?m) (ctName q) = None"
    using rep by (metis broker_repr_def option.rel_sel option.collapse)
  show ?thesis
  proof (cases "ctName q = [] \<or> ctPartitionCount q = 0")
    case True
    then have "\<not> topicNameRegex (ctName q) \<or> unat (ctPartitionCount q) = 0" by (auto simp: topicNameRegex_def)
    then show ?thesis using True rep by (intro exI [of _ S]) (auto simp: AdminCreateTopic_def spec_create_def fail_def)
  next
    case False
    then have out: "serve ts (Creating q) b = (case r of Inl e \<Rightarrow> (Inl (create_status e), ?b) | Inr t \<Rightarrow> (Inr (RespTopic (convertToProtoMetadata t)), ?b))"
      using cr by (auto simp: AdminCreateTopic_def map_reply_def Let_def split: sum.splits)
    have n: "unat (ctPartitionCount q) \<noteq> 0" using False by (simp add: unat_eq_zero)
    show ?thesis
    proof (rule CreateTopic_cases [OF ok cr], goal_cases)
      case 1
      have "broker_repr cfg ?b S" using rep 1(2,3) by simp
      then show ?case using 1(1,4) n exists unfolding out
        by (intro exI [of _ S]) (auto simp: spec_create_def fail_def create_status_def MaxPartitionsPerTopic_def Let_def simp del: of_nat_unat)
    next
      case (2 e)
      have "e \<in> write_errors"
        using 2(6) open_partitions_new [OF _ cfg(2,3), of "nat ?n" "bDataDir b" "ctName q" 0 "[]"] dirs by (auto simp: meta_errors_def write_errors_def)
      then have "create_status e = StatusErr Internal" by (auto simp: write_errors_def create_status_def)
      moreover have "broker_repr cfg ?b S" using rep 2(3,4) by (simp add: broker_repr_def config_in_force_def)
      ultimately show ?case using 2(1,2) n exists unfolding out
        by (intro exI [of _ S]) (auto simp: spec_create_def fail_def MaxPartitionsPerTopic_def Let_def simp del: of_nat_unat)
    next
      case (3 t logs fs1)
      let ?S = "S\<lparr>sTopics := (sTopics S)(ctName q \<mapsto> (default_retention ?ret ?m, replicate (unat (ctPartitionCount q)) new_part))\<rparr>"
      have logs: "\<forall>l \<in> set logs. log_serves ?mb l 0 []" "length logs = unat (ctPartitionCount q)"
        using open_partitions_new [OF _ cfg(2,3) 3(2)] dirs 3(3) cfg(1) by auto
      have lg: "LogEarliestOffset l = 0 \<and> LogLogEndOffset l = 0" if "l \<in> set logs" for l
        using logs(1) that serves_end(1) [of ?mb l 0 "[]"] by (simp add: log_serves_def)
      have "convertToProtoMetadata t = \<lparr>tmName = ctName q, tmPartitionCount = ctPartitionCount q,
          tmPartitions = map (\<lambda>i. \<lparr>pmPartitionId = of_nat i, pmEarliestOffset = 0, pmLogEndOffset = 0\<rparr>) [0..<unat (ctPartitionCount q)],
          tmRetention = default_retention ?ret ?m\<rparr>"
        using lg logs(2) by (simp add: convertToProtoMetadata_def PartitionCount_def 3(4))
      moreover have "topic_repr ?mb t (default_retention ?ret ?m, replicate (unat (ctPartitionCount q)) new_part)"
        using logs by (auto simp: topic_repr_def 3(4) list_all2_conv_all_nth part_repr_def new_part_def)
      then have "broker_repr cfg ?b ?S"
        using rep 3(6,7) by (simp add: broker_repr_def config_in_force_def update_conv' Let_def)
      moreover have "default_retention ?ret ?m = \<lparr>rpMaxAgeSeconds = (if rpMaxAgeSeconds ?ret = 0 then seconds_of (rcDefaultMaxAge (cRetention cfg)) else rpMaxAgeSeconds ?ret),
        rpMaxBytes = (if rpMaxBytes ?ret = 0 then rcDefaultMaxPartitionBytes (cRetention cfg) else rpMaxBytes ?ret)\<rparr>"
        using rep by (simp add: default_retention_def broker_repr_def config_in_force_def Let_def)
      ultimately show ?case using 3(1,5) n exists unfolding out
        by (intro exI [of _ ?S]) (auto simp: spec_create_def MaxPartitionsPerTopic_def Let_def simp del: of_nat_unat)
    qed
  qed
qed

end
