(* ===== verification/Broker_Run.thy ===== *)
theory Broker_Run
  imports Broker_Refinement
begin

text \<open>
  The runs of the broker: requests, retention and restarts in any order, on disks that may fail at any
  call. Each is a run of the abstract broker.
\<close>

section \<open>Retention\<close>

lemma part_retained_refl [simp]: "part_retained p p"
  by (simp add: part_retained_def)

lemma part_retained_trans:
  assumes "part_retained p p1" "part_retained p1 p2"
  shows "part_retained p p2"
proof (cases "p1 = p \<or> p2 = p1")
  case True
  then show ?thesis using assms by auto
next
  case False
  then obtain k j where k: "spServing p" "k \<le> length (spRecords p)" "p1 = p\<lparr>spFirst := spFirst p + of_nat k, spRecords := drop k (spRecords p)\<rparr>"
    and j: "j \<le> length (spRecords p1)" "p2 = p1\<lparr>spFirst := spFirst p1 + of_nat j, spRecords := drop j (spRecords p1)\<rparr>"
    using assms by (auto simp: part_retained_def)
  have "p2 = p\<lparr>spFirst := spFirst p + of_nat (j + k), spRecords := drop (j + k) (spRecords p)\<rparr>" using k(3) j(2) by simp
  then show ?thesis using k j(1) unfolding part_retained_def by (intro disjI2 conjI exI [of _ "j + k"]) auto
qed

lemma spec_retain_refl [simp]: "spec_retain S S"
  by (simp add: spec_retain_def option.rel_refl prod.rel_refl list.rel_refl)

lemma spec_retain_trans:
  assumes "spec_retain S S1" "spec_retain S1 S2"
  shows "spec_retain S S2"
proof -
  let ?R = "rel_option (rel_prod (=) (list_all2 part_retained))"
  have "transp part_retained" using part_retained_trans by (auto intro: transpI)
  then have tr: "transp ?R" by (intro option.rel_transp prod.rel_transp list.rel_transp) simp_all
  have R: "S1 = S\<lparr>sTopics := sTopics S1\<rparr>" "?R (sTopics S name) (sTopics S1 name)" "S2 = S1\<lparr>sTopics := sTopics S2\<rparr>"
    "?R (sTopics S1 name) (sTopics S2 name)" for name
    using assms unfolding spec_retain_def by blast+
  have "?R (sTopics S name) (sTopics S2 name)" for name by (rule transpD [OF tr R(2) R(4)])
  moreover have "S2 = S\<lparr>sTopics := sTopics S2\<rparr>" using R(1,3) by (cases S; cases S1; cases S2) simp
  ultimately show ?thesis unfolding spec_retain_def by blast
qed

lemma spec_retain_part:
  assumes "spec_part_at topic pid S = Some p" "part_retained p p'"
  shows "spec_retain S (spec_set_part topic pid p' S)"
proof -
  obtain ret ps where T: "sTopics S topic = Some (ret, ps)" "unat pid < length ps" "p = ps ! unat pid"
    using assms(1) by (auto simp: spec_part_at_def split: option.splits if_splits)
  have "list_all2 part_retained ps (ps[unat pid := p'])"
    unfolding list_all2_conv_all_nth using assms(2) T(2,3) by (simp add: nth_list_update)
  then show ?thesis
    by (simp add: spec_retain_def spec_set_part_def T(1) option.rel_refl prod.rel_refl list.rel_refl)
qed

lemma retain_part:
  assumes "part_repr mb l p" "LogApplyRetention now maxAge mx l = (e, l')"
  shows "\<exists>p'. part_retained p p' \<and> part_repr mb l' p'"
proof (cases "spServing p")
  case True
  then have "log_serves mb l (spFirst p) (spRecords p)" using assms(1) by (simp add: part_repr_def)
  from retain_serves [OF this assms(2)] obtain k where "k \<le> length (spRecords p)"
    "log_serves mb l' (spFirst p + of_nat k) (drop k (spRecords p))" by blast
  then show ?thesis using True
    by (intro exI [of _ "p\<lparr>spFirst := spFirst p + of_nat k, spRecords := drop k (spRecords p)\<rparr>"]) (auto simp: part_retained_def part_repr_def)
next
  case False
  then have "l' = l" using assms by (auto simp: part_repr_def LogApplyRetention_def ApplyRetention_def)
  then show ?thesis using assms(1) by (intro exI [of _ p]) simp
qed

lemma retain_step:
  assumes rep: "broker_repr cfg b S" and t: "map_of (mTopics (bManager b)) name = Some t"
    and ret: "LogApplyRetention now maxAge mx (tPartitions t ! i) = (e, l)"
  shows "\<exists>S'. spec_retain S S' \<and> broker_repr cfg (b\<lparr>bManager := set_partition name i l (bManager b)\<rparr>) S'"
proof (cases "i < length (tPartitions t)")
  case False
  then have "(tPartitions t)[i := l] = tPartitions t" by (simp add: list_update_beyond)
  then have "t\<lparr>tPartitions := (tPartitions t)[i := l]\<rparr> = t" by (cases t) simp
  then have "set_partition name i l (bManager b) = bManager b" using t by (simp add: set_partition_def update_triv)
  then show ?thesis using rep by (intro exI [of _ S]) simp
next
  case True
  obtain r ps where T: "sTopics S name = Some (r, ps)" "list_all2 (part_repr (scMaxBatchBytes (cStorage cfg))) (tPartitions t) ps"
    "length ps = length (tPartitions t)" "length (tPartitions t) \<le> 1024"
    by (rule topic_found [OF rep t])
  let ?pid = "of_nat i :: u32"
  have pid: "unat ?pid = i" using True T(4) by (intro unat_of_nat_u32) simp
  have at: "spec_part_at name ?pid S = Some (ps ! i)" using T(1,3) True by (simp add: spec_part_at_def pid)
  have "part_repr (scMaxBatchBytes (cStorage cfg)) (tPartitions t ! i) (ps ! i)" using T(2) True by (simp add: list_all2_conv_all_nth)
  from retain_part [OF this ret] obtain p' where p': "part_retained (ps ! i) p'" "part_repr (scMaxBatchBytes (cStorage cfg)) l p'" by blast
  show ?thesis using spec_retain_part [OF at p'(1)] set_log_repr [OF rep at p'(2)] by (auto simp: set_log_def pid)
qed

lemma apply_targets_refines:
  "broker_repr cfg b S \<Longrightarrow> \<exists>S'. spec_retain S S' \<and> broker_repr cfg (b\<lparr>bManager := apply_targets now stop k ts (bManager b)\<rparr>) S'"
proof (induction ts arbitrary: b S k)
  case Nil
  then show ?case by (intro exI [of _ S]) simp
next
  case (Cons x ts)
  obtain name i maxAge mx where x: "x = (name, i, maxAge, mx)" by (metis surj_pair)
  show ?case
  proof (cases "cancelled stop k \<or> map_of (mTopics (bManager b)) name = None")
    case True
    then show ?thesis using Cons.prems by (intro exI [of _ S]) (auto simp: x)
  next
    case False
    then obtain t where t: "map_of (mTopics (bManager b)) name = Some t" by auto
    obtain e l where ret: "LogApplyRetention (now name i) maxAge mx (tPartitions t ! i) = (e, l)" by fastforce
    obtain S1 where S1: "spec_retain S S1" "broker_repr cfg (b\<lparr>bManager := set_partition name i l (bManager b)\<rparr>) S1"
      using retain_step [OF Cons.prems t ret] by blast
    obtain S2 where S2: "spec_retain S1 S2" "broker_repr cfg (b\<lparr>bManager := apply_targets now stop (Suc (Suc k)) ts (set_partition name i l (bManager b))\<rparr>) S2"
      using Cons.IH [OF S1(2), of "Suc (Suc k)"] by auto
    show ?thesis
    proof (cases "cancelled stop (Suc k)")
      case True
      then show ?thesis using S1 False t ret by (intro exI [of _ S1]) (simp add: x)
    next
      case cont: False
      then show ?thesis using S2 False t ret spec_retain_trans [OF S1(1) S2(1)] by (intro exI [of _ S2]) (simp add: x)
    qed
  qed
qed

lemma retention_refines:
  "broker_repr cfg b S \<Longrightarrow> \<exists>S'. spec_retain S S' \<and> broker_repr cfg (retention_run now stop order b) S'"
  by (simp add: retention_run_def ManagerApplyRetention_def apply_targets_refines)

section \<open>Restart\<close>

text \<open>A process that starts after the broker has stopped at any moment.\<close>

definition restart :: "(TopicsMetadata \<Rightarrow> gostring list) \<Rightarrow> Config \<Rightarrow> Broker \<Rightarrow> (err + Broker) \<times> data_dir \<times> disk" where
  "restart order cfg b = New order cfg (crashed (bManager b) (bDataDir b)) (restarted (bOffsetsDir b))"

lemma part_keeps: "part_repr mb l p \<Longrightarrow> log_keeps mb l (spFirst p) (spRecords p)"
  using serves_keeps by (auto simp: part_repr_def split: if_splits)

lemma manager_ok_defaults: "manager_ok (m\<lparr>mDefaultMaxAgeSeconds := x, mDefaultMaxBytes := y\<rparr>) fs = manager_ok m fs"
  by (simp add: manager_ok_def topics_ok_def)

lemma offs_repr_files: "files d' = files d \<Longrightarrow> offs_repr s d' v m = offs_repr s d v m"
  by (simp add: offs_repr_def offsets_repr_def content_def)

lemma new_refines:
  assumes rep: "broker_repr cfg b S" and ord: "iterates order"
    and dirs: "found_dirs (bManager b) (bDataDir b) fs1" "files od1 = files (bOffsetsDir b)" "faults od1 = []"
  shows "\<exists>b' fs od. New order cfg fs1 od1 = (Inr b', fs, od) \<and> broker_repr cfg b' (spec_restart S)"
proof -
  let ?m = "bManager b" and ?st = "cStorage cfg" and ?mb = "scMaxBatchBytes (cStorage cfg)"
  have ok: "manager_ok ?m (bDataDir b)" and cfg: "config_in_force cfg b" using rep by (simp_all add: broker_repr_def)
  have fields: "mSegmentMaxBytes ?m = scSegmentMaxBytes ?st" "mMaxBatchBytes ?m = ?mb" "mIndexIntervalBytes ?m = scIndexIntervalBytes ?st"
    "mFlushMode ?m = scFlushMode ?st" "?mb < 2 ^ 31" "scSegmentMaxBytes ?st \<le> 2 ^ 36"
    using cfg by (simp_all add: config_in_force_def Let_def)
  define P where "P name k l = (\<exists>ret ps. sTopics S name = Some (ret, ps) \<and> k < length ps \<and> log_serves ?mb l (spFirst (ps ! k)) (spRecords (ps ! k)))" for name k l
  have op: "\<exists>d. partDirs fs1 (pDir name k) = Some d \<and> opens ?m d (P name k)"
    if t: "map_of (mTopics ?m) name = Some t" "k < length (tPartitions t)" for name t k
  proof -
    obtain ret ps where T: "sTopics S name = Some (ret, ps)" "list_all2 (part_repr ?mb) (tPartitions t) ps" "length ps = length (tPartitions t)"
      by (rule topic_found [OF rep t(1)])
    have "part_repr ?mb (tPartitions t ! k) (ps ! k)" using T(2) t(2) by (simp add: list_all2_conv_all_nth)
    from part_keeps [OF this] have kp: "log_keeps ?mb (tPartitions t ! k) (spFirst (ps ! k)) (spRecords (ps ! k))" .
    obtain d where d: "partDirs fs1 (pDir name k) = Some d" "files d = files (logDisk (tPartitions t ! k))" "faults d = []"
      using dirs(1) t unfolding found_dirs_def by blast
    have "log_keeps ?mb \<lparr>logStore = logStore (tPartitions t ! k), logDisk = d\<rparr> (spFirst (ps ! k)) (spRecords (ps ! k))"
      using kp disk_log_cong [of ?mb "logDisk (tPartitions t ! k)" _ _ _ d] d(2) unfolding log_keeps_def by (metis Log.select_convs(2))
    from keeps_opens [of ?m, OF _ _ ] this fields
    have "opens ?m (restarted d) (\<lambda>l'. log_serves ?mb l' (spFirst (ps ! k)) (spRecords (ps ! k)) \<and> faults (logDisk l') = [])"
      by fastforce
    moreover have "restarted d = d" using d(3) by (simp add: restarted_def)
    ultimately show ?thesis using T(1,3) t(2) d(1) by (auto simp: opens_def P_def)
  qed
  obtain m' fs' where M: "NewManager order (mSegmentMaxBytes ?m) (mMaxBatchBytes ?m) (mIndexIntervalBytes ?m) (mFlushMode ?m) fs1 = (Inr m', fs')"
    "manager_ok m' fs'" "m' = ?m\<lparr>mTopics := mTopics m', mDefaultMaxAgeSeconds := 0, mDefaultMaxBytes := 0\<rparr>"
    "\<forall>name. map_option disk_topic (map_of (mTopics m') name) = map_option disk_topic (map_of (mTopics ?m) name)"
    "\<forall>name t k. map_of (mTopics m') name = Some t \<longrightarrow> k < length (tPartitions t) \<longrightarrow> P name k (tPartitions t ! k)"
    using NewManager_reopens [OF ok ord, of fs1 P] op dirs(1) unfolding found_dirs_def by blast
  have offs: "offs_repr (bOffsets b) (bOffsetsDir b) (sOffServing S) (sOffsets S)" "filePath (bOffsets b) = offsetsFile"
    using rep by (simp_all add: broker_repr_def)
  have od1: "restarted od1 = od1" using dirs(3) by (simp add: restarted_def)
  obtain s' d' where O: "OpenOffsetStore offsetsFile od1 = (Inr s', d')" "offs_repr s' d' True (sOffsets S)" "filePath s' = offsetsFile"
    using offsets_open [OF offs_repr_files [OF dirs(2), THEN iffD2, OF offs(1)]] offs(2) od1 by auto
  define m2 where "m2 = SetRetentionDefaults (seconds_of (rcDefaultMaxAge (cRetention cfg))) (rcDefaultMaxPartitionBytes (cRetention cfg)) m'"
  define b' where "b' = \<lparr>bManager = m2, bDataDir = fs', bOffsets = s', bOffsetsDir = d', bStorageCfg = ?st, bMetrics = Some []\<rparr>"
  have "New order cfg fs1 od1 = (Inr b', fs', d')" using M(1) O(1) fields by (simp add: New_def m2_def b'_def Let_def)
  moreover have "config_in_force cfg b'"
    using cfg arg_cong [OF M(3), of mSegmentMaxBytes] arg_cong [OF M(3), of mMaxBatchBytes] arg_cong [OF M(3), of mIndexIntervalBytes] arg_cong [OF M(3), of mFlushMode]
    by (simp add: config_in_force_def b'_def m2_def SetRetentionDefaults_def Let_def)
  moreover have "manager_ok m2 fs'" using M(2) by (simp add: m2_def SetRetentionDefaults_def manager_ok_defaults)
  moreover have "rel_option (topic_repr ?mb) (map_of (mTopics m') name) (sTopics (spec_restart S) name)" for name
  proof (cases "map_of (mTopics m') name")
    case None
    then have "map_of (mTopics ?m) name = None" using spec [OF M(4), of name] by simp
    then have "sTopics S name = None" using rep by (metis broker_repr_def option.rel_distinct(1) option.exhaust)
    then show ?thesis using None by (simp add: spec_restart_def)
  next
    case (Some t')
    then obtain t where t: "map_of (mTopics ?m) name = Some t" "disk_topic t' = disk_topic t"
      using spec [OF M(4), of name] by (cases "map_of (mTopics ?m) name") auto
    obtain ret ps where T: "sTopics S name = Some (ret, ps)" "tRetention t = ret" "length ps = length (tPartitions t)"
      by (rule topic_found [OF rep t(1)])
    have t': "tRetention t' = ret" "length (tPartitions t') = length ps" using t(2) T(2,3) by (simp_all add: disk_topic_def)
    have "part_repr ?mb (tPartitions t' ! k) ((ps ! k)\<lparr>spServing := True\<rparr>)" if "k < length ps" for k
    proof -
      have "P name k (tPartitions t' ! k)" using M(5) Some that t'(2) by simp
      then show ?thesis using T(1) by (simp add: P_def part_repr_def)
    qed
    then show ?thesis using Some T(1) t' by (simp add: spec_restart_def topic_repr_def list_all2_conv_all_nth)
  qed
  ultimately show ?thesis using O(2,3)
    by (intro exI [of _ b'] exI [of _ fs'] exI [of _ d'])
      (simp add: broker_repr_def b'_def m2_def SetRetentionDefaults_def, simp add: spec_restart_def)
qed

lemma restart_refines:
  assumes "broker_repr cfg b S" "iterates order"
  shows "\<exists>b' fs od. restart order cfg b = (Inr b', fs, od) \<and> broker_repr cfg b' (spec_restart S)"
proof -
  have "topics_ok (bManager b)" using assms(1) by (simp add: broker_repr_def manager_ok_def)
  then show ?thesis using new_refines [OF assms crashed_found] by (simp add: restart_def restarted_def)
qed

section \<open>Failing disks\<close>

text \<open>From any moment on the calls on the directories may meet other faults.\<close>

definition refault :: "(gostring \<Rightarrow> nat \<Rightarrow> fault list) \<Rightarrow> fault list \<Rightarrow> fault list \<Rightarrow> (gostring \<Rightarrow> fault list) \<Rightarrow> Broker \<Rightarrow> Broker" where
  "refault logs meta offs new b =
     b\<lparr>bManager := (bManager b)\<lparr>mTopics := map (\<lambda>(name, t). (name, t\<lparr>tPartitions :=
           map (\<lambda>(i, l). l\<lparr>logDisk := (logDisk l)\<lparr>faults := logs name i\<rparr>\<rparr>) (enumerate 0 (tPartitions t))\<rparr>)) (mTopics (bManager b))\<rparr>,
       bDataDir := (bDataDir b)\<lparr>metaDisk := (metaDisk (bDataDir b))\<lparr>faults := meta\<rparr>, newFaults := new\<rparr>,
       bOffsetsDir := (bOffsetsDir b)\<lparr>faults := offs\<rparr>\<rparr>"

lemma part_repr_faults: "part_repr mb (l\<lparr>logDisk := (logDisk l)\<lparr>faults := fl\<rparr>\<rparr>) p = part_repr mb l p"
proof -
  have "disk_log mb ((logDisk l)\<lparr>faults := fl\<rparr>) segs t fin = disk_log mb (logDisk l) segs t fin" for segs t fin
    using disk_log_cong [of mb "logDisk l" segs t fin "(logDisk l)\<lparr>faults := fl\<rparr>"] disk_log_cong [of mb "(logDisk l)\<lparr>faults := fl\<rparr>" segs t fin "logDisk l"]
    by auto
  moreover have "store_repr s ((logDisk l)\<lparr>faults := fl\<rparr>) bss = store_repr s (logDisk l) bss" for s bss by (rule store_repr_files) simp
  ultimately show ?thesis by (simp add: part_repr_def log_serves_def log_keeps_def LogEarliestOffset_def)
qed

lemma offs_repr_faults: "offs_repr s (d\<lparr>faults := fl\<rparr>) v m = offs_repr s d v m"
  by (simp add: offs_repr_def offsets_repr_def content_def)

lemma map_of_map_key: "map_of (map (\<lambda>(k, v). (k, f k v)) xs) k = map_option (f k) (map_of xs k)"
  by (induction xs) auto

lemma refault_repr:
  assumes "broker_repr cfg b S"
  shows "broker_repr cfg (refault logs meta offs new b) S"
proof -
  let ?b = "refault logs meta offs new b" and ?mb = "scMaxBatchBytes (cStorage cfg)"
  let ?f = "\<lambda>name t. t\<lparr>tPartitions := map (\<lambda>(i, l). l\<lparr>logDisk := (logDisk l)\<lparr>faults := logs name i\<rparr>\<rparr>) (enumerate 0 (tPartitions t))\<rparr>"
  have topics: "map_of (mTopics (bManager ?b)) name = map_option (?f name) (map_of (mTopics (bManager b)) name)" for name
    by (simp add: refault_def map_of_map_key)
  have dt: "disk_topic (?f name t) = disk_topic t" for name t by (simp add: disk_topic_def)
  have tr: "topic_repr ?mb (?f name t) x = topic_repr ?mb t x" for name t x
    by (auto simp: topic_repr_def list_all2_conv_all_nth nth_enumerate_eq part_repr_faults)
  have "map fst (mTopics (bManager ?b)) = map fst (mTopics (bManager b))" by (simp add: refault_def comp_def case_prod_unfold)
  moreover have "\<forall>(k, t) \<in> set (mTopics (bManager ?b)). disk_topic_ok k (disk_topic t)"
    using assms by (auto simp: refault_def dt broker_repr_def manager_ok_def topics_ok_def)
  moreover have "meta_file (metaDisk (bDataDir ?b)) ts = meta_file (metaDisk (bDataDir b)) ts" for ts
    by (rule meta_file_cong) (simp add: refault_def)
  ultimately have "manager_ok (bManager ?b) (bDataDir ?b)"
    using assms by (simp add: broker_repr_def manager_ok_def topics_ok_def topics option.map_comp comp_def dt)
  moreover have "rel_option (topic_repr ?mb) (map_of (mTopics (bManager ?b)) name) (sTopics S name)" for name
  proof -
    have "(\<lambda>t. topic_repr ?mb (?f name t)) = topic_repr ?mb" by (intro ext) (rule tr)
    then show ?thesis using assms unfolding topics option.rel_map by (simp only: broker_repr_def)
  qed
  moreover have "offs_repr (bOffsets ?b) (bOffsetsDir ?b) (sOffServing S) (sOffsets S)"
    using assms by (simp add: refault_def broker_repr_def offs_repr_faults)
  moreover have "config_in_force cfg ?b" "filePath (bOffsets ?b) = offsetsFile"
    using assms by (simp_all add: broker_repr_def config_in_force_def refault_def Let_def)
  ultimately show ?thesis by (simp add: broker_repr_def)
qed

section \<open>Runs\<close>

datatype event = Request i64 request "rpc_error + response" | Retained | Restarted

text \<open>
  A batch must be one that the store can take, and a new topic must not meet directories that are left over
  from one that was never completed.
\<close>

fun sound_request :: "i64 \<Rightarrow> request \<Rightarrow> Broker \<Rightarrow> bool" where
  "sound_request ts (Producing q) b = batch_fits ts q b"
| "sound_request ts (Creating q) b = (\<forall>i. partDirs (bDataDir b) (pDir (ctName q) i) = None)"
| "sound_request ts _ b = True"

inductive broker_run :: "Config \<Rightarrow> Broker \<Rightarrow> event list \<Rightarrow> Broker \<Rightarrow> bool" where
  begin_: "broker_run cfg b [] b"
| request: "broker_run cfg b es b1 \<Longrightarrow> sound_request ts q b1 \<Longrightarrow> serve ts q b1 = (r, b2) \<Longrightarrow> broker_run cfg b (es @ [Request ts q r]) b2"
| retain: "broker_run cfg b es b1 \<Longrightarrow> broker_run cfg b (es @ [Retained]) (retention_run now stop order b1)"
| restart: "broker_run cfg b es b1 \<Longrightarrow> iterates order \<Longrightarrow> restart order cfg b1 = (Inr b2, fs, od) \<Longrightarrow> broker_run cfg b (es @ [Restarted]) b2"
| faults: "broker_run cfg b es b1 \<Longrightarrow> broker_run cfg b es (refault logs meta offs new b1)"

inductive spec_run :: "Config \<Rightarrow> spec \<Rightarrow> event list \<Rightarrow> spec \<Rightarrow> bool" where
  begin_: "spec_run cfg S [] S"
| request: "spec_run cfg S es S1 \<Longrightarrow> spec_step cfg ts q S1 r S2 \<Longrightarrow> spec_run cfg S (es @ [Request ts q r]) S2"
| retain: "spec_run cfg S es S1 \<Longrightarrow> spec_retain S1 S2 \<Longrightarrow> spec_run cfg S (es @ [Retained]) S2"
| restart: "spec_run cfg S es S1 \<Longrightarrow> spec_run cfg S (es @ [Restarted]) (spec_restart S1)"

lemma serve_refines:
  assumes "broker_repr cfg b S" "sound_request ts q b" "serve ts q b = (r, b')"
  shows "\<exists>S'. spec_step cfg ts q S r S' \<and> broker_repr cfg b' S'"
proof (cases q)
  case (Producing x)
  then show ?thesis using Produce_refines [OF assms(1), of ts x] assms(2,3) by (simp del: serve.simps)
next
  case (Fetching x)
  then show ?thesis using Fetch_refines [OF assms(1), of ts x] assms(3) by (auto simp del: serve.simps)
next
  case (Committing x)
  then show ?thesis using Commit_refines [OF assms(1), of ts x] assms(3) by (simp del: serve.simps)
next
  case (Committed x)
  then show ?thesis using Committed_refines [OF assms(1), of ts x] assms(3) by (auto simp del: serve.simps)
next
  case (Creating x)
  then show ?thesis using Create_refines [OF assms(1), of x ts] assms(2,3) by (simp del: serve.simps)
qed

lemma run_refines:
  assumes "broker_run cfg b es b'" "broker_repr cfg b S"
  shows "\<exists>S'. spec_run cfg S es S' \<and> broker_repr cfg b' S'"
  using assms
proof (induction rule: broker_run.induct)
  case (begin_ cfg b)
  then show ?case using spec_run.begin_ by blast
next
  case (request cfg b es b1 ts q r b2)
  then show ?case using serve_refines [OF _ request.hyps(2,3)] spec_run.request by blast
next
  case (retain cfg b es b1 now stop order)
  then show ?case using retention_refines spec_run.retain by blast
next
  case (restart cfg b es b1 order b2 fs od)
  then obtain S1 where S1: "spec_run cfg S es S1" "broker_repr cfg b1 S1" by blast
  then show ?case using restart_refines [OF S1(2) restart.hyps(2)] restart.hyps(3) spec_run.restart [OF S1(1)] by auto
next
  case (faults cfg b es b1 logs meta offs new)
  then show ?case using refault_repr by blast
qed

end
