(* ===== verification/Broker_Contract.thy ===== *)
theory Broker_Contract
  imports Broker_Run
begin

text \<open>
  What clients can rely on, over any run of the broker: the refinement of the abstract broker, the
  durability of acknowledged records and committed offsets, and what a request that meets no failure
  returns.
\<close>

section \<open>Well-formed abstract states\<close>

definition spec_ok :: "spec \<Rightarrow> bool" where
  "spec_ok S \<longleftrightarrow> (\<forall>topic pid p. spec_part_at topic pid S = Some p \<longrightarrow> unat (spFirst p) + length (spRecords p) < 2 ^ 64)"

lemma repr_ok:
  assumes rep: "broker_repr cfg b S"
  shows "spec_ok S"
  unfolding spec_ok_def
proof (intro allI impI)
  fix topic pid p assume "spec_part_at topic pid S = Some p"
  then obtain l where l: "part_repr (scMaxBatchBytes (cStorage cfg)) l p" using resolve_repr [OF rep, of topic pid] by auto
  have cfg: "mMaxBatchBytes (bManager b) = scMaxBatchBytes (cStorage cfg)" "mMaxBatchBytes (bManager b) < 2 ^ 31" "mSegmentMaxBytes (bManager b) \<le> 2 ^ 36"
    using rep by (auto simp: broker_repr_def config_in_force_def Let_def)
  obtain l' where "log_serves (mMaxBatchBytes (bManager b)) l' (spFirst p) (spRecords p)"
    using keeps_opens [OF _ cfg(2,3), of l "spFirst p" "spRecords p"] part_keeps [OF l] cfg(1) by (auto simp: opens_def)
  from serves_end(2) [OF this] show "unat (spFirst p) + length (spRecords p) < 2 ^ 64"
    using unsigned_less [of "LogLogEndOffset l'", where 'a = nat] by simp
qed

section \<open>The refinement\<close>


text \<open>What every step of the abstract broker keeps, holds after every run.\<close>

lemma run_invariant:
  assumes "broker_run cfg b es b'" "broker_repr cfg b S" "I [] S"
    and "\<And>es S1 ts q r S2. spec_ok S1 \<Longrightarrow> I es S1 \<Longrightarrow> spec_step cfg ts q S1 r S2 \<Longrightarrow> I (es @ [Request ts q r]) S2"
    and "\<And>es S1 S2. spec_ok S1 \<Longrightarrow> I es S1 \<Longrightarrow> spec_retain S1 S2 \<Longrightarrow> I (es @ [Retained]) S2"
    and "\<And>es S1. I es S1 \<Longrightarrow> I (es @ [Restarted]) (spec_restart S1)"
  shows "\<exists>S'. broker_repr cfg b' S' \<and> I es S'"
  using assms
proof (induction rule: broker_run.induct)
  case (request cfg b es b1 ts q r b2)
  then obtain S1 where S1: "broker_repr cfg b1 S1" "I es S1" by blast
  obtain S2 where "spec_step cfg ts q S1 r S2" "broker_repr cfg b2 S2" using serve_refines [OF S1(1) request.hyps(2,3)] by blast
  then show ?case using request.prems(3) repr_ok [OF S1(1)] S1(2) by blast
next
  case (retain cfg b es b1 now stop order)
  then obtain S1 where S1: "broker_repr cfg b1 S1" "I es S1" by blast
  obtain S2 where "spec_retain S1 S2" "broker_repr cfg (retention_run now stop order b1) S2" using retention_refines [OF S1(1)] by blast
  then show ?case using retain.prems(4) repr_ok [OF S1(1)] S1(2) by blast
next
  case (restart cfg b es b1 order b2 fs od)
  then obtain S1 where S1: "broker_repr cfg b1 S1" "I es S1" by blast
  then show ?case using restart_refines [OF S1(1) restart.hyps(2)] restart.hyps(3) restart.prems(5) [OF S1(2)] by auto
next
  case (faults cfg b es b1 logs meta offs new)
  then show ?case using refault_repr by blast
qed blast

section \<open>Acknowledged records\<close>

text \<open>Each record of the batch is in the partition at its offset, or its offset is below the first one that is kept.\<close>

definition holds_batch :: "spec \<Rightarrow> gostring \<Rightarrow> u32 \<Rightarrow> u64 \<Rightarrow> stored_record list \<Rightarrow> bool" where
  "holds_batch S topic pid base rs \<longleftrightarrow> (\<exists>p. spec_part_at topic pid S = Some p \<and>
     (\<forall>i < length rs. unat base + i < unat (spFirst p) \<or>
        unat base + i < unat (spFirst p) + length (spRecords p) \<and> spRecords p ! (unat base + i - unat (spFirst p)) = rs ! i))"

text \<open>A partition that has lost records only from the front, and may have got more at the end.\<close>

definition part_grown :: "spec_part \<Rightarrow> spec_part \<Rightarrow> bool" where
  "part_grown p p' \<longleftrightarrow> (\<exists>k rest. k \<le> length (spRecords p) \<and> unat (spFirst p') = unat (spFirst p) + k \<and> spRecords p' = drop k (spRecords p) @ rest)"

lemma part_grown_holds:
  assumes "part_grown p p'" "unat base + i < unat (spFirst p) \<or>
      unat base + i < unat (spFirst p) + length (spRecords p) \<and> spRecords p ! (unat base + i - unat (spFirst p)) = x"
  shows "unat base + i < unat (spFirst p') \<or>
      unat base + i < unat (spFirst p') + length (spRecords p') \<and> spRecords p' ! (unat base + i - unat (spFirst p')) = x"
proof -
  obtain k rest where k: "k \<le> length (spRecords p)" "unat (spFirst p') = unat (spFirst p) + k" "spRecords p' = drop k (spRecords p) @ rest"
    using assms(1) by (auto simp: part_grown_def)
  show ?thesis
  proof (cases "unat base + i < unat (spFirst p) + k")
    case True
    then show ?thesis using k(2) by simp
  next
    case False
    define n where "n = unat base + i - unat (spFirst p) - k"
    have "unat base + i = unat (spFirst p) + k + n" "k + n < length (spRecords p)" "spRecords p ! (k + n) = x"
      using False assms(2) by (auto simp: n_def)
    then show ?thesis using k by (simp add: nth_append)
  qed
qed

lemma holds_batch_grown:
  assumes "holds_batch S topic pid base rs"
    and "\<And>p. spec_part_at topic pid S = Some p \<Longrightarrow> \<exists>p'. spec_part_at topic pid S' = Some p' \<and> part_grown p p'"
  shows "holds_batch S' topic pid base rs"
proof -
  obtain p where p: "spec_part_at topic pid S = Some p" "\<forall>i < length rs. unat base + i < unat (spFirst p) \<or>
        unat base + i < unat (spFirst p) + length (spRecords p) \<and> spRecords p ! (unat base + i - unat (spFirst p)) = rs ! i"
    using assms(1) by (auto simp: holds_batch_def)
  obtain p' where p': "spec_part_at topic pid S' = Some p'" "part_grown p p'" using assms(2) [OF p(1)] by blast
  show ?thesis unfolding holds_batch_def using p' part_grown_holds [OF p'(2)] p(2) by blast
qed

lemma part_grown_simps [simp]:
  "part_grown p p" "part_grown p (p\<lparr>spRecords := spRecords p @ rest\<rparr>)" "part_grown p (p\<lparr>spServing := v\<rparr>)"
  "part_grown p (p\<lparr>spServing := v, spRecords := spRecords p @ rest\<rparr>)"
  unfolding part_grown_def by (rule exI [of _ 0], simp)+

lemma part_retained_grown:
  assumes "part_retained p p'" "unat (spFirst p) + length (spRecords p) < 2 ^ 64"
  shows "part_grown p p'"
proof (cases "p' = p")
  case False
  then obtain k where k: "k \<le> length (spRecords p)" "p' = p\<lparr>spFirst := spFirst p + of_nat k, spRecords := drop k (spRecords p)\<rparr>"
    using assms(1) by (auto simp: part_retained_def)
  have "unat (spFirst p + of_nat k) = unat (spFirst p) + k" using assms(2) k(1) by (intro unat_add_u64) simp
  then show ?thesis unfolding part_grown_def using k by (intro exI [of _ k] exI [of _ "[]"]) simp
qed simp

lemma spec_part_at_set:
  assumes "spec_part_at topic pid S = Some p"
  shows "spec_part_at topic' pid' (spec_set_part topic pid p' S) = (if topic' = topic \<and> pid' = pid then Some p' else spec_part_at topic' pid' S)"
  using assms by (auto simp: spec_part_at_def spec_set_part_def nth_list_update word_unat_eq_iff split: option.splits if_splits)

text \<open>
  No step takes anything from a partition but retention, which takes from the front, and none puts it back
  into service but a restart.
\<close>

definition part_step :: "spec_part \<Rightarrow> spec_part \<Rightarrow> bool" where
  "part_step p p' \<longleftrightarrow> part_grown p p' \<and> (spServing p' \<longrightarrow> spServing p)"

lemma part_step_simps [simp]:
  "part_step p p" "part_step p (p\<lparr>spRecords := spRecords p @ rest\<rparr>)" "part_step p (p\<lparr>spServing := False\<rparr>)"
  "part_step p (p\<lparr>spServing := False, spRecords := spRecords p @ rest\<rparr>)"
  by (simp_all add: part_step_def)

lemma step_parts:
  assumes "spec_step cfg ts q S r S'" "spec_part_at topic pid S = Some p"
  shows "\<exists>p'. spec_part_at topic pid S' = Some p' \<and> part_step p p'"
proof (cases q)
  case (Producing x)
  have "S' = S \<or> (\<exists>p0 p1. spec_part_at (prTopic x) (prPartition x) S = Some p0 \<and> S' = spec_set_part (prTopic x) (prPartition x) p1 S \<and> part_step p0 p1)"
    using assms(1) unfolding Producing by (auto simp: spec_produce_def Let_def split: if_splits option.splits)
  then show ?thesis using assms(2) spec_part_at_set by (elim disjE) auto
next
  case (Creating x)
  have "S' = S \<or> sTopics S (ctName x) = None \<and> (\<exists>y. S' = S\<lparr>sTopics := (sTopics S)(ctName x \<mapsto> y)\<rparr>)"
    using assms(1) unfolding Creating spec_step.simps spec_create_def Let_def by (cases "sTopics S (ctName x)") (simp_all split: if_splits, blast+)
  then show ?thesis using assms(2) by (auto simp: spec_part_at_def split: option.splits if_splits)
next
  case (Committing x)
  have "sTopics S' = sTopics S"
    using assms(1) unfolding Committing by (auto simp: spec_commit_def Let_def split: if_splits option.splits)
  then show ?thesis using assms(2) by (auto simp: spec_part_at_def)
qed (use assms in auto)

lemma retain_parts:
  assumes "spec_retain S S'" "spec_ok S" "spec_part_at topic pid S = Some p"
  shows "\<exists>p'. spec_part_at topic pid S' = Some p' \<and> part_step p p'"
proof -
  obtain ret ps where T: "sTopics S topic = Some (ret, ps)" "unat pid < length ps" "p = ps ! unat pid"
    using assms(3) by (auto simp: spec_part_at_def split: option.splits if_splits)
  have "rel_option (rel_prod (=) (list_all2 part_retained)) (sTopics S topic) (sTopics S' topic)" using assms(1) by (simp add: spec_retain_def)
  then obtain ps' where T': "sTopics S' topic = Some (ret, ps')" "list_all2 part_retained ps ps'" using T(1) by (auto simp: option_rel_Some1)
  have "part_retained p (ps' ! unat pid)" "unat pid < length ps'" using T'(2) T(2,3) by (auto simp: list_all2_conv_all_nth)
  moreover from this have "spServing (ps' ! unat pid) \<longrightarrow> spServing p" by (auto simp: part_retained_def)
  ultimately show ?thesis using T'(1) part_retained_grown assms(2,3) by (auto simp: spec_part_at_def spec_ok_def part_step_def)
qed

lemma step_grows:
  "spec_step cfg ts q S r S' \<Longrightarrow> spec_part_at topic pid S = Some p \<Longrightarrow> \<exists>p'. spec_part_at topic pid S' = Some p' \<and> part_grown p p'"
  "spec_retain S S' \<Longrightarrow> spec_ok S \<Longrightarrow> spec_part_at topic pid S = Some p \<Longrightarrow> \<exists>p'. spec_part_at topic pid S' = Some p' \<and> part_grown p p'"
  using step_parts retain_parts unfolding part_step_def by blast+

lemma restart_grows:
  "spec_part_at topic pid S = Some p \<Longrightarrow> \<exists>p'. spec_part_at topic pid (spec_restart S) = Some p' \<and> part_grown p p'"
  by (auto simp: spec_part_at_def spec_restart_def split: option.splits if_splits)

lemma produced_holds:
  assumes "spec_step cfg ts (Producing q) S (Inr (RespProduce resp)) S'" "spec_ok S"
  shows "holds_batch S' (prTopic q) (prPartition q) (prBaseOffset resp) (stamp (prBaseOffset resp) ts (map to_record (prRecords q)))"
proof -
  let ?b = "stamp (prBaseOffset resp) ts (map to_record (prRecords q))"
  obtain p where p: "spec_part_at (prTopic q) (prPartition q) S = Some p" "prBaseOffset resp = spEnd p"
    "S' = spec_set_part (prTopic q) (prPartition q) (p\<lparr>spRecords := spRecords p @ ?b\<rparr>) S"
    using assms(1) by (auto simp: spec_produce_def fail_def Let_def split: if_splits option.splits)
  have "unat (spEnd p) = unat (spFirst p) + length (spRecords p)"
    unfolding spEnd_def using assms(2) p(1) by (intro unat_add_u64) (auto simp: spec_ok_def)
  then show ?thesis using p spec_part_at_set [OF p(1)] unfolding holds_batch_def by (auto simp: nth_append)
qed

definition acked_held :: "event list \<Rightarrow> spec \<Rightarrow> bool" where
  "acked_held es S \<longleftrightarrow> (\<forall>ts q resp. Request ts (Producing q) (Inr (RespProduce resp)) \<in> set es \<longrightarrow>
     holds_batch S (prTopic q) (prPartition q) (prBaseOffset resp) (stamp (prBaseOffset resp) ts (map to_record (prRecords q))))"

lemma run_acked:
  assumes "broker_run cfg b es b'" "broker_repr cfg b S"
  shows "\<exists>S'. broker_repr cfg b' S' \<and> acked_held es S'"
proof (rule run_invariant [OF assms])
  show "acked_held [] S" by (simp add: acked_held_def)
next
  fix es S1 ts q r S2 assume S: "spec_ok S1" "acked_held es S1" "spec_step cfg ts q S1 r S2"
  have "holds_batch S1 topic pid base rs \<Longrightarrow> holds_batch S2 topic pid base rs" for topic pid base rs
    using holds_batch_grown step_grows(1) [OF S(3)] by blast
  then show "acked_held (es @ [Request ts q r]) S2"
    using S produced_holds unfolding acked_held_def by auto
next
  fix es S1 S2 assume "spec_ok S1" "acked_held es S1" "spec_retain S1 S2"
  then show "acked_held (es @ [Retained]) S2" using holds_batch_grown step_grows(2) unfolding acked_held_def by auto metis
next
  fix es S1 assume "acked_held es S1"
  then show "acked_held (es @ [Restarted]) (spec_restart S1)" using holds_batch_grown restart_grows unfolding acked_held_def by auto metis
qed

lemma hd_window: "hd (window mb rs) = hd rs"
  by (cases rs) (simp_all add: window_def)

lemma proto_headers [simp]: "map (\<lambda>h. \<lparr>phKey = phKey h, phValue = phValue h\<rparr>) hs = hs"
  by (simp add: map_idI)

lemma fetch_first:
  assumes "spec_fetch f S (Inr (RespFetch resp))" "spec_part_at (frTopic f) (frPartition f) S = Some p" "unat (frOffset f) = unat (spFirst p) + k"
    "k < length (spRecords p)"
  shows "frRecords resp \<noteq> [] \<and> hd (frRecords resp) = to_proto (spRecords p ! k)"
proof -
  let ?w = "window (int (unat (frMaxBytes f))) (drop k (spRecords p))"
  have "frRecords resp = map to_proto ?w" using assms(1-3) by (auto simp: spec_fetch_def fail_def split: if_splits)
  moreover have "?w \<noteq> []" using assms(4) by simp
  ultimately have "hd (frRecords resp) = to_proto (hd (drop k (spRecords p)))" "frRecords resp \<noteq> []" by (simp_all add: hd_map hd_window)
  then show ?thesis using assms(4) by (simp add: hd_drop_conv_nth)
qed


section \<open>Committed offsets\<close>

definition commits_to :: "Key \<Rightarrow> event \<Rightarrow> bool" where
  "commits_to k e \<longleftrightarrow> (\<exists>ts q r. e = Request ts (Committing (Some q)) r \<and> k = \<lparr>kGroup = coConsumerGroup q, kTopic = coTopic q, kPartition = coPartition q\<rparr>)"

lemma step_offsets:
  assumes "spec_step cfg ts q S r S'" "\<not> commits_to k (Request ts q r)"
  shows "sOffsets S' k = sOffsets S k"
proof (cases q)
  case (Committing x)
  then show ?thesis using assms
    by (cases x) (auto simp: spec_commit_def commits_to_def fail_def Let_def split: if_splits option.splits)
next
  case (Producing x)
  then show ?thesis using assms(1) by (auto simp: spec_produce_def spec_set_part_def Let_def split: if_splits option.splits)
next
  case (Creating x)
  have "S' = S \<or> (\<exists>y. S' = S\<lparr>sTopics := y\<rparr>)"
    using assms(1) unfolding Creating spec_step.simps spec_create_def Let_def by (simp split: if_splits) blast+
  then show ?thesis by auto
qed (use assms(1) in auto)

definition offset_kept :: "Key \<Rightarrow> event list \<Rightarrow> spec \<Rightarrow> bool" where
  "offset_kept k es S \<longleftrightarrow> (\<forall>es1 ts q es2. es = es1 @ Request ts (Committing (Some q)) (Inr RespCommit) # es2 \<longrightarrow>
     k = \<lparr>kGroup = coConsumerGroup q, kTopic = coTopic q, kPartition = coPartition q\<rparr> \<longrightarrow> (\<forall>e \<in> set es2. \<not> commits_to k e) \<longrightarrow>
     sOffsets S k = Some (coNextOffset q))"

lemma offset_kept_snoc:
  assumes "offset_kept k es S" "\<not> commits_to k e" "sOffsets S' k = sOffsets S k"
  shows "offset_kept k (es @ [e]) S'"
  unfolding offset_kept_def
proof (intro allI impI)
  fix es1 ts q es2
  assume eq: "es @ [e] = es1 @ Request ts (Committing (Some q)) (Inr RespCommit) # es2"
    and k: "k = \<lparr>kGroup = coConsumerGroup q, kTopic = coTopic q, kPartition = coPartition q\<rparr>" and no: "\<forall>e \<in> set es2. \<not> commits_to k e"
  have "es2 \<noteq> []" using eq assms(2) k by (auto simp: commits_to_def)
  then obtain es3 where "es2 = es3 @ [e]" "es = es1 @ Request ts (Committing (Some q)) (Inr RespCommit) # es3"
    using eq by (cases es2 rule: rev_cases) auto
  then show "sOffsets S' k = Some (coNextOffset q)" using assms(1,3) k no unfolding offset_kept_def by auto
qed

lemma run_committed:
  assumes "broker_run cfg b es b'" "broker_repr cfg b S"
  shows "\<exists>S'. broker_repr cfg b' S' \<and> offset_kept k es S'"
proof (rule run_invariant [OF assms])
  show "offset_kept k [] S" by (simp add: offset_kept_def)
next
  fix es S1 ts q r S2 assume S: "spec_ok S1" "offset_kept k es S1" "spec_step cfg ts q S1 r S2"
  show "offset_kept k (es @ [Request ts q r]) S2"
  proof (cases "commits_to k (Request ts q r)")
    case False
    then show ?thesis using offset_kept_snoc [OF S(2)] step_offsets [OF S(3)] by blast
  next
    case True
    then obtain x where x: "q = Committing (Some x)" "k = \<lparr>kGroup = coConsumerGroup x, kTopic = coTopic x, kPartition = coPartition x\<rparr>"
      by (auto simp: commits_to_def)
    have "sOffsets S2 k = Some (coNextOffset x)" if "r = Inr RespCommit"
      using S(3) that x(2) unfolding x(1) by (auto simp: spec_commit_def fail_def Let_def split: if_splits option.splits)
    moreover have "es2 = [] \<and> r = Inr RespCommit \<and> y = x"
      if "es @ [Request ts q r] = es1 @ Request ts' (Committing (Some y)) (Inr RespCommit) # es2" "\<forall>e \<in> set es2. \<not> commits_to k e" for es1 ts' y es2
      using that True x(1) by (cases es2 rule: rev_cases) auto
    ultimately show ?thesis unfolding offset_kept_def by blast
  qed
next
  fix es S1 S2 assume "offset_kept k es S1" "spec_retain S1 S2"
  moreover from this have "sOffsets S2 k = sOffsets S1 k" unfolding spec_retain_def by (metis spec.select_convs(3) spec.surjective spec.update_convs(1))
  ultimately show "offset_kept k (es @ [Retained]) S2" using offset_kept_snoc by (auto simp: commits_to_def)
next
  fix es S1 assume "offset_kept k es S1"
  then show "offset_kept k (es @ [Restarted]) (spec_restart S1)" using offset_kept_snoc by (auto simp: commits_to_def spec_restart_def)
qed

text \<open>
  C3. An acknowledged commit is what its consumer group finds: after a commit was acknowledged and as long as
  no other commit for the group, the topic and the partition follows, every answer to a request for the
  committed offset is that offset, whatever else happens, restarts included.
\<close>

theorem acked_commit_durable:
  assumes "broker_run cfg b (es1 @ Request ts (Committing (Some q)) (Inr RespCommit) # es2) b'" "broker_repr cfg b S"
    and "\<forall>ts' q' r'. Request ts' (Committing (Some q')) r' \<in> set es2 \<longrightarrow>
      (coConsumerGroup q', coTopic q', coPartition q') \<noteq> (coConsumerGroup q, coTopic q, coPartition q)"
    and "serve ts' (Committed (Some f)) b' = (Inr (RespCommitted resp), b2)"
    and "fcConsumerGroup f = coConsumerGroup q" "fcTopic f = coTopic q" "fcPartition f = coPartition q"
  shows "resp = \<lparr>fcFound = True, fcNextOffset = coNextOffset q\<rparr>"
proof -
  let ?k = "\<lparr>kGroup = coConsumerGroup q, kTopic = coTopic q, kPartition = coPartition q\<rparr>"
  obtain S' where S': "broker_repr cfg b' S'" "offset_kept ?k (es1 @ Request ts (Committing (Some q)) (Inr RespCommit) # es2) S'"
    using run_committed [OF assms(1,2)] by blast
  have "\<forall>e \<in> set es2. \<not> commits_to ?k e" using assms(3) by (fastforce simp: commits_to_def)
  then have "sOffsets S' ?k = Some (coNextOffset q)" using S'(2) unfolding offset_kept_def by blast
  moreover have "spec_committed (Some f) S' (Inr (RespCommitted resp))"
    using Committed_refines [OF S'(1), of ts' "Some f"] assms(4) by (simp del: serve.simps)
  ultimately show ?thesis using assms(5-7) by (auto simp: spec_committed_def fail_def split: if_splits option.splits)
qed

section \<open>Without failures\<close>

text \<open>A partition in service whose directory does not fail.\<close>

definition part_calm :: "gostring \<Rightarrow> u32 \<Rightarrow> Broker \<Rightarrow> bool" where
  "part_calm topic pid b \<longleftrightarrow> (\<forall>l. GetPartition topic pid (bManager b) = Inr l \<longrightarrow> faults (logDisk l) = [])"

definition request_fits :: "Config \<Rightarrow> i64 \<Rightarrow> ProduceRequest \<Rightarrow> spec_part \<Rightarrow> bool" where
  "request_fits cfg ts q p \<longleftrightarrow> prRecords q \<noteq> [] \<and> (\<forall>x \<in> set (prRecords q). recordPayloadSize x \<le> scMaxRecordBytes (cStorage cfg)) \<and>
     int (length (batch_bytes (stamp (spEnd p) ts (map to_record (prRecords q))))) \<le> scMaxBatchBytes (cStorage cfg)"

lemma part_at:
  assumes "broker_repr cfg b S" "spec_part_at topic pid S = Some p" "spServing p"
  obtains l where "GetPartition topic pid (bManager b) = Inr l" "log_serves (scMaxBatchBytes (cStorage cfg)) l (spFirst p) (spRecords p)"
    "LogLogEndOffset l = spEnd p"
proof -
  obtain l where l: "GetPartition topic pid (bManager b) = Inr l" "part_repr (scMaxBatchBytes (cStorage cfg)) l p"
    using resolve_repr [OF assms(1), of topic pid] assms(2) by auto
  moreover from this have "log_serves (scMaxBatchBytes (cStorage cfg)) l (spFirst p) (spRecords p)" using assms(3) by (simp add: part_repr_def)
  ultimately show thesis using serves_end(1) that by (simp add: spEnd_def)
qed

lemma produce_ok:
  assumes rep: "broker_repr cfg b S" and p: "spec_part_at (prTopic q) (prPartition q) S = Some p" "spServing p"
    and calm: "part_calm (prTopic q) (prPartition q) b" and fits: "batch_fits ts q b" "request_fits cfg ts q p"
  shows "\<exists>b'. serve ts (Producing q) b = (Inr (RespProduce \<lparr>prBaseOffset = spEnd p, prLastOffset = spEnd p + of_nat (length (prRecords q)) - 1,
      prRecordCount = of_nat (length (prRecords q))\<rparr>), b') \<and>
    broker_repr cfg b' (spec_set_part (prTopic q) (prPartition q) (p\<lparr>spRecords := spRecords p @ stamp (spEnd p) ts (map to_record (prRecords q))\<rparr>) S) \<and>
    part_calm (prTopic q) (prPartition q) b'"
proof -
  let ?recs = "map to_record (prRecords q)"
  obtain l where l: "GetPartition (prTopic q) (prPartition q) (bManager b) = Inr l" "log_serves (scMaxBatchBytes (cStorage cfg)) l (spFirst p) (spRecords p)"
    "LogLogEndOffset l = spEnd p" by (rule part_at [OF rep p])
  obtain r l' where app: "LogAppend ts ?recs l = (r, l')" by fastforce
  have room: "log_room ts ?recs l" and ne: "prRecords q \<noteq> []" using fits l(1) by (auto simp: batch_fits_def request_fits_def)
  have acc: "log_accepts ts ?recs l" using room fits(2) l(2,3) by (auto simp: log_accepts_def request_fits_def log_serves_def)
  have A: "faults (logDisk l') = []" "r = Inr (spEnd p, spEnd p + of_nat (length ?recs) - 1)"
    using LogAppend_ok(2) [OF serves_healthy [OF l(2)] room app _ acc] calm l(1,3) by (auto simp: part_calm_def)
  have "scMaxRecordBytes (bStorageCfg b) = scMaxRecordBytes (cStorage cfg)" using rep by (simp add: broker_repr_def config_in_force_def Let_def)
  then have sz: "\<not> (\<exists>x \<in> set (prRecords q). recordPayloadSize x > scMaxRecordBytes (bStorageCfg b))" using fits(2) by (auto simp: request_fits_def)
  note P = Produce_result [OF ne l(1) app sz]
  obtain S' where S': "spec_step cfg ts (Producing q) S (fst (serve ts (Producing q) b)) S'" "broker_repr cfg (snd (serve ts (Producing q) b)) S'"
    using Produce_refines [OF rep fits(1)] by blast
  have res: "fst (serve ts (Producing q) b) = Inr (RespProduce \<lparr>prBaseOffset = spEnd p, prLastOffset = spEnd p + of_nat (length (prRecords q)) - 1,
      prRecordCount = of_nat (length (prRecords q))\<rparr>)"
    using P(1) A(2) by (simp del: serve.simps)
  have "S' = spec_set_part (prTopic q) (prPartition q) (p\<lparr>spRecords := spRecords p @ stamp (spEnd p) ts ?recs\<rparr>) S"
    using S'(1) p(1) unfolding res by (auto simp: spec_produce_def fail_def Let_def split: if_splits)
  moreover have "part_calm (prTopic q) (prPartition q) (snd (serve ts (Producing q) b))"
    using P(2) A(1) GetPartition_set [OF l(1), of l'] by (auto simp: part_calm_def set_log_def simp del: serve.simps)
  ultimately show ?thesis using S'(2) res by (intro exI [of _ "snd (serve ts (Producing q) b)"]) (simp add: prod_eq_iff del: serve.simps)
qed

lemma fetch_ok:
  assumes rep: "broker_repr cfg b S" and p: "spec_part_at (frTopic f) (frPartition f) S = Some p" "spServing p"
    and calm: "part_calm (frTopic f) (frPartition f) b" and rng: "frMaxBytes f \<noteq> 0" "spFirst p \<le> frOffset f" "frOffset f \<le> spEnd p"
  shows "\<exists>b'. serve ts (Fetching f) b = (Inr (RespFetch \<lparr>frRecords = map to_proto (window (int (unat (frMaxBytes f)))
        (drop (unat (frOffset f) - unat (spFirst p)) (spRecords p))), frEarliestOffset = spFirst p, frLogEndOffset = spEnd p\<rparr>), b') \<and>
      broker_repr cfg b' S \<and> part_calm (frTopic f) (frPartition f) b'"
proof -
  obtain l where l: "GetPartition (frTopic f) (frPartition f) (bManager b) = Inr l" "log_serves (scMaxBatchBytes (cStorage cfg)) l (spFirst p) (spRecords p)"
    by (rule part_at [OF rep p])
  obtain r l' where rd: "LogRead (frOffset f) (int (unat (frMaxBytes f))) l = (r, l')" by fastforce
  have "unat (frMaxBytes f) \<noteq> 0" using rng(1) by (simp add: unat_eq_zero)
  then have pos: "0 < int (unat (frMaxBytes f))" by (simp only: of_nat_0_less_iff neq0_conv)
  have fl: "faults (logDisk l) = []" using calm l(1) by (simp add: part_calm_def)
  have R: "r = Inr (window (int (unat (frMaxBytes f))) (drop (unat (frOffset f) - unat (spFirst p)) (spRecords p)))" "faults (logDisk l') = []"
    using read_serves(4) [OF l(2) pos rd rng(2) _ fl] rng(3) by (simp_all add: spEnd_def)
  have ser: "log_serves (scMaxBatchBytes (cStorage cfg)) l' (spFirst p) (spRecords p)" by (rule read_serves(1) [OF l(2) pos rd])
  have ends: "LogEarliestOffset l' = spFirst p" "LogLogEndOffset l' = spEnd p" using ser serves_end(1) [OF ser] by (simp_all add: log_serves_def spEnd_def)
  note F = Fetch_result [OF rng(1) l(1) rd, of ts]
  have "part_calm (frTopic f) (frPartition f) (snd (serve ts (Fetching f) b))"
    using F(2) R(2) GetPartition_set [OF l(1), of l'] by (auto simp: part_calm_def set_log_def simp del: serve.simps)
  then show ?thesis using F(1) R(1) ends Fetch_refines [OF rep, of ts f]
    by (intro exI [of _ "snd (serve ts (Fetching f) b)"]) (simp add: prod_eq_iff del: serve.simps)
qed


section \<open>A broker with one topic\<close>

definition sample_cfg :: Config where
  "sample_cfg = DefaultConfig
     \<lparr>cStorage := \<lparr>scDataDirectory = str ''./data'', scMaxRecordBytes = 512, scMaxBatchBytes = 512, scSegmentMaxBytes = 1024,
        scIndexIntervalBytes = 64, scFlushMode = sync_mode\<rparr>,
      cRetention := (cRetention DefaultConfig)\<lparr>rcDefaultMaxAge := 60 * Second, rcDefaultMaxPartitionBytes := 1000\<rparr>\<rparr>"

definition sample_broker :: Broker where
  "sample_broker = \<lparr>bManager = busy_manager, bDataDir = busy_data_dir,
     bOffsets = \<lparr>filePath = offsetsFile, offsets = Map.empty, oSize = 0, oClosed = False, oWriteFailed = False\<rparr>,
     bOffsetsDir = \<lparr>files = [(offsetsFile, [])], flushed = [], entries = [], faults = []\<rparr>,
     bStorageCfg = cStorage sample_cfg, bMetrics = Some []\<rparr>"

definition sample_part :: spec_part where
  "sample_part = \<lparr>spServing = True, spFirst = 7, spRecords = sample_batch\<rparr>"

definition sample_spec :: spec where
  "sample_spec = \<lparr>sTopics = [str ''a.b'' \<mapsto> (no_limits, [sample_part])], sOffServing = True, sOffsets = Map.empty\<rparr>"

definition sample_request :: ProduceRequest where
  "sample_request = \<lparr>prTopic = str ''a.b'', prPartition = 0, prRecords = [\<lparr>pbKey = None, pbValue = Some [1], pbHeaders = [], pbTimestamp = 0\<rparr>]\<rparr>"

definition sample_commit_request :: CommitOffsetRequest where
  "sample_commit_request = \<lparr>coConsumerGroup = [103], coTopic = str ''a.b'', coPartition = 0, coNextOffset = 8\<rparr>"

lemma sample_serves: "log_serves 512 \<lparr>logStore = sample_store, logDisk = sample_disk\<rparr> 7 sample_batch"
  unfolding log_serves_def using sample_repr sample_clean(1) sample_bss
  by (intro conjI exI [of _ "[[sample_batch], []]"]) (simp_all add: kept_def sample_fields LogEarliestOffset_def EarliestOffset_def)

lemma sample_broker_repr: "broker_repr sample_cfg sample_broker sample_spec"
proof -
  have "config_in_force sample_cfg sample_broker"
    by (simp add: config_in_force_def Let_def sample_cfg_def sample_broker_def busy_manager_def sample_manager_def seconds_of_def Second_def sint_small)
  moreover have "rel_option (topic_repr 512) (map_of (mTopics busy_manager) name) (sTopics sample_spec name)" for name
    using sample_serves by (simp add: busy_manager_def sample_spec_def topic_repr_def sample_topic_def part_repr_def sample_part_def)
  moreover have "offs_repr (bOffsets sample_broker) (bOffsetsDir sample_broker) True Map.empty"
    unfolding offs_repr_def by (auto simp: sample_broker_def offsets_repr_def content_def intro!: exI [of _ "[]"])
  ultimately show ?thesis using busy_manager_ok by (simp add: broker_repr_def sample_broker_def sample_spec_def sample_cfg_def)
qed

lemma sample_partition: "GetPartition (str ''a.b'') 0 busy_manager = Inr \<lparr>logStore = sample_store, logDisk = sample_disk\<rparr>"
  by (simp add: GetPartition_def Partition_def busy_manager_def sample_topic_def)

lemma sample_at: "spec_part_at (str ''a.b'') 0 sample_spec = Some sample_part" "spEnd sample_part = 9"
  by (simp_all add: spec_part_at_def sample_spec_def spEnd_def sample_part_def sample_batch_def)

lemma sample_request_fields: "prTopic sample_request = str ''a.b''" "prPartition sample_request = 0"
  "map to_record (prRecords sample_request) = sample_recs" "length (prRecords sample_request) = 1" "prRecords sample_request \<noteq> []"
  by (simp_all add: sample_request_def to_record_def sample_recs_def)

lemma sample_fits: "batch_fits 5 sample_request sample_broker" "request_fits sample_cfg 5 sample_request sample_part"
  "part_calm (str ''a.b'') 0 sample_broker"
proof -
  show "batch_fits 5 sample_request sample_broker"
    using sample_append_ok sample_clean(2)
    by (simp add: batch_fits_def sample_request_fields sample_broker_def sample_partition log_room_def LogLogEndOffset_def sample_fields LogEndOffset_def)
  show "request_fits sample_cfg 5 sample_request sample_part"
    by (simp add: request_fits_def sample_request_fields sample_at sample_append_length sample_cfg_def) (simp add: sample_request_def recordPayloadSize_def)
  show "part_calm (str ''a.b'') 0 sample_broker" by (simp add: part_calm_def sample_broker_def sample_partition sample_fields)
qed

lemma pid_in_range:
  assumes "\<not> of_nat n \<le> (pid :: u32)"
  shows "unat pid < n"
proof -
  have "unat pid < unat (of_nat n :: u32)" using assms by (simp add: word_less_nat_alt not_le)
  also have "\<dots> \<le> n" by (simp add: unat_of_nat)
  finally show ?thesis .
qed

lemma refault_calm: "part_calm topic pid (refault (\<lambda>_ _. []) meta offs new b)"
  by (auto dest!: pid_in_range simp: part_calm_def refault_def GetPartition_def Partition_def map_of_map_key nth_enumerate_eq split: option.splits if_splits)

text \<open>The batch is acknowledged, the process stops, and the next one serves the batch.\<close>

lemma sample_run:
  obtains b' b2 fetched where
    "broker_run sample_cfg sample_broker [Request 5 (Producing sample_request) (Inr (RespProduce \<lparr>prBaseOffset = 9, prLastOffset = 9, prRecordCount = 1\<rparr>)), Restarted] b'"
    "serve 6 (Fetching \<lparr>frTopic = str ''a.b'', frPartition = 0, frOffset = 9, frMaxBytes = 100\<rparr>) b' = (Inr (RespFetch fetched), b2)"
proof -
  let ?r = "Inr (RespProduce \<lparr>prBaseOffset = 9, prLastOffset = 9, prRecordCount = 1\<rparr>)" and ?o = "\<lambda>meta. map fst (the meta)"
  let ?p = "sample_part\<lparr>spRecords := sample_batch @ stamp 9 5 sample_recs\<rparr>"
  let ?f = "\<lparr>frTopic = str ''a.b'', frPartition = 0, frOffset = 9, frMaxBytes = 100\<rparr> :: FetchRequest"
  have sp: "spServing sample_part" "spRecords sample_part = sample_batch" by (simp_all add: sample_part_def)
  obtain b1 where b1: "serve 5 (Producing sample_request) sample_broker = (?r, b1)" "broker_repr sample_cfg b1 (spec_set_part (str ''a.b'') 0 ?p sample_spec)"
    using produce_ok [OF sample_broker_repr, of sample_request sample_part 5] sample_fits sample_at sp by (auto simp: sample_request_fields simp del: serve.simps)
  have it: "iterates ?o" by (simp add: iterates_def)
  obtain b2 fs od where b2: "restart ?o sample_cfg b1 = (Inr b2, fs, od)" "broker_repr sample_cfg b2 (spec_restart (spec_set_part (str ''a.b'') 0 ?p sample_spec))"
    using restart_refines [OF b1(2) it] by blast
  let ?b = "refault (\<lambda>_ _. []) [] [] (\<lambda>_. []) b2"
  have run: "broker_run sample_cfg sample_broker ([] @ [Request 5 (Producing sample_request) ?r]) b1"
    using sample_fits(1) b1(1) by (intro broker_run.request [OF broker_run.begin_]) (simp_all del: serve.simps)
  have run: "broker_run sample_cfg sample_broker (([] @ [Request 5 (Producing sample_request) ?r]) @ [Restarted]) ?b"
    by (rule broker_run.faults [OF broker_run.restart [OF run it b2(1)]])
  have at: "spec_part_at (frTopic ?f) (frPartition ?f) (spec_restart (spec_set_part (str ''a.b'') 0 ?p sample_spec)) = Some ?p"
    by (simp add: spec_part_at_def spec_restart_def spec_set_part_def sample_spec_def sample_part_def)
  have rng: "spFirst ?p \<le> frOffset ?f" "frOffset ?f \<le> spEnd ?p"
    by (simp_all add: spEnd_def sample_part_def sample_batch_def sample_recs_def)
  have ne: "frMaxBytes ?f \<noteq> 0" "spServing ?p" using sp(1) by simp_all
  have "\<exists>fetched b3. serve 6 (Fetching ?f) ?b = (Inr (RespFetch fetched), b3)"
    using fetch_ok [OF refault_repr [OF b2(2)] at ne(2) refault_calm ne(1) rng, where ts = 6] by blast
  then show thesis using that run by auto
qed

lemma sample_resolved: "GetPartition (str ''a.b'') 0 (bManager sample_broker) = Inr \<lparr>logStore = sample_store, logDisk = sample_disk\<rparr>"
  using sample_partition by (simp add: sample_broker_def)

lemma sample_ends: "LogEarliestOffset \<lparr>logStore = sample_store, logDisk = sample_disk\<rparr> = 7" "LogLogEndOffset \<lparr>logStore = sample_store, logDisk = sample_disk\<rparr> = 9"
  by (simp_all add: LogEarliestOffset_def LogLogEndOffset_def EarliestOffset_def LogEndOffset_def sample_fields)

lemma sample_commit_acked: "fst (Commit 5 [103] (str ''a.b'') 0 8 (bOffsets sample_broker) (bOffsetsDir sample_broker)) = None"
proof -
  have "commit_ok (commit_key [103] (str ''a.b'') 0, 8, 5)"
    unfolding commit_key_def by (rule commit_ok_ascii) (simp_all add: str_def)
  moreover have "offsets_repr (bOffsets sample_broker) (bOffsetsDir sample_broker) []"
    by (simp add: sample_broker_def offsets_repr_def content_def)
  ultimately show ?thesis using Commit_ok [of "bOffsets sample_broker" "bOffsetsDir sample_broker" "[]" "[103]" "str ''a.b''" 0 8 5]
    by (auto simp: sample_broker_def)
qed

lemma sample_commit_run:
  obtains b' where
    "broker_run sample_cfg sample_broker [Request 5 (Committing (Some sample_commit_request)) (Inr RespCommit), Restarted] b'"
    "\<exists>resp b2. serve 6 (Committed (Some \<lparr>fcConsumerGroup = [103], fcTopic = str ''a.b'', fcPartition = 0\<rparr>)) b' = (Inr (RespCommitted resp), b2)"
proof -
  let ?q = sample_commit_request and ?o = "\<lambda>meta. map fst (the meta)"
  have q: "coConsumerGroup ?q = [103]" "coTopic ?q = str ''a.b''" "coPartition ?q = 0" "coNextOffset ?q = 8" by (simp_all add: sample_commit_request_def)
  have "fst (serve 5 (Committing (Some ?q)) sample_broker) = Inr RespCommit"
    using sample_commit_acked
    by (simp add: CommitOffset_def q resolve_def sample_resolved log_now_def sample_ends quiet_def inc_def map_reply_def Let_def split_def)
  then obtain b1 where b1: "serve 5 (Committing (Some ?q)) sample_broker = (Inr RespCommit, b1)" by (metis prod.collapse)
  obtain S1 where S1: "spec_step sample_cfg 5 (Committing (Some ?q)) sample_spec (Inr RespCommit) S1" "broker_repr sample_cfg b1 S1"
    using Commit_refines [OF sample_broker_repr, of 5 "Some ?q"] b1 by (auto simp del: serve.simps spec_step.simps)
  have it: "iterates ?o" by (simp add: iterates_def)
  obtain b2 fs od where b2: "restart ?o sample_cfg b1 = (Inr b2, fs, od)" "broker_repr sample_cfg b2 (spec_restart S1)"
    using restart_refines [OF S1(2) it] by blast
  have run: "broker_run sample_cfg sample_broker ([] @ [Request 5 (Committing (Some ?q)) (Inr RespCommit)]) b1"
    using b1 by (intro broker_run.request [OF broker_run.begin_]) (simp_all del: serve.simps)
  have S1t: "sTopics S1 = sTopics sample_spec" using S1(1) by (auto simp: spec_commit_def fail_def Let_def split: option.splits if_splits)
  have at: "spec_part_at (str ''a.b'') 0 (spec_restart S1) \<noteq> None"
    by (simp add: spec_part_at_def spec_restart_def S1t) (simp add: sample_spec_def)
  let ?f = "\<lparr>fcConsumerGroup = [103], fcTopic = str ''a.b'', fcPartition = 0\<rparr>"
  have "spec_committed (Some ?f) (spec_restart S1) (fst (serve 6 (Committed (Some ?f)) b2))"
    using Committed_refines [OF b2(2), of 6 "Some ?f"] by (simp del: serve.simps)
  then have "\<exists>resp. fst (serve 6 (Committed (Some ?f)) b2) = Inr (RespCommitted resp)"
    using at by (auto simp: spec_committed_def spec_restart_def simp del: serve.simps)
  then have "\<exists>resp b3. serve 6 (Committed (Some ?f)) b2 = (Inr (RespCommitted resp), b3)" by (metis prod.collapse)
  then show thesis using broker_run.restart [OF run it b2(1)] by (intro that) (simp_all del: serve.simps)
qed




theorem acked_commit_durable_witness:
  "\<exists>es b' b2. broker_run sample_cfg sample_broker es b' \<and> Restarted \<in> set es \<and>
    serve 6 (Committed (Some \<lparr>fcConsumerGroup = [103], fcTopic = str ''a.b'', fcPartition = 0\<rparr>)) b' =
      (Inr (RespCommitted \<lparr>fcFound = True, fcNextOffset = 8\<rparr>), b2)"
proof -
  obtain b' where r: "broker_run sample_cfg sample_broker ([] @ Request 5 (Committing (Some sample_commit_request)) (Inr RespCommit) # [Restarted]) b'"
    "\<exists>resp b2. serve 6 (Committed (Some \<lparr>fcConsumerGroup = [103], fcTopic = str ''a.b'', fcPartition = 0\<rparr>)) b' = (Inr (RespCommitted resp), b2)"
    by (rule sample_commit_run) simp
  then obtain resp b2 where s: "serve 6 (Committed (Some \<lparr>fcConsumerGroup = [103], fcTopic = str ''a.b'', fcPartition = 0\<rparr>)) b' = (Inr (RespCommitted resp), b2)"
    by blast
  have "resp = \<lparr>fcFound = True, fcNextOffset = 8\<rparr>"
    using acked_commit_durable [OF r(1) sample_broker_repr _ s] by (simp add: sample_commit_request_def)
  then show ?thesis using r(1) s by fastforce
qed

end
