(* ===== verification/Interleaving.thy ===== *)
theory Interleaving
  imports Broker_Contract
begin

text \<open>
  Handlers that run at the same time: each call of a store holds its lock, and between two calls of a handler
  other requests and retention may run. What a handler answers is still consistent with the logs.
\<close>

section \<open>Interference\<close>

text \<open>What may happen in the gaps of a handler: any run of the broker in the same process.\<close>

definition interferes :: "Config \<Rightarrow> (nat \<Rightarrow> Broker \<Rightarrow> Broker) \<Rightarrow> bool" where
  "interferes cfg others \<longleftrightarrow> (\<forall>i b. \<exists>es. broker_run cfg b es (others i b) \<and> Restarted \<notin> set es)"

definition part_later :: "spec_part \<Rightarrow> spec_part \<Rightarrow> bool" where
  "part_later p p' \<longleftrightarrow> unat (spFirst p) \<le> unat (spFirst p') \<and>
     unat (spFirst p) + length (spRecords p) \<le> unat (spFirst p') + length (spRecords p') \<and> (spServing p' \<longrightarrow> spServing p)"

definition spec_later :: "spec \<Rightarrow> spec \<Rightarrow> bool" where
  "spec_later S S' \<longleftrightarrow> (\<forall>topic pid p. spec_part_at topic pid S = Some p \<longrightarrow>
     (\<exists>p'. spec_part_at topic pid S' = Some p' \<and> part_later p p'))"

lemma part_step_later: "part_step p p' \<Longrightarrow> part_later p p'"
  by (auto simp: part_step_def part_grown_def part_later_def)

lemma spec_later_refl [simp]: "spec_later S S"
  by (simp add: spec_later_def part_later_def)

lemma spec_later_trans: "spec_later S S1 \<Longrightarrow> spec_later S1 S2 \<Longrightarrow> spec_later S S2"
  unfolding spec_later_def part_later_def by (meson le_trans)

lemma spec_laterD: "spec_later S S' \<Longrightarrow> spec_part_at topic pid S = Some p \<Longrightarrow> \<exists>p'. spec_part_at topic pid S' = Some p' \<and> part_later p p'"
  by (simp add: spec_later_def)

lemma run_later:
  assumes "broker_run cfg b es b'" "broker_repr cfg b S" "Restarted \<notin> set es"
  shows "\<exists>S'. broker_repr cfg b' S' \<and> spec_later S S'"
proof -
  have "\<exists>S'. broker_repr cfg b' S' \<and> (Restarted \<notin> set es \<longrightarrow> spec_later S S')"
  proof (rule run_invariant [OF assms(1,2)])
    fix es S1 ts q r S2 assume S: "spec_step cfg ts q S1 r S2" and I: "Restarted \<notin> set es \<longrightarrow> spec_later S S1"
    have "spec_later S1 S2" unfolding spec_later_def using step_parts [OF S] part_step_later by blast
    then show "Restarted \<notin> set (es @ [Request ts q r]) \<longrightarrow> spec_later S S2" using I spec_later_trans by auto
  next
    fix es S1 S2 assume S: "spec_retain S1 S2" "spec_ok S1" and I: "Restarted \<notin> set es \<longrightarrow> spec_later S S1"
    have "spec_later S1 S2" unfolding spec_later_def using retain_parts [OF S] part_step_later by blast
    then show "Restarted \<notin> set (es @ [Retained]) \<longrightarrow> spec_later S S2" using I spec_later_trans by auto
  qed simp_all
  then show ?thesis using assms(3) by blast
qed

lemma gap:
  assumes "broker_repr cfg b S" "interferes cfg others"
  obtains S' where "broker_repr cfg (others i b) S'" "spec_later S S'"
  using assms run_later unfolding interferes_def by meson

lemma log_now_repr:
  assumes "broker_repr cfg b S" "spec_part_at topic pid S = Some p"
  obtains l' where "GetPartition topic pid (bManager b) = Inr l'" "log_now topic pid l b = l'" "part_repr (scMaxBatchBytes (cStorage cfg)) l' p"
    "spServing p \<Longrightarrow> LogEarliestOffset l' = spFirst p \<and> LogLogEndOffset l' = spEnd p"
proof -
  let ?mb = "scMaxBatchBytes (cStorage cfg)"
  obtain l' where l: "GetPartition topic pid (bManager b) = Inr l'" "part_repr ?mb l' p"
    using resolve_repr [OF assms(1), of topic pid] assms(2) by auto
  moreover have "spServing p \<Longrightarrow> LogEarliestOffset l' = spFirst p \<and> LogLogEndOffset l' = spEnd p"
    using l(2) serves_end(1) [of ?mb l' "spFirst p" "spRecords p"] by (simp add: part_repr_def log_serves_def spEnd_def)
  ultimately show thesis using that by (simp add: log_now_def)
qed

lemma unat_spEnd:
  assumes "broker_repr cfg b S" "spec_part_at topic pid S = Some p"
  shows "unat (spEnd p) = unat (spFirst p) + length (spRecords p)"
  unfolding spEnd_def using repr_ok [OF assms(1)] assms(2) by (intro unat_add_u64) (auto simp: spec_ok_def)

section \<open>CommitOffset\<close>

text \<open>
  C5. \<^verbatim>\<open>CommitOffset\<close> reads the bounds of the log and then commits, without a lock over both. Whatever other
  requests and retention do in between, an acknowledged offset is the committed one when the handler
  returns, and it is not beyond the end of a log that is in service: no consumer resumes behind the end.
  The broker is in a state of the specification, so the other requests have lost nothing either.
\<close>

theorem commit_interleaved:
  assumes "broker_repr cfg b S" "interferes cfg others" "CommitOffset others ts (Some q) b = (Inr (), b')"
  shows "\<exists>S' p. broker_repr cfg b' S' \<and> spec_later S S' \<and> spec_part_at (coTopic q) (coPartition q) S' = Some p \<and>
    sOffsets S' \<lparr>kGroup = coConsumerGroup q, kTopic = coTopic q, kPartition = coPartition q\<rparr> = Some (coNextOffset q) \<and>
    (spServing p \<longrightarrow> coNextOffset q \<le> spEnd p)"
proof -
  let ?k = "\<lparr>kGroup = coConsumerGroup q, kTopic = coTopic q, kPartition = coPartition q\<rparr>"
  let ?t = "coTopic q" and ?n = "coPartition q"
  let ?b0 = "others 0 b" let ?b1 = "others 1 ?b0" let ?b2 = "others 2 ?b1"
  obtain S0 where S0: "broker_repr cfg ?b0 S0" "spec_later S S0" by (rule gap [OF assms(1,2)])
  obtain S1 where S1: "broker_repr cfg ?b1 S1" "spec_later S0 S1" by (rule gap [OF S0(1) assms(2)])
  obtain S2 where S2: "broker_repr cfg ?b2 S2" "spec_later S1 S2" by (rule gap [OF S1(1) assms(2)])
  obtain l where l: "resolve ?t ?n b = Inr l" using assms(3) by (auto simp: CommitOffset_def inc_def split: if_splits sum.splits)
  then obtain p where p: "spec_part_at ?t ?n S = Some p" using resolve_repr [OF assms(1), of ?t ?n] by (cases "spec_part_at ?t ?n S") auto
  obtain p1 where p1: "spec_part_at ?t ?n S1 = Some p1" using spec_laterD [OF spec_later_trans [OF S0(2) S1(2)] p] by blast
  obtain p2 where p2: "spec_part_at ?t ?n S2 = Some p2" "part_later p1 p2" using spec_laterD [OF S2(2) p1] by blast
  obtain r s d where com: "Commit ts (coConsumerGroup q) ?t ?n (coNextOffset q) (bOffsets ?b2) (bOffsetsDir ?b2) = (r, s, d)" by (metis surj_pair)
  obtain l1 where l1: "log_now ?t ?n l ?b1 = l1" "spServing p1 \<Longrightarrow> LogLogEndOffset l1 = spEnd p1" by (rule log_now_repr [OF S1(1) p1]) blast
  have res: "r = None" "coNextOffset q \<le> LogLogEndOffset l1" "\<exists>ms. b' = ?b2\<lparr>bOffsets := s, bOffsetsDir := d, bMetrics := ms\<rparr>"
    using assms(3) l com l1(1) by (auto simp: CommitOffset_def inc_def Let_def not_less split: if_splits option.splits)
  have offs: "offs_repr (bOffsets ?b2) (bOffsetsDir ?b2) (sOffServing S2) (sOffsets S2)" using S2(1) by (simp add: broker_repr_def)
  have acked: "offs_repr s d True ((sOffsets S2)(?k \<mapsto> coNextOffset q))" "sOffServing S2" "filePath s = filePath (bOffsets ?b2)"
    using commit_step [OF offs com refl] res(1) by auto
  let ?S = "S2\<lparr>sOffsets := (sOffsets S2)(?k \<mapsto> coNextOffset q)\<rparr>"
  have "broker_repr cfg b' ?S" using S2(1) acked res(3) by (auto simp: broker_repr_def config_in_force_def)
  moreover have "spec_part_at topic pid ?S = spec_part_at topic pid S2" for topic pid by (simp add: spec_part_at_def)
  moreover have "spServing p2 \<longrightarrow> coNextOffset q \<le> spEnd p2"
    using p2(2) l1(2) res(2) unat_spEnd [OF S1(1) p1] unat_spEnd [OF S2(1) p2(1)] by (auto simp: part_later_def word_le_nat_alt)
  ultimately show ?thesis using spec_later_trans [OF spec_later_trans [OF S0(2) S1(2)] S2(2)] p2(1)
    by (intro exI [of _ ?S] exI [of _ p2]) (simp add: spec_later_def)
qed

lemma window_length: "length (window mx rs) \<le> length rs"
proof -
  obtain zs where "rs = window mx rs @ zs" using window_prefix by blast
  then have "length rs = length (window mx rs) + length zs" by (metis length_append)
  then show ?thesis by simp
qed

section \<open>Fetch\<close>


section \<open>Requests beside the retention worker\<close>

text \<open>The retention worker runs in the last gap of a handler.\<close>

definition worker :: "nat \<Rightarrow> Broker \<Rightarrow> Broker" where
  "worker i b = (if i = 2 then retention_run (\<lambda>_ _. 1000) None [str ''a.b''] b else b)"

lemma worker_interferes: "interferes cfg worker"
  unfolding interferes_def
proof (intro allI)
  fix i b
  have "broker_run cfg b ([] @ [Retained]) (retention_run (\<lambda>_ _. 1000) None [str ''a.b''] b)" by (rule broker_run.retain [OF broker_run.begin_])
  moreover have "broker_run cfg b [] b" by (rule broker_run.begin_)
  ultimately show "\<exists>es. broker_run cfg b es (worker i b) \<and> Restarted \<notin> set es" by (cases "i = 2") (fastforce simp: worker_def)+
qed

lemma worker_gaps: "worker 0 b = b" "worker (Suc 0) b = b"
  by (simp_all add: worker_def)

theorem commit_interleaved_witness:
  "\<exists>b' S'. CommitOffset worker 5 (Some sample_commit_request) sample_broker = (Inr (), b') \<and> broker_repr sample_cfg b' S' \<and>
    sOffsets S' \<lparr>kGroup = [103], kTopic = str ''a.b'', kPartition = 0\<rparr> = Some 8"
proof -
  have q: "coConsumerGroup sample_commit_request = [103]" "coTopic sample_commit_request = str ''a.b''" "coPartition sample_commit_request = 0"
    "coNextOffset sample_commit_request = 8" by (simp_all add: sample_commit_request_def)
  have "bOffsets (worker i b) = bOffsets b" "bOffsetsDir (worker i b) = bOffsetsDir b" for i b by (simp_all add: worker_def retention_run_def)
  then have "fst (CommitOffset worker 5 (Some sample_commit_request) sample_broker) = Inr ()"
    using sample_commit_acked by (simp add: CommitOffset_def q resolve_def sample_resolved log_now_def sample_ends inc_def worker_gaps Let_def split_def)
  then obtain b' where c: "CommitOffset worker 5 (Some sample_commit_request) sample_broker = (Inr (), b')" by (metis prod.collapse)
  from commit_interleaved [OF sample_broker_repr worker_interferes c] c show ?thesis by (auto simp: q)
qed


end
