(* ===== verification/Go_Text.thy ===== *)
theory Go_Text
  imports Json
begin

text \<open>
  The functions of Go's standard library that the configuration reads text with: \<^verbatim>\<open>fmt.Sscanf\<close> with the
  format \<^verbatim>\<open>%d\<close>, \<^verbatim>\<open>strconv.ParseBool\<close>, \<^verbatim>\<open>strings.ToLower\<close>, \<^verbatim>\<open>time.ParseDuration\<close> and \<^verbatim>\<open>net.SplitHostPort\<close>,
  on bytes. \<^verbatim>\<open>None\<close> is an error.
\<close>

section \<open>Numbers\<close>

text \<open>White space in front of a number; a line break there is an error.\<close>

fun skip_space :: "bytes \<Rightarrow> bytes option" where
  "skip_space s =
     (case s of
        [] \<Rightarrow> Some []
      | c # t \<Rightarrow>
          if c = 10 then None
          else if c = 9 \<or> c = 11 \<or> c = 12 \<or> c = 13 \<or> c = 32 then skip_space t
          else if c = 0xC2 \<and> t \<noteq> [] \<and> hd t \<in> {0x85, 0xA0} then skip_space (drop 1 t)
          else if take 3 s \<in> {[0xE1, 0x9A, 0x80], [0xE2, 0x80, 0xA8], [0xE2, 0x80, 0xA9], [0xE2, 0x80, 0xAF], [0xE2, 0x81, 0x9F], [0xE3, 0x80, 0x80]} \<or>
             take 2 s = [0xE2, 0x80] \<and> length s > 2 \<and> 0x80 \<le> s ! 2 \<and> s ! 2 \<le> 0x8A
          then skip_space (drop 2 t)
          else Some s)"

declare skip_space.simps [simp del]

definition Sscanf_int :: "bytes \<Rightarrow> int option" where
  "Sscanf_int v =
     (case skip_space v of
        None \<Rightarrow> None
      | Some s \<Rightarrow>
          let sign = (if s \<noteq> [] \<and> (hd s = 43 \<or> hd s = 45) then [hd s] else []);
              digits = takeWhile is_digit (drop (length sign) s) in
          if digits = [] then None else ParseInt64 (sign @ digits))"

definition Sscanf_uint :: "bytes \<Rightarrow> u64 option" where
  "Sscanf_uint v = (case skip_space v of None \<Rightarrow> None | Some s \<Rightarrow> ParseUint64 (takeWhile is_digit s))"

definition ParseBool :: "gostring \<Rightarrow> bool option" where
  "ParseBool s =
     (if s \<in> {str ''1'', str ''t'', str ''T'', str ''TRUE'', str ''true'', str ''True''} then Some True
      else if s \<in> {str ''0'', str ''f'', str ''F'', str ''FALSE'', str ''false'', str ''False''} then Some False
      else None)"

text \<open>
  Letters that are lowered to ASCII ones, among them two beyond ASCII; the others are kept, since a result
  that is not ASCII equals none of the words it is compared with.
\<close>

fun ToLower :: "gostring \<Rightarrow> gostring" where
  "ToLower [] = []"
| "ToLower (c # s) =
     (if c = 0xC4 \<and> s \<noteq> [] \<and> hd s = 0xB0 then 105 # ToLower (drop 1 s)
      else if c = 0xE2 \<and> take 2 s = [0x84, 0xAA] then 107 # ToLower (drop 2 s)
      else (if 65 \<le> unat c \<and> unat c \<le> 90 then c + 32 else c) # ToLower s)"

section \<open>Durations\<close>

text \<open>
  A fraction of a unit is computed in floating point: \<open>float64 (p, q)\<close> is \<open>p / q\<close> rounded to 53 binary
  digits, to the even neighbour when it lies in the middle.
\<close>

fun bits :: "nat \<Rightarrow> nat" where
  "bits n = (if n = 0 then 0 else Suc (bits (n div 2)))"

declare bits.simps [simp del]

definition round_even :: "nat \<Rightarrow> nat \<Rightarrow> nat" where
  "round_even a b = (let q = a div b; r = a mod b in if 2 * r < b \<or> 2 * r = b \<and> even q then q else q + 1)"

definition float64 :: "nat \<times> nat \<Rightarrow> nat \<times> nat" where
  "float64 x =
     (case x of (p, q) \<Rightarrow>
        let up = 2 ^ (bits q + 53);
            den = q * 2 ^ bits p;
            one = (if p * up div den \<ge> 2 ^ 53 then 2 else 1) in
        (round_even (p * up) (den * one) * 2 ^ bits p * one, up))"

definition fraction_of :: "nat \<Rightarrow> nat \<Rightarrow> nat \<Rightarrow> nat" where
  "fraction_of f unit scale =
     (case (float64 (f, 1), float64 (unit, scale)) of ((p1, q1), (p2, q2)) \<Rightarrow>
        case float64 (p1 * p2, q1 * q2) of (p, q) \<Rightarrow> p div q)"

fun leadingInt :: "nat \<Rightarrow> bytes \<Rightarrow> (nat \<times> bytes) option" where
  "leadingInt x [] = Some (x, [])"
| "leadingInt x (c # s) =
     (if \<not> is_digit c then Some (x, c # s)
      else if x > 2 ^ 63 div 10 then None
      else let x = x * 10 + (unat c - 48) in if x > 2 ^ 63 then None else leadingInt x s)"

fun leadingFraction :: "nat \<Rightarrow> nat \<Rightarrow> bool \<Rightarrow> bytes \<Rightarrow> nat \<times> nat \<times> bytes" where
  "leadingFraction x scale overflow [] = (x, scale, [])"
| "leadingFraction x scale overflow (c # s) =
     (if \<not> is_digit c then (x, scale, c # s)
      else if overflow \<or> x > (2 ^ 63 - 1) div 10 then leadingFraction x scale True s
      else let y = x * 10 + (unat c - 48) in
        if y > 2 ^ 63 then leadingFraction x scale True s else leadingFraction y (scale * 10) False s)"

definition unitMap :: "gostring \<Rightarrow> nat option" where
  "unitMap u =
     (if u = str ''ns'' then Some 1
      else if u = str ''us'' \<or> u = [0xC2, 0xB5, 115] \<or> u = [0xCE, 0xBC, 115] then Some 1000
      else if u = str ''ms'' then Some 1000000
      else if u = str ''s'' then Some 1000000000
      else if u = str ''m'' then Some 60000000000
      else if u = str ''h'' then Some 3600000000000
      else None)"

text \<open>One number with its unit: its nanoseconds, and what follows.\<close>

definition duration_term :: "bytes \<Rightarrow> (nat \<times> bytes) option" where
  "duration_term s =
     (if \<not> (hd s = 46 \<or> is_digit (hd s)) then None
      else case leadingInt 0 s of
        None \<Rightarrow> None
      | Some (v, s1) \<Rightarrow>
          let (f, scale, s2) = (if s1 \<noteq> [] \<and> hd s1 = 46 then leadingFraction 0 1 False (tl s1) else (0, 1, s1));
              post = (s1 \<noteq> [] \<and> hd s1 = 46 \<and> length s2 \<noteq> length (tl s1));
              u = takeWhile (\<lambda>c. \<not> (c = 46 \<or> is_digit c)) s2 in
          if length s1 = length s \<and> \<not> post then None
          else if u = [] then None
          else case unitMap u of
            None \<Rightarrow> None
          | Some unit \<Rightarrow>
              if v > 2 ^ 63 div unit then None
              else
              let w = v * unit + (if f > 0 then fraction_of f unit scale else 0) in
              if f > 0 \<and> w > 2 ^ 63 then None else Some (w, drop (length u) s2))"

lemma leadingInt_rest: "leadingInt x s = Some (v, t) \<Longrightarrow> length t \<le> length s"
  by (induction x s rule: leadingInt.induct) (auto simp: Let_def split: if_splits)

lemma leadingFraction_rest: "length (snd (snd (leadingFraction x scale overflow s))) \<le> length s"
  by (induction x scale overflow s rule: leadingFraction.induct) (auto simp: Let_def le_SucI)

lemma duration_term_shorter:
  assumes "duration_term s = Some (w, t)"
  shows "length t < length s"
proof -
  obtain v s1 where li: "leadingInt 0 s = Some (v, s1)" using assms by (auto simp: duration_term_def split: if_splits option.splits)
  obtain f scale s2 where fr: "(if s1 \<noteq> [] \<and> hd s1 = 46 then leadingFraction 0 1 False (tl s1) else (0, 1, s1)) = (f, scale, s2)"
    by (metis surj_pair)
  have "length s2 \<le> length s1"
  proof (cases "s1 \<noteq> [] \<and> hd s1 = 46")
    case True
    then have "length s2 \<le> length (tl s1)" using fr leadingFraction_rest [of 0 1 False "tl s1"] by simp
    then show ?thesis by simp
  qed (use fr in auto)
  then have len: "length s2 \<le> length s" using leadingInt_rest [OF li] by simp
  have "t = drop (length (takeWhile (\<lambda>c. \<not> (c = 46 \<or> is_digit c)) s2)) s2" "takeWhile (\<lambda>c. \<not> (c = 46 \<or> is_digit c)) s2 \<noteq> []"
    using assms li fr by (auto simp: duration_term_def Let_def split: if_splits option.splits)
  then show ?thesis using len by (cases s2) auto
qed

text \<open>The sum is kept on 64 bits.\<close>

function duration_sum :: "nat \<Rightarrow> bytes \<Rightarrow> nat option" where
  "duration_sum d s =
     (if s = [] then Some d
      else case duration_term s of
        None \<Rightarrow> None
      | Some (v, t) \<Rightarrow> let d = (d + v) mod 2 ^ 64 in if d > 2 ^ 63 then None else duration_sum d t)"
  by auto
termination
  by (relation "measure (\<lambda>(d, s). length s)") (auto dest: duration_term_shorter)

declare duration_sum.simps [simp del]

definition ParseDuration :: "gostring \<Rightarrow> i64 option" where
  "ParseDuration s =
     (let neg = (s \<noteq> [] \<and> hd s = 45);
          t = (if s \<noteq> [] \<and> (hd s = 45 \<or> hd s = 43) then tl s else s) in
      if t = str ''0'' then Some 0
      else if t = [] then None
      else case duration_sum 0 t of
        None \<Rightarrow> None
      | Some d \<Rightarrow> if neg then Some (- of_nat d) else if d > 2 ^ 63 - 1 then None else Some (of_nat d))"

section \<open>Addresses\<close>

text \<open>The position of the last and of the first occurrence of a byte.\<close>

fun last_index :: "byte \<Rightarrow> bytes \<Rightarrow> nat option" where
  "last_index c [] = None"
| "last_index c (x # xs) = (case last_index c xs of Some i \<Rightarrow> Some (Suc i) | None \<Rightarrow> if x = c then Some 0 else None)"

fun first_index :: "byte \<Rightarrow> bytes \<Rightarrow> nat option" where
  "first_index c [] = None"
| "first_index c (x # xs) = (if x = c then Some 0 else map_option Suc (first_index c xs))"

definition SplitHostPort :: "gostring \<Rightarrow> (gostring \<times> gostring) option" where
  "SplitHostPort a =
     (case last_index 58 a of
        None \<Rightarrow> None
      | Some i \<Rightarrow>
          let checked = (\<lambda>host j k. if 91 \<in> set (drop j a) \<or> 93 \<in> set (drop k a) then None else Some (host, drop (Suc i) a)) in
          if hd a = 91 then
            (case first_index 93 a of
               None \<Rightarrow> None
             | Some e \<Rightarrow> if e + 1 = i then checked (take (e - 1) (drop 1 a)) 1 (e + 1) else None)
          else if 58 \<in> set (take i a) then None
          else checked (take i a) 0 0)"

end
