(* ===== verification/Config_Load.thy ===== *)
theory Config_Load
  imports Config Go_Text
begin

text \<open>
  \<^verbatim>\<open>Load\<close> of \<^verbatim>\<open>internal/config/config.go\<close>: the file over the defaults, the environment over the file, and the
  checks. The YAML decoder is a parameter, and so are the file and the environment.
\<close>

section \<open>Load\<close>

datatype config_error = ErrOpenConfig | ErrYaml | ErrInvalid gostring

datatype opened = Opened bytes | NotExist | OpenError

definition validateAddr :: "gostring \<Rightarrow> gostring \<Rightarrow> config_error option" where
  "validateAddr address name =
     (if address = [] then Some (ErrInvalid name)
      else case SplitHostPort address of
        None \<Rightarrow> Some (ErrInvalid name)
      | Some (host, portStr) \<Rightarrow>
          (case ParseInt64 portStr of
             None \<Rightarrow> Some (ErrInvalid name)
           | Some port \<Rightarrow> if port < 0 \<or> port > 65535 then Some (ErrInvalid name) else None))"

text \<open>\<open>decode\<close> reads the YAML text into a configuration, and keeps the fields that it does not name.\<close>

definition read_file ::
  "(bytes \<Rightarrow> Config \<Rightarrow> Config option) \<Rightarrow> (gostring \<Rightarrow> opened) \<Rightarrow> gostring \<Rightarrow> Config \<Rightarrow> config_error + Config" where
  "read_file decode openFile path cfg =
     (if path = [] then Inr cfg
      else case openFile path of
        NotExist \<Rightarrow> if path = str ''./config/config.yaml'' then Inr cfg else Inl ErrOpenConfig
      | OpenError \<Rightarrow> Inl ErrOpenConfig
      | Opened text \<Rightarrow> (case decode text cfg of None \<Rightarrow> Inl ErrYaml | Some cfg \<Rightarrow> Inr cfg))"

text \<open>A variable that is set replaces the value; a number that cannot be read is ignored.\<close>

definition env_text :: "(gostring \<Rightarrow> gostring) \<Rightarrow> string \<Rightarrow> gostring \<Rightarrow> gostring" where
  "env_text env name old = (if env (str name) \<noteq> [] then env (str name) else old)"

definition env_int :: "(gostring \<Rightarrow> gostring) \<Rightarrow> string \<Rightarrow> int \<Rightarrow> int" where
  "env_int env name old =
     (if env (str name) \<noteq> [] then case Sscanf_int (env (str name)) of Some v \<Rightarrow> v | None \<Rightarrow> old else old)"

definition env_uint :: "(gostring \<Rightarrow> gostring) \<Rightarrow> string \<Rightarrow> u64 \<Rightarrow> u64" where
  "env_uint env name old =
     (if env (str name) \<noteq> [] then case Sscanf_uint (env (str name)) of Some v \<Rightarrow> v | None \<Rightarrow> old else old)"

definition env_bool :: "(gostring \<Rightarrow> gostring) \<Rightarrow> string \<Rightarrow> bool \<Rightarrow> config_error + bool" where
  "env_bool env name old =
     (if env (str name) \<noteq> []
      then case ParseBool (env (str name)) of Some v \<Rightarrow> Inr v | None \<Rightarrow> Inl (ErrInvalid (str name))
      else Inr old)"

definition read_env :: "(gostring \<Rightarrow> gostring) \<Rightarrow> Config \<Rightarrow> config_error + Config" where
  "read_env env cfg =
     (let b = cBroker cfg; st = cStorage cfg; rt = cRetention cfg; ob = cObservability cfg;
          b = b\<lparr>bcGRPCAddress := env_text env ''BROKER_GRPC_ADDRESS'' (bcGRPCAddress b),
                bcShutdownTimeoutStr := env_text env ''BROKER_SHUTDOWN_TIMEOUT'' (bcShutdownTimeoutStr b)\<rparr>;
          st = st\<lparr>scDataDirectory := env_text env ''BROKER_DATA_DIRECTORY'' (scDataDirectory st),
                  scMaxRecordBytes := env_int env ''BROKER_MAX_RECORD_BYTES'' (scMaxRecordBytes st),
                  scMaxBatchBytes := env_int env ''BROKER_MAX_BATCH_BYTES'' (scMaxBatchBytes st),
                  scSegmentMaxBytes := env_int env ''BROKER_SEGMENT_MAX_BYTES'' (scSegmentMaxBytes st),
                  scIndexIntervalBytes := env_int env ''BROKER_INDEX_INTERVAL_BYTES'' (scIndexIntervalBytes st),
                  scFlushMode := env_text env ''BROKER_FLUSH_MODE'' (scFlushMode st)\<rparr>;
          ob = ob\<lparr>ocLogLevel := env_text env ''BROKER_LOG_LEVEL'' (ocLogLevel ob),
                  ocLogFormat := env_text env ''BROKER_LOG_FORMAT'' (ocLogFormat ob)\<rparr>;
          rt = rt\<lparr>rcDefaultMaxAgeStr := env_text env ''BROKER_RETENTION_MAX_AGE'' (rcDefaultMaxAgeStr rt),
                  rcDefaultMaxPartitionBytes := env_uint env ''BROKER_RETENTION_MAX_PARTITION_BYTES'' (rcDefaultMaxPartitionBytes rt),
                  rcCheckIntervalStr := env_text env ''BROKER_RETENTION_CHECK_INTERVAL'' (rcCheckIntervalStr rt)\<rparr>;
          b = b\<lparr>bcHTTPAddress := env_text env ''BROKER_HTTP_ADDRESS'' (bcHTTPAddress b)\<rparr> in
      rbind (env_bool env ''BROKER_METRICS_ENABLED'' (ocMetricsEnabled ob)) (\<lambda>metrics.
      rbind (env_bool env ''BROKER_PPROF_ENABLED'' (ocPprofEnabled ob)) (\<lambda>pprof.
      let ob = ob\<lparr>ocMetricsEnabled := metrics, ocPprofEnabled := pprof,
                  ocMutexProfileFraction := env_int env ''BROKER_MUTEX_PROFILE_FRACTION'' (ocMutexProfileFraction ob),
                  ocBlockProfileRate := env_int env ''BROKER_BLOCK_PROFILE_RATE'' (ocBlockProfileRate ob)\<rparr> in
      Inr \<lparr>cBroker = b, cStorage = st, cRetention = rt, cObservability = ob\<rparr>)))"

definition check :: "bool \<Rightarrow> string \<Rightarrow> config_error + unit" where
  "check ok name = (if ok then Inr () else Inl (ErrInvalid (str name)))"

definition duration_of :: "gostring \<Rightarrow> string \<Rightarrow> config_error + i64" where
  "duration_of s name = (case ParseDuration s of None \<Rightarrow> Inl (ErrInvalid (str name)) | Some d \<Rightarrow> Inr d)"

definition address_ok :: "gostring \<Rightarrow> string \<Rightarrow> config_error + unit" where
  "address_ok a name = (case validateAddr a (str name) of None \<Rightarrow> Inr () | Some e \<Rightarrow> Inl e)"

definition validate_storage :: "StorageConfig \<Rightarrow> config_error + StorageConfig" where
  "validate_storage st =
     rbind (check (scDataDirectory st \<noteq> []) ''storage.data_directory'') (\<lambda>_.
     rbind (check (scMaxRecordBytes st > 0) ''storage.max_record_bytes'') (\<lambda>_.
     rbind (check (scMaxBatchBytes st \<ge> scMaxRecordBytes st) ''storage.max_batch_bytes'') (\<lambda>_.
     rbind (check (scSegmentMaxBytes st > 0) ''storage.segment_max_bytes'') (\<lambda>_.
     rbind (check (scSegmentMaxBytes st \<ge> scMaxBatchBytes st) ''storage.segment_max_bytes'') (\<lambda>_.
     rbind (check (scIndexIntervalBytes st > 0) ''storage.index_interval_bytes'') (\<lambda>_.
     rbind (check (scIndexIntervalBytes st \<le> scSegmentMaxBytes st) ''storage.index_interval_bytes'') (\<lambda>_.
     let flushMode = ToLower (scFlushMode st) in
     rbind (check (flushMode \<in> {str ''sync'', str ''async''}) ''storage.flush_mode'') (\<lambda>_.
     Inr (st\<lparr>scFlushMode := flushMode\<rparr>)))))))))"

definition validate_observability :: "ObservabilityConfig \<Rightarrow> config_error + ObservabilityConfig" where
  "validate_observability ob =
     (let logLevel = ToLower (ocLogLevel ob); logFormat = ToLower (ocLogFormat ob) in
      rbind (check (logLevel \<in> {str ''debug'', str ''info'', str ''warn'', str ''error''}) ''observability.log_level'') (\<lambda>_.
      rbind (check (logFormat \<in> {str ''json'', str ''text''}) ''observability.log_format'') (\<lambda>_.
      Inr (ob\<lparr>ocLogLevel := logLevel, ocLogFormat := logFormat\<rparr>))))"

definition validate_retention :: "RetentionConfig \<Rightarrow> config_error + RetentionConfig" where
  "validate_retention rt =
     rbind (duration_of (rcDefaultMaxAgeStr rt) ''retention.max_age'') (\<lambda>maxAge.
     rbind (check (sint maxAge \<ge> sint Second) ''retention.max_age'') (\<lambda>_.
     rbind (check (sint maxAge mod sint Second = 0) ''retention.max_age'') (\<lambda>_.
     rbind (duration_of (rcCheckIntervalStr rt) ''retention.check_interval'') (\<lambda>checkInterval.
     rbind (check (sint checkInterval \<ge> sint Second) ''retention.check_interval'') (\<lambda>_.
     rbind (check (rcDefaultMaxPartitionBytes rt > 0) ''retention.max_partition_bytes'') (\<lambda>_.
     Inr (rt\<lparr>rcDefaultMaxAge := maxAge, rcCheckInterval := checkInterval\<rparr>)))))))"

definition validate :: "Config \<Rightarrow> config_error + Config" where
  "validate cfg =
     (let b = cBroker cfg in
      rbind (address_ok (bcGRPCAddress b) ''broker.grpc_address'') (\<lambda>_.
      rbind (address_ok (bcHTTPAddress b) ''broker.http_address'') (\<lambda>_.
      rbind (duration_of (bcShutdownTimeoutStr b) ''broker.graceful_shutdown_timeout'') (\<lambda>timeout.
      rbind (check (sint timeout > 0) ''broker.graceful_shutdown_timeout'') (\<lambda>_.
      rbind (validate_storage (cStorage cfg)) (\<lambda>st.
      rbind (validate_observability (cObservability cfg)) (\<lambda>ob.
      rbind (validate_retention (cRetention cfg)) (\<lambda>rt.
      Inr \<lparr>cBroker = b\<lparr>bcGracefulShutdownTimeout := timeout\<rparr>, cStorage = st, cRetention = rt, cObservability = ob\<rparr>))))))))"

definition Load ::
  "(bytes \<Rightarrow> Config \<Rightarrow> Config option) \<Rightarrow> (gostring \<Rightarrow> opened) \<Rightarrow> (gostring \<Rightarrow> gostring) \<Rightarrow> gostring \<Rightarrow> config_error + Config" where
  "Load decode openFile env path =
     rbind (read_file decode openFile path DefaultConfig) (\<lambda>cfg. rbind (read_env env cfg) validate)"

end
