(* ===== verification/Process_Contract.thy ===== *)
theory Process_Contract
  imports Broker_Contract Config_Load
begin

text \<open>
  The life of a broker process: the configuration it loads, the broker it builds from an empty data
  directory, and what a shutdown leaves for the next process.
\<close>

section \<open>The configuration\<close>

definition listens_on :: "gostring \<Rightarrow> int \<Rightarrow> bool" where
  "listens_on a port \<longleftrightarrow> (\<exists>host p. SplitHostPort a = Some (host, p) \<and> ParseInt64 p = Some port \<and> 0 \<le> port \<and> port \<le> 65535)"

definition config_valid :: "Config \<Rightarrow> bool" where
  "config_valid cfg \<longleftrightarrow>
     (let b = cBroker cfg; st = cStorage cfg; rt = cRetention cfg; ob = cObservability cfg in
      (\<exists>port. listens_on (bcGRPCAddress b) port) \<and> (\<exists>port. listens_on (bcHTTPAddress b) port) \<and> 0 < sint (bcGracefulShutdownTimeout b) \<and>
      ParseDuration (bcShutdownTimeoutStr b) = Some (bcGracefulShutdownTimeout b) \<and>
      scDataDirectory st \<noteq> [] \<and> 0 < scMaxRecordBytes st \<and> scMaxRecordBytes st \<le> scMaxBatchBytes st \<and>
      scMaxBatchBytes st \<le> scSegmentMaxBytes st \<and> 0 < scIndexIntervalBytes st \<and> scIndexIntervalBytes st \<le> scSegmentMaxBytes st \<and>
      scFlushMode st \<in> {str ''sync'', str ''async''} \<and>
      ocLogLevel ob \<in> {str ''debug'', str ''info'', str ''warn'', str ''error''} \<and> ocLogFormat ob \<in> {str ''json'', str ''text''} \<and>
      sint Second \<le> sint (rcDefaultMaxAge rt) \<and> sint Second \<le> sint (rcCheckInterval rt) \<and> 0 < rcDefaultMaxPartitionBytes rt)"

lemma check_Inr [simp]: "check ok name = Inr u \<longleftrightarrow> ok"
  by (simp add: check_def)

lemma address_ok_Inr: "address_ok a name = Inr u \<Longrightarrow> \<exists>port. listens_on a port"
  by (auto simp: address_ok_def validateAddr_def listens_on_def not_less split: option.splits if_splits)

lemma duration_of_Inr: "duration_of s name = Inr d \<longleftrightarrow> ParseDuration s = Some d"
  by (simp add: duration_of_def split: option.splits)

lemma validate_valid:
  assumes "validate c = Inr cfg"
  shows "config_valid cfg" "sint (rcDefaultMaxAge (cRetention cfg)) mod sint Second = 0"
    "scSegmentMaxBytes (cStorage cfg) = scSegmentMaxBytes (cStorage c)" "scMaxBatchBytes (cStorage cfg) = scMaxBatchBytes (cStorage c)"
  using assms
  by (auto simp: validate_def validate_storage_def validate_observability_def validate_retention_def rbind_Inr_iff Let_def
      config_valid_def duration_of_Inr dest: address_ok_Inr)

lemma whole_seconds:
  assumes "sint Second \<le> sint d" "sint d mod sint Second = 0"
  shows "seconds_of d * 1000000000 = d" "int (unat (seconds_of d)) * sint Second = sint d" "0 < seconds_of d"
proof -
  define n where "n = sint d div 1000000000"
  have sec: "sint Second = 1000000000" by (simp add: Second_def sint_small)
  have n: "sint d = n * 1000000000" using assms(2) div_mult_mod_eq [of "sint d" 1000000000] by (simp add: sec n_def)
  have hi: "sint d < 2 ^ 63" using sint_less [of d] by simp
  then have bnd: "1 \<le> n" "n < 2 ^ 64" using assms(1) n by (simp_all add: sec)
  have s: "seconds_of d = word_of_int n" by (simp add: seconds_of_def n_def)
  have u: "uint (seconds_of d) = n" using bnd by (simp add: s uint_word_of_int)
  have "seconds_of d * 1000000000 = word_of_int (n * 1000000000)" by (simp add: s)
  then show "seconds_of d * 1000000000 = d" by (simp add: n [symmetric])
  show "int (unat (seconds_of d)) * sint Second = sint d" using u n by (simp add: sec)
  show "0 < seconds_of d" using u bnd(1) by (simp add: word_less_def)
qed

text \<open>
  C9. A configuration that \<^verbatim>\<open>Load\<close> accepts is well formed, whatever the file and the environment say: both
  addresses have a port between 0 and 65535; a record fits a batch and a batch fits a segment; the index
  interval is positive and at most a segment; the modes are known words; the timeouts are positive, and
  are what their texts say. The default age is a whole number of seconds, so a topic that is created without
  limits of its own is retained for exactly that time, and neither default means \<open>no limit\<close>.
\<close>

theorem load_valid:
  assumes "Load decode openFile env file_name = Inr cfg"
  shows "config_valid cfg \<and>
    (let m' = SetRetentionDefaults (seconds_of (rcDefaultMaxAge (cRetention cfg))) (rcDefaultMaxPartitionBytes (cRetention cfg)) m;
         r = default_retention \<lparr>rpMaxAgeSeconds = 0, rpMaxBytes = 0\<rparr> m' in
     retention_age r = rcDefaultMaxAge (cRetention cfg) \<and> 0 < sint (retention_age r) \<and> 0 < rpMaxBytes r)"
proof -
  obtain c where v: "validate c = Inr cfg" using assms by (auto simp: Load_def rbind_Inr_iff)
  note V = validate_valid [OF v]
  have age: "sint Second \<le> sint (rcDefaultMaxAge (cRetention cfg))" "0 < rcDefaultMaxPartitionBytes (cRetention cfg)"
    using V(1) by (simp_all add: config_valid_def Let_def)
  note W = whole_seconds [OF age(1) V(2)]
  have "0 < sint Second" by (simp add: Second_def sint_small)
  then show ?thesis using V(1) age W(1) by (auto simp: Let_def default_retention_def SetRetentionDefaults_def retention_age_def)
qed

text \<open>Without a file and without variables the defaults are loaded.\<close>

lemma default_durations:
  "ParseDuration (str ''15s'') = Some 15000000000" "ParseDuration (str ''168h'') = Some 604800000000000" "ParseDuration (str ''5m'') = Some 300000000000"
  by (simp_all add: ParseDuration_def duration_sum.simps duration_term_def is_digit_def unitMap_def str_def)

lemma default_addresses:
  "validateAddr (str ''localhost:50051'') name = None" "validateAddr (str ''localhost:9093'') name = None"
  by (simp_all add: validateAddr_def SplitHostPort_def str_def ParseInt64_def all_digits_def is_digit_def dec_get_def)

lemma default_words:
  "ToLower (str ''sync'') = str ''sync''" "ToLower (str ''info'') = str ''info''" "ToLower (str ''json'') = str ''json''"
  by (simp_all add: str_def)

lemma load_defaults:
  "Load decode openFile (\<lambda>_. []) [] = Inr (DefaultConfig\<lparr>cBroker := (cBroker DefaultConfig)\<lparr>bcGracefulShutdownTimeout := 15 * Second\<rparr>\<rparr>)"
proof -
  have ne: "str ''./data'' \<noteq> []" by (simp add: str_def)
  have env: "read_env (\<lambda>_. []) DefaultConfig = Inr DefaultConfig"
    by (simp add: read_env_def env_text_def env_int_def env_uint_def env_bool_def Let_def DefaultConfig_def)
  have st: "validate_storage (cStorage DefaultConfig) = Inr (cStorage DefaultConfig)"
    using ne by (simp add: validate_storage_def DefaultConfig_def check_def default_words)
  have ob: "validate_observability (cObservability DefaultConfig) = Inr (cObservability DefaultConfig)"
    by (simp add: validate_observability_def DefaultConfig_def check_def default_words)
  have rt: "validate_retention (cRetention DefaultConfig) = Inr (cRetention DefaultConfig)"
    by (simp add: validate_retention_def DefaultConfig_def check_def duration_of_def default_durations Second_def Hour_def sint_small)
  have "validate DefaultConfig = Inr (DefaultConfig\<lparr>cBroker := (cBroker DefaultConfig)\<lparr>bcGracefulShutdownTimeout := 15 * Second\<rparr>\<rparr>)"
    by (simp add: validate_def Let_def st ob rt) (simp add: DefaultConfig_def address_ok_def default_addresses duration_of_def default_durations check_def Second_def sint_small)
  then show ?thesis by (simp add: Load_def read_file_def env)
qed

theorem load_valid_witness:
  "Load (\<lambda>_. Some) (\<lambda>_. NotExist) (\<lambda>_. []) [] = Inr (DefaultConfig\<lparr>cBroker := (cBroker DefaultConfig)\<lparr>bcGracefulShutdownTimeout := 15 * Second\<rparr>\<rparr>) \<and>
   config_valid (DefaultConfig\<lparr>cBroker := (cBroker DefaultConfig)\<lparr>bcGracefulShutdownTimeout := 15 * Second\<rparr>\<rparr>)"
  using load_defaults load_valid [OF load_defaults] by blast

section \<open>The first start\<close>

definition empty_spec :: spec where
  "empty_spec = \<lparr>sTopics = Map.empty, sOffServing = True, sOffsets = Map.empty\<rparr>"

text \<open>
  C8. A process that starts on an empty data directory with a configuration that it has loaded comes up with
  no topics and no committed offsets, and is a broker that implements the specification, as long as the
  limits are ones that the storage format can hold: batches below 2 GiB and segments of at most 64 GiB.
\<close>

theorem boot_ready:
  assumes "Load decode openFile env file_name = Inr cfg" "scMaxBatchBytes (cStorage cfg) < 2 ^ 31" "scSegmentMaxBytes (cStorage cfg) \<le> 2 ^ 36"
    and "files (metaDisk fs) = []" "faults (metaDisk fs) = []" "files od = []" "faults od = []"
  shows "\<exists>b fs' od'. New order cfg fs od = (Inr b, fs', od') \<and> broker_repr cfg b empty_spec"
proof -
  let ?st = "cStorage cfg" and ?rt = "cRetention cfg"
  define m where "m = SetRetentionDefaults (seconds_of (rcDefaultMaxAge ?rt)) (rcDefaultMaxPartitionBytes ?rt)
    \<lparr>mTopics = [], mSegmentMaxBytes = scSegmentMaxBytes ?st, mMaxBatchBytes = scMaxBatchBytes ?st, mIndexIntervalBytes = scIndexIntervalBytes ?st,
     mFlushMode = scFlushMode ?st, mDefaultMaxAgeSeconds = 0, mDefaultMaxBytes = 0\<rparr>"
  have man: "NewManager order (scSegmentMaxBytes ?st) (scMaxBatchBytes ?st) (scIndexIntervalBytes ?st) (scFlushMode ?st) fs =
      (Inr \<lparr>mTopics = [], mSegmentMaxBytes = scSegmentMaxBytes ?st, mMaxBatchBytes = scMaxBatchBytes ?st,
         mIndexIntervalBytes = scIndexIntervalBytes ?st, mFlushMode = scFlushMode ?st, mDefaultMaxAgeSeconds = 0, mDefaultMaxBytes = 0\<rparr>, fs)"
    using assms(4,5) by (simp add: NewManager_def sys_stat_def)
  let ?s = "\<lparr>filePath = offsetsFile, offsets = Map.empty, oSize = 0, oClosed = False, oWriteFailed = True\<rparr>"
  have "offs_repr ?s od False Map.empty" unfolding offs_repr_def
    using assms(6) by (auto simp: content_def intro!: exI [of _ "[]"])
  moreover have "restarted od = od" using assms(7) by (simp add: restarted_def)
  ultimately obtain s' d' where O: "OpenOffsetStore offsetsFile od = (Inr s', d')" "offs_repr s' d' True Map.empty" "filePath s' = offsetsFile"
    using offsets_open [of ?s od False Map.empty] by auto
  have "manager_ok m fs"
    using assms(4) by (auto simp: manager_ok_def topics_ok_def m_def SetRetentionDefaults_def meta_file_def metadata_ok_def)
  moreover have "New order cfg fs od = (Inr \<lparr>bManager = m, bDataDir = fs, bOffsets = s', bOffsetsDir = d', bStorageCfg = ?st, bMetrics = Some []\<rparr>, fs, d')"
    using man O(1) by (simp add: New_def m_def Let_def)
  ultimately show ?thesis using O(2,3) assms(2,3)
    by (simp add: broker_repr_def config_in_force_def Let_def empty_spec_def m_def SetRetentionDefaults_def)
qed

theorem boot_ready_witness:
  "\<exists>b fs' od'. New (\<lambda>meta. map fst (the meta)) (DefaultConfig\<lparr>cBroker := (cBroker DefaultConfig)\<lparr>bcGracefulShutdownTimeout := 15 * Second\<rparr>\<rparr>)
      sample_data_dir (empty_disk []) = (Inr b, fs', od') \<and>
    broker_repr (DefaultConfig\<lparr>cBroker := (cBroker DefaultConfig)\<lparr>bcGracefulShutdownTimeout := 15 * Second\<rparr>\<rparr>) b empty_spec"
  using boot_ready [OF load_defaults, of sample_data_dir "empty_disk []"]
  by (simp add: sample_data_dir_def empty_disk_def) (simp add: DefaultConfig_def)

section \<open>Shutdown\<close>

text \<open>The data directory as the next process finds it.\<close>

definition restarted_dir :: "data_dir \<Rightarrow> data_dir" where
  "restarted_dir fs = \<lparr>metaDisk = restarted (metaDisk fs), partDirs = (\<lambda>p. map_option restarted (partDirs fs p)), newFaults = (\<lambda>_. [])\<rparr>"

lemma LogClose_files: "files (logDisk (snd (LogClose l))) = files (logDisk l)"
  by (auto simp: LogClose_def split: prod.splits dest: Close_files)

lemma close_partitions_at:
  assumes "topicNameRegex name" "k < length ls"
  shows "\<exists>d. partDirs (snd (close_partitions name i ls fs)) (pDir name (i + k)) = Some d \<and> files d = files (logDisk (ls ! k))"
  using assms(2)
proof (induction ls arbitrary: i k fs)
  case (Cons l ls)
  obtain e l' where c: "LogClose l = (e, l')" by fastforce
  let ?fs = "put_dir (pDir name i) (logDisk l') fs"
  have cl: "snd (close_partitions name i (l # ls) fs) = snd (close_partitions name (Suc i) ls ?fs)" by (simp add: c split_def Let_def)
  show ?case
  proof (cases k)
    case 0
    have "pDir name i \<notin> pDir name ` {Suc i..<Suc i + length ls}" using pDir_inj [OF _ assms(1) assms(1)] by fastforce
    then have "partDirs (snd (close_partitions name (Suc i) ls ?fs)) (pDir name i) = Some (logDisk l')"
      using close_partitions_dirs [of name "Suc i" ls ?fs] by (simp add: only_dirs_def put_dir_def)
    then show ?thesis using 0 LogClose_files [of l] c cl by simp
  next
    case (Suc j)
    then show ?thesis using Cons.IH [of j "Suc i" ?fs] Cons.prems cl by simp
  qed
qed simp

lemma close_topics_dirs:
  "metaDisk (snd (close_topics ts fs)) = metaDisk fs \<and>
   (\<forall>q. (\<forall>n \<in> fst ` set ts. \<forall>k. q \<noteq> pDir n k) \<longrightarrow> partDirs (snd (close_topics ts fs)) q = partDirs fs q)"
proof (induction ts arbitrary: fs)
  case (Cons x ts)
  obtain n t where x: "x = (n, t)" by fastforce
  let ?fs = "snd (close_partitions n 0 (tPartitions t) fs)"
  have "snd (close_topics (x # ts) fs) = snd (close_topics ts ?fs)" by (simp add: x split_def Let_def)
  then show ?case using Cons.IH [of ?fs] close_partitions_dirs [of n 0 "tPartitions t" fs] by (auto simp: x only_dirs_def)
qed simp

lemma close_topics_at:
  assumes "\<forall>(k, t) \<in> set ts. topicNameRegex k" "distinct (map fst ts)" "map_of ts name = Some t" "k < length (tPartitions t)"
  shows "\<exists>d. partDirs (snd (close_topics ts fs)) (pDir name k) = Some d \<and> files d = files (logDisk (tPartitions t ! k))"
  using assms
proof (induction ts arbitrary: fs)
  case (Cons x ts)
  obtain n t' where x: "x = (n, t')" by fastforce
  let ?fs = "snd (close_partitions n 0 (tPartitions t') fs)"
  have cl: "snd (close_topics (x # ts) fs) = snd (close_topics ts ?fs)" by (simp add: x split_def Let_def)
  show ?case
  proof (cases "n = name")
    case True
    have nm: "topicNameRegex name" "\<forall>n' \<in> fst ` set ts. topicNameRegex n' \<and> n' \<noteq> name" using Cons.prems(1,2) x True by auto
    then have "\<forall>n' \<in> fst ` set ts. \<forall>j. pDir name k \<noteq> pDir n' j" using pDir_inj by blast
    then have "partDirs (snd (close_topics ts ?fs)) (pDir name k) = partDirs ?fs (pDir name k)" using close_topics_dirs by blast
    then show ?thesis using close_partitions_at [OF nm(1) Cons.prems(4), of 0 fs] Cons.prems(3) x True cl by simp
  next
    case False
    then show ?thesis using Cons.IH [of ?fs] Cons.prems x cl by simp
  qed
qed simp

lemma close_found:
  assumes "topics_ok m"
  shows "found_dirs m fs (restarted_dir (snd (ManagerClose m fs)))"
proof -
  have "\<forall>(k, t) \<in> set (mTopics m). topicNameRegex k" "distinct (map fst (mTopics m))"
    using assms by (auto simp: topics_ok_def disk_topic_ok_def)
  note D = close_topics_at [OF this, of _ _ _ fs]
  have "\<exists>d. partDirs (restarted_dir (snd (ManagerClose m fs))) (pDir name k) = Some d \<and> files d = files (logDisk (tPartitions t ! k)) \<and> faults d = []"
    if "map_of (mTopics m) name = Some t" "k < length (tPartitions t)" for name t k
    using D [OF that] by (auto simp: restarted_dir_def restarted_def ManagerClose_def)
  then show ?thesis using close_topics_dirs [of "mTopics m" fs] by (simp add: found_dirs_def restarted_dir_def restarted_def ManagerClose_def)
qed

lemma CloseOffsets_files: "files (snd (snd (CloseOffsets s d))) = files d"
  by (simp add: CloseOffsets_def Let_def split_def)



end
