(* ===== verification/Bench_Latency.thy ===== *)
theory Bench_Latency
  imports Go_Text Complex_Main
begin

text \<open>
  The latency sampler of the benchmarks (\<^verbatim>\<open>internal/bench/latency.go\<close>): a reservoir of durations and the report
  over it. A draw of the random number generator is an argument; milliseconds are real numbers, of which
  the code keeps the nearest \<^verbatim>\<open>float64\<close>.
\<close>

section \<open>The sampler\<close>

record LatencyReport =
  MinMs :: real
  MeanMs :: real
  P50Ms :: real
  P95Ms :: real
  P99Ms :: real
  MaxMs :: real

record Sampler =
  seen :: u64
  samples :: "i64 list"
  maxSize :: nat

definition NewSampler :: "nat \<Rightarrow> Sampler" where
  "NewSampler n = \<lparr>seen = 0, samples = [], maxSize = n\<rparr>"

definition SamplerAdd :: "u64 \<Rightarrow> i64 \<Rightarrow> Sampler \<Rightarrow> Sampler" where
  "SamplerAdd draw d s =
     (let s = s\<lparr>seen := seen s + 1\<rparr> in
      if length (samples s) < maxSize s then s\<lparr>samples := samples s @ [d]\<rparr>
      else let val = draw mod seen s in
        if val < of_nat (maxSize s) then s\<lparr>samples := (samples s)[unat val := d]\<rparr> else s)"

section \<open>The report\<close>

definition durationToMs :: "i64 \<Rightarrow> real" where
  "durationToMs d = of_int (sint d) / 1000000"

text \<open>
  The percentile \<open>a / b\<close>: the factor and the product with the number of samples are rounded to \<^verbatim>\<open>float64\<close>
  before the next integer is taken.
\<close>

definition percentile_index :: "nat \<times> nat \<Rightarrow> nat \<Rightarrow> int" where
  "percentile_index ab n =
     (case float64 ab of (p, q) \<Rightarrow> case float64 (p * n, q) of (x, y) \<Rightarrow> int ((x + y - 1) div y) - 1)"

definition getPercentile :: "i64 list \<Rightarrow> nat \<times> nat \<Rightarrow> i64" where
  "getPercentile srt ab =
     (let n = length srt in
      if n = 0 then 0
      else
      let idx = percentile_index ab n;
          idx = (if idx < 0 then 0 else idx);
          idx = (if idx \<ge> int n then int n - 1 else idx) in
      srt ! nat idx)"

text \<open>The sum is a 64-bit one; the division rounds towards zero.\<close>

definition GetReport :: "Sampler \<Rightarrow> LatencyReport" where
  "GetReport s =
     (let n = length (samples s) in
      if n = 0 then \<lparr>MinMs = 0, MeanMs = 0, P50Ms = 0, P95Ms = 0, P99Ms = 0, MaxMs = 0\<rparr>
      else
      let srt = sort_key sint (samples s);
          total = sum_list srt;
          mean = (word_of_int (if sint total < 0 then - ((- sint total) div int n) else sint total div int n) :: i64) in
      \<lparr>MinMs = durationToMs (srt ! 0), MeanMs = durationToMs mean,
       P50Ms = durationToMs (getPercentile srt (50, 100)), P95Ms = durationToMs (getPercentile srt (95, 100)),
       P99Ms = durationToMs (getPercentile srt (99, 100)), MaxMs = durationToMs (srt ! (n - 1))\<rparr>)"

section \<open>Facts\<close>

text \<open>The reservoir never grows beyond its size, and holds only durations that were added.\<close>

lemma SamplerAdd_bounded:
  "length (samples s) \<le> maxSize s \<Longrightarrow> length (samples (SamplerAdd draw d s)) \<le> maxSize s \<and> maxSize (SamplerAdd draw d s) = maxSize s"
  by (simp add: SamplerAdd_def Let_def)

lemma SamplerAdd_set: "set (samples (SamplerAdd draw d s)) \<subseteq> insert d (set (samples s))"
  using set_update_subset_insert [of "samples s" "unat (draw mod (seen s + 1))" d] by (auto simp: SamplerAdd_def Let_def)

lemma getPercentile_mem:
  assumes "xs \<noteq> []"
  obtains i where "i < length xs" "getPercentile xs ab = xs ! i"
proof -
  define i where "i = (let idx = max 0 (percentile_index ab (length xs)) in nat (min idx (int (length xs) - 1)))"
  have "0 < length xs" using assms by simp
  then have "i < length xs" "getPercentile xs ab = xs ! i"
    by (auto simp: i_def getPercentile_def Let_def max_def min_def not_less nat_less_iff intro!: arg_cong [of _ _ "\<lambda>k. xs ! nat k"])
  then show thesis by (rule that)
qed

lemma sorted_sint: "i \<le> j \<Longrightarrow> j < length xs \<Longrightarrow> sint (sort_key sint xs ! i) \<le> sint (sort_key sint (xs :: i64 list) ! j)"
  using sorted_nth_mono [OF sorted_sort_key [of sint xs], of i j] by simp

section \<open>Rounding\<close>

lemma bits_bounds: "0 < n \<Longrightarrow> n < 2 ^ bits n \<and> 2 ^ bits n \<le> 2 * n"
proof (induction n rule: bits.induct)
  case (1 n)
  show ?case
  proof (cases "n = 1")
    case True
    then show ?thesis by (simp add: bits.simps [of "Suc 0"] bits.simps [of 0])
  next
    case False
    then have "n div 2 < 2 ^ bits (n div 2) \<and> 2 ^ bits (n div 2) \<le> 2 * (n div 2)" using 1 by simp
    moreover have "bits n = Suc (bits (n div 2))" using 1(2) by (simp add: bits.simps [of n])
    ultimately show ?thesis by (auto simp: algebra_simps)
  qed
qed

lemma round_even_le: "0 < d \<Longrightarrow> a \<le> k * d \<Longrightarrow> round_even a d \<le> k"
proof -
  assume d: "0 < d" and a: "a \<le> k * d"
  have "a div d \<le> k" using div_le_mono [OF a, of d] d by simp
  moreover have "a mod d = 0" if "a div d = k" using a that d div_mult_mod_eq [of a d] by simp
  ultimately show ?thesis by (cases "a div d = k") (auto simp: round_even_def Let_def)
qed

lemma round_even_ge: "0 < d \<Longrightarrow> 2 * a \<le> (2 * round_even a d + 1) * d"
proof -
  assume d: "0 < d"
  have a: "2 * a = 2 * (a div d * d) + 2 * (a mod d)" using div_mult_mod_eq [of a d] by linarith
  have m: "2 * (a mod d) < 2 * d" using d by simp
  have r: "(2 * n + 1) * d = 2 * (n * d) + d" for n :: nat by (simp add: algebra_simps)
  consider "2 * (a mod d) \<le> d" "round_even a d = a div d" | "round_even a d = a div d + 1"
    by (cases "2 * (a mod d) < d \<or> 2 * (a mod d) = d \<and> even (a div d)") (auto simp: round_even_def Let_def)
  then show ?thesis
  proof cases
    case 1
    then show ?thesis unfolding 1(2) r using a 1(1) by linarith
  next
    case 2
    then show ?thesis unfolding 2 r using a m by (simp add: add_mult_distrib)
  qed
qed

text \<open>A value that is at most a whole number stays so, and loses at most a factor of \<open>1 - 2 / 2 ^ 53\<close>.\<close>

lemma float64_bounds:
  assumes "float64 (p, q) = (x, y)" "0 < p" "0 < q"
  shows "p \<le> k * q \<Longrightarrow> k < 2 ^ 52 \<Longrightarrow> x \<le> k * y" "p * y \<le> x * q + 2 * p * q" "q * 2 ^ 53 < y" "0 < y"
proof -
  define U where "U = (2 :: nat) ^ (bits q + 53)"
  define one where "one = (if p * U div (q * 2 ^ bits p) \<ge> 2 ^ 53 then 2 else 1 :: nat)"
  define w where "w = 2 ^ bits p * one"
  have xy: "x = round_even (p * U) (q * w) * w" "y = U" using assms(1)
    unfolding float64_def Let_def prod.case U_def [symmetric] one_def [symmetric] w_def by (auto simp: mult.assoc)
  have one: "one = 1 \<or> one = 2" by (simp add: one_def)
  then have w: "0 < w" by (auto simp: w_def)
  have pb: "2 ^ bits p \<le> 2 * p" and qb: "q < 2 ^ bits q" using bits_bounds assms(2,3) by auto
  show "0 < y" by (simp add: xy(2) U_def)
  show "q * 2 ^ 53 < y" using qb by (simp add: xy(2) U_def power_add)
  have "2 * (p * U) \<le> (2 * round_even (p * U) (q * w) + 1) * (q * w)" by (rule round_even_ge) (use assms(3) w in simp)
  then have "2 * (p * U) \<le> 2 * (x * q) + q * w" by (simp add: xy(1) algebra_simps)
  moreover have "q * w \<le> 4 * (p * q)" using pb one mult_left_mono [of w "4 * p" q] by (auto simp: w_def algebra_simps)
  ultimately have "2 * (p * U) \<le> 2 * (x * q) + 4 * (p * q)" by linarith
  then show "p * y \<le> x * q + 2 * p * q" by (simp add: xy(2) mult.assoc)
  show "x \<le> k * y" if le: "p \<le> k * q" "k < 2 ^ 52"
  proof -
    have "2 ^ bits p \<le> 2 * (k * q)" using pb le(1) by simp
    also have "\<dots> < 2 * (2 ^ 52 * 2 ^ bits q)" using le qb assms(2) by (intro mult_strict_left_mono mult_strict_mono) auto
    finally have "(2 :: nat) ^ bits p < 2 ^ (bits q + 53)" by (simp add: power_add)
    then have "bits p < bits q + 53" by (simp only: power_strict_increasing_iff)
    then have "2 ^ Suc (bits p) dvd U" unfolding U_def by (intro le_imp_power_dvd) simp
    moreover have "w dvd 2 ^ Suc (bits p)" using one by (auto simp: w_def)
    ultimately obtain v where v: "U = v * w" by (metis dvd_trans dvdE mult.commute)
    have "p * U \<le> (k * v) * (q * w)" using le(1) by (simp add: v algebra_simps)
    then have "round_even (p * U) (q * w) \<le> k * v" using assms(3) w by (intro round_even_le) simp_all
    then show ?thesis by (simp add: xy v)
  qed
qed

section \<open>Percentiles\<close>

text \<open>The \<^verbatim>\<open>float64\<close> factors lie just below 0.5, 0.95 and 0.99.\<close>

definition percentile_factor :: "nat \<Rightarrow> nat \<Rightarrow> nat \<Rightarrow> bool" where
  "percentile_factor a p q \<longleftrightarrow> float64 (a, 100) = (p, q) \<and> 0 < p \<and> q = 2 ^ 60 \<and> 100 * p \<le> a * q \<and> a * q \<le> 100 * p + 12800"

lemma bits_small: "bits 0 = 0" "bits (Suc 0) = 1" "bits 50 = 6" "bits 95 = 7" "bits 99 = 7" "bits 100 = 7"
  by (simp_all add: bits.simps)

lemma percentile_factors:
  "percentile_factor 50 576460752303423488 (2 ^ 60)" "percentile_factor 95 1095275429376504576 (2 ^ 60)" "percentile_factor 99 1141392289560778496 (2 ^ 60)"
  by (simp_all add: percentile_factor_def float64_def bits_small round_even_def Let_def)

lemma ceil_div: "t \<le> 100 * ((t + 99) div 100)" "100 * ((t + 99) div 100) \<le> t + 99" for t :: nat
  by simp_all

lemma percentile_rank:
  assumes f: "percentile_factor a p q" and n: "0 < n" "n \<le> 1000000" and a: "0 < a" "a \<le> 100"
  shows "percentile_index (a, 100) n = int ((a * n + 99) div 100) - 1"
proof -
  define k where "k = (a * n + 99) div 100"
  have k: "a * n \<le> 100 * k" "100 * k \<le> a * n + 99" unfolding k_def using ceil_div by simp_all
  have F: "float64 (a, 100) = (p, q)" "0 < p" "q = 2 ^ 60" "100 * p \<le> a * q" "a * q \<le> 100 * p + 12800"
    using f unfolding percentile_factor_def by blast+
  obtain x y where xy: "float64 (p * n, q) = (x, y)" by fastforce
  have pn: "0 < p * n" "0 < q" using F(2,3) n(1) by simp_all
  note B = float64_bounds [OF xy pn]
  have "100 * (p * n) \<le> a * q * n" using mult_right_mono [OF F(4), of n] by (simp add: algebra_simps)
  also have "\<dots> \<le> 100 * (k * q)" using mult_right_mono [OF k(1), of q] by (simp add: algebra_simps)
  finally have "p * n \<le> k * q" by simp
  moreover have "k < 2 ^ 52" using k(2) mult_mono [OF a(2) n(2)] by simp
  ultimately have up: "x \<le> k * y" by (rule B(1))
  have "0 < a * n" using a(1) n(1) by simp
  then have "k \<noteq> 0" using k(1) by (intro notI) simp
  then obtain j where j: "k = Suc j" using not0_implies_Suc by blast
  have j1: "100 * j + 1 \<le> a * n" using k(2) unfolding j by simp
  have "100 * (q * j) + q \<le> 100 * (p * n) + 12800 * n"
    using mult_right_mono [OF F(5), of n] mult_left_mono [OF j1, of q] by (simp add: algebra_simps)
  then have "(100 * (q * j) + q) * y \<le> (100 * (p * n) + 12800 * n) * y" by (rule mult_right_mono) simp
  then have low: "100 * (q * (j * y)) + q * y \<le> 100 * (x * q) + 200 * (p * n * q) + 12800 * n * y"
    using B(2) by (simp add: algebra_simps)
  have "a * q \<le> 100 * q" using a(2) by (rule mult_right_mono) simp
  then have pq: "p \<le> q" using F(4) by linarith
  have "200 * (p * n * q) \<le> 200 * (q * 1000000 * q)" using n(2) pq by (intro mult_left_mono mult_mono) simp_all
  also have "\<dots> = 200000000 * (q * q)" by (simp add: algebra_simps)
  also have "\<dots> < 2 ^ 52 * (q * q)" using pn(2) by (intro mult_strict_right_mono) simp_all
  finally have hi: "200 * (p * n * q) < 2 ^ 52 * (q * q)" .
  obtain h where h: "q = 2 * h" "12800 * n \<le> h" using F(3) n(2) by (intro that [of "2 ^ 59"]) simp_all
  have "12800 * n * y \<le> h * y" using h(2) by (rule mult_right_mono) simp
  moreover have "2 ^ 52 * (q * q) = h * (q * 2 ^ 53)" by (simp add: h(1))
  moreover have "h * (q * 2 ^ 53) \<le> h * y" using B(3) by (intro mult_left_mono) simp_all
  moreover have "q * y = h * y + h * y" by (simp add: h(1))
  ultimately have "200 * (p * n * q) + 12800 * n * y < q * y" using hi by linarith
  then have "100 * (q * (j * y)) < 100 * (x * q)" using low by linarith
  then have "q * (j * y) < q * x" by (simp add: mult.commute)
  then have "j * y < x" using pn(2) by simp
  then have "(x + y - 1) div y = k" using up B(4) j
    by (intro div_nat_eqI) (auto simp: algebra_simps)
  then show ?thesis using F(1) xy by (simp add: percentile_index_def k_def)
qed

text \<open>The percentile of a sorted list by nearest rank.\<close>

definition nearest_rank :: "nat \<Rightarrow> i64 list \<Rightarrow> i64" where
  "nearest_rank a xs = xs ! ((a * length xs + 99) div 100 - 1)"

lemma rank_less: "0 < n \<Longrightarrow> a \<le> 100 \<Longrightarrow> (a * n + 99) div 100 - 1 < n" for n :: nat
proof -
  assume n: "0 < n" and "a \<le> 100"
  then have "a * n \<le> 100 * n" by (intro mult_right_mono) simp_all
  then have "(a * n + 99) div 100 \<le> n" by linarith
  then show ?thesis using n by linarith
qed

lemma getPercentile_rank:
  assumes "percentile_factor a p q" "xs \<noteq> []" "length xs \<le> 1000000" "0 < a" "a \<le> 100"
  shows "getPercentile xs (a, 100) = nearest_rank a xs"
proof -
  let ?r = "(a * length xs + 99) div 100"
  have n: "0 < length xs" using assms(2) by simp
  have "percentile_index (a, 100) (length xs) = int ?r - 1" by (rule percentile_rank [OF assms(1) n assms(3-5)])
  moreover have "1 \<le> ?r" using n assms(4) ceil_div(1) [of "a * length xs"] by (cases ?r) auto
  moreover have "?r - 1 < length xs" by (rule rank_less [OF n assms(5)])
  ultimately show ?thesis using assms(2) by (simp add: getPercentile_def nearest_rank_def Let_def nat_diff_distrib')
qed

text \<open>
  C40. The percentiles of the latency report are exact. Although the index of a percentile is computed in floating point, the three
  percentiles of at most a million samples are the ones of nearest rank, the least sample that at least
  50, 95 and 99 percent of the samples do not exceed; they lie between the smallest and the largest
  sample, in order.
\<close>

theorem report_percentiles:
  assumes "samples s \<noteq> []" "length (samples s) \<le> 1000000"
  shows "let xs = sort_key sint (samples s); r = GetReport s in
    P50Ms r = durationToMs (nearest_rank 50 xs) \<and> P95Ms r = durationToMs (nearest_rank 95 xs) \<and> P99Ms r = durationToMs (nearest_rank 99 xs) \<and>
    MinMs r \<le> P50Ms r \<and> P50Ms r \<le> P95Ms r \<and> P95Ms r \<le> P99Ms r \<and> P99Ms r \<le> MaxMs r \<and>
    (\<forall>d \<in> set (samples s). MinMs r \<le> durationToMs d \<and> durationToMs d \<le> MaxMs r)"
proof -
  let ?xs = "sort_key sint (samples s)"
  have "set ?xs \<noteq> {}" using assms(1) by simp
  then have ne: "?xs \<noteq> []" by (intro notI) simp
  have ne: "?xs \<noteq> []" "length ?xs \<le> 1000000" using assms(2) ne by simp_all
  note G = getPercentile_rank [OF percentile_factors(1) ne] getPercentile_rank [OF percentile_factors(2) ne] getPercentile_rank [OF percentile_factors(3) ne]
  have n: "0 < length (samples s)" using assms(1) by simp
  have r: "P50Ms (GetReport s) = durationToMs (nearest_rank 50 ?xs)" "P95Ms (GetReport s) = durationToMs (nearest_rank 95 ?xs)"
    "P99Ms (GetReport s) = durationToMs (nearest_rank 99 ?xs)" "MinMs (GetReport s) = durationToMs (?xs ! 0)"
    "MaxMs (GetReport s) = durationToMs (?xs ! (length (samples s) - 1))"
    using assms(1) G by (simp_all add: GetReport_def Let_def)
  have mono: "durationToMs (?xs ! i) \<le> durationToMs (?xs ! j)" if "i \<le> j" "j < length (samples s)" for i j
    unfolding durationToMs_def using sorted_sint [OF that] by (intro divide_right_mono, simp_all only: of_int_le_iff)
  have ranks: "(a * length (samples s) + 99) div 100 - 1 \<le> (b * length (samples s) + 99) div 100 - 1" if "a \<le> b" for a b :: nat
    using that by (intro diff_le_mono div_le_mono) simp
  have "MinMs (GetReport s) \<le> durationToMs d \<and> durationToMs d \<le> MaxMs (GetReport s)" if "d \<in> set (samples s)" for d
  proof -
    have "d \<in> set ?xs" using that by simp
    then obtain i where "i < length (samples s)" "d = ?xs ! i" by (metis in_set_conv_nth length_sort)
    then show ?thesis using mono [of 0 i] mono [of i "length (samples s) - 1"] r(4,5) by simp
  qed
  then show ?thesis
    using mono ranks rank_less [OF n] n unfolding Let_def r nearest_rank_def by (simp add: less_imp_diff_less)
qed

theorem report_percentiles_witness:
  "P95Ms (GetReport (SamplerAdd 0 7000000 (SamplerAdd 0 3000000 (NewSampler 2)))) = 7"
proof -
  let ?s = "SamplerAdd 0 7000000 (SamplerAdd 0 3000000 (NewSampler 2))"
  have s: "samples ?s = [3000000, 7000000]" by (simp add: SamplerAdd_def NewSampler_def)
  have "P95Ms (GetReport ?s) = durationToMs (nearest_rank 95 (sort_key sint (samples ?s)))"
    using report_percentiles [of ?s] by (simp add: s Let_def)
  then show ?thesis by (simp add: s nearest_rank_def durationToMs_def sint_small del: of_int_sint)
qed

end
