(* ===== verification/Bench_Ranges.thy ===== *)
theory Bench_Ranges
  imports Broker_Prelude "HOL-Library.Multiset"
begin

text \<open>
  The check of the producer benchmark after its run (\<^verbatim>\<open>internal/bench/producer.go\<close>): the ranges of offsets that
  the broker acknowledged, in the order in which the workers recorded them, must account for the advance of
  each log end and leave no gap.
\<close>

section \<open>Ranges\<close>

record AcknowledgedRange =
  rgPartition :: u32
  rgBase :: u64
  rgLast :: u64

text \<open>The inner loop moves the element at \<open>j\<close> to the front while the one before it is greater.\<close>

fun sift :: "nat \<Rightarrow> AcknowledgedRange list \<Rightarrow> AcknowledgedRange list" where
  "sift 0 rs = rs"
| "sift (Suc j) rs =
     (if rgBase (rs ! j) > rgBase (rs ! Suc j) then sift j (rs[j := rs ! Suc j, Suc j := rs ! j]) else rs)"

definition sortRanges :: "AcknowledgedRange list \<Rightarrow> AcknowledgedRange list" where
  "sortRanges rs = fold sift [1..<length rs] rs"

section \<open>Verification\<close>

datatype verify_error = DeltaMismatch u32 | OffsetGap u32

definition get_offset :: "(u32 \<rightharpoonup> u64) \<Rightarrow> u32 \<Rightarrow> u64" where
  "get_offset m k = (case m k of None \<Rightarrow> 0 | Some v \<Rightarrow> v)"

definition ranges_of :: "u32 \<Rightarrow> AcknowledgedRange list \<Rightarrow> AcknowledgedRange list" where
  "ranges_of part rs = filter (\<lambda>r. rgPartition r = part) rs"

definition recordsPerPartition :: "u32 \<Rightarrow> AcknowledgedRange list \<Rightarrow> u64" where
  "recordsPerPartition part rs = sum_list (map (\<lambda>r. rgLast r - rgBase r + 1) (ranges_of part rs))"

fun has_gap :: "AcknowledgedRange list \<Rightarrow> bool" where
  "has_gap (r # r' # rs) \<longleftrightarrow> rgLast r + 1 \<noteq> rgBase r' \<or> has_gap (r' # rs)"
| "has_gap _ \<longleftrightarrow> False"

text \<open>\<open>order\<close> and \<open>order'\<close> are the orders of the two iterations over the partitions that have ranges.\<close>

definition verify_ranges ::
  "u32 list \<Rightarrow> u32 list \<Rightarrow> (u32 \<rightharpoonup> u64) \<Rightarrow> (u32 \<rightharpoonup> u64) \<Rightarrow> AcknowledgedRange list \<Rightarrow> verify_error option" where
  "verify_ranges order order' initial final rs =
     (case find (\<lambda>part. get_offset final part - get_offset initial part \<noteq> recordsPerPartition part rs) order of
        Some part \<Rightarrow> Some (DeltaMismatch part)
      | None \<Rightarrow>
          (case find (\<lambda>part. length (ranges_of part rs) > 1 \<and> has_gap (sortRanges (ranges_of part rs))) order' of
             Some part \<Rightarrow> Some (OffsetGap part)
           | None \<Rightarrow> None))"

section \<open>The sort is a sort\<close>

text \<open>The element is put behind the ones that are not greater.\<close>

lemma sift_insert:
  assumes "sorted (map rgBase xs)"
  shows "\<exists>us vs. xs = us @ vs \<and> sift (length xs) (xs @ x # ys) = us @ x # vs @ ys \<and>
    (\<forall>u \<in> set us. rgBase u \<le> rgBase x) \<and> (\<forall>v \<in> set vs. rgBase x < rgBase v)"
  using assms
proof (induction xs arbitrary: ys rule: rev_induct)
  case (snoc z xs)
  show ?case
  proof (cases "rgBase z > rgBase x")
    case True
    have "(xs @ z # x # ys)[length xs := x, Suc (length xs) := z] = xs @ x # z # ys"
      by (simp add: list_update_append)
    then have step: "sift (length (xs @ [z])) ((xs @ [z]) @ x # ys) = sift (length xs) (xs @ x # z # ys)"
      using True by (simp add: nth_append)
    obtain us vs where "xs = us @ vs" "sift (length xs) (xs @ x # z # ys) = us @ x # vs @ z # ys"
      "\<forall>u \<in> set us. rgBase u \<le> rgBase x" "\<forall>v \<in> set vs. rgBase x < rgBase v"
      using snoc.IH [of "z # ys"] snoc.prems by (auto simp: sorted_append)
    then show ?thesis using step True by (intro exI [of _ us] exI [of _ "vs @ [z]"]) simp
  next
    case False
    then have "sift (length (xs @ [z])) ((xs @ [z]) @ x # ys) = xs @ z # x # ys" by (simp add: nth_append)
    moreover have "\<forall>u \<in> set (xs @ [z]). rgBase u \<le> rgBase x" using False snoc.prems by (auto simp: sorted_append not_less intro: order_trans)
    ultimately show ?thesis by (intro exI [of _ "xs @ [z]"] exI [of _ "[]"]) simp
  qed
qed simp

lemma sift_sort_key: "sift (length xs) (sort_key rgBase xs @ x # ys) = sort_key rgBase (xs @ [x]) @ ys"
proof -
  obtain us vs where uv: "sort_key rgBase xs = us @ vs" "sift (length xs) (sort_key rgBase xs @ x # ys) = us @ x # vs @ ys"
    "\<forall>u \<in> set us. rgBase u \<le> rgBase x" "\<forall>v \<in> set vs. rgBase x < rgBase v"
    using sift_insert [of "sort_key rgBase xs" x ys] by auto
  have "sort_key rgBase (xs @ [x]) = us @ x # vs"
  proof (rule properties_for_sort_key)
    have "mset (us @ vs) = mset xs" by (simp only: uv(1) [symmetric] mset_sort)
    then show "mset (us @ x # vs) = mset (xs @ [x])" by simp
  next
    fix k
    have "filter (\<lambda>y. rgBase y = rgBase k) (us @ vs) = filter (\<lambda>y. rgBase y = rgBase k) xs"
      unfolding uv(1) [symmetric] by (rule sort_key_stable)
    then have "filter (\<lambda>y. rgBase k = rgBase y) (us @ vs) = filter (\<lambda>y. rgBase k = rgBase y) xs" by (simp only: eq_commute)
    moreover have "rgBase k = rgBase x \<Longrightarrow> filter (\<lambda>y. rgBase k = rgBase y) vs = []" using uv(4) by (auto simp: filter_empty_conv)
    ultimately show "filter (\<lambda>y. rgBase k = rgBase y) (us @ x # vs) = filter (\<lambda>y. rgBase k = rgBase y) (xs @ [x])" by (cases "rgBase k = rgBase x") auto
  next
    have "sorted (map rgBase (us @ vs))" unfolding uv(1) [symmetric] by (rule sorted_sort_key)
    then show "sorted (map rgBase (us @ x # vs))" using uv(3,4) by (auto simp: sorted_append)
  qed
  then show ?thesis using uv(2) by simp
qed

lemma sortRanges_sort: "sortRanges rs = sort_key rgBase rs"
proof (cases rs)
  case (Cons r0 rest)
  have "fold sift [1..<Suc n] rs = sort_key rgBase (take (Suc n) rs) @ drop (Suc n) rs" if "n < length rs" for n
    using that
  proof (induction n)
    case 0
    then show ?case by (simp add: Cons)
  next
    case (Suc n)
    have d: "drop (Suc n) rs = rs ! Suc n # drop (Suc (Suc n)) rs" using Suc.prems by (simp add: Cons_nth_drop_Suc)
    have "fold sift [1..<Suc (Suc n)] rs = sift (Suc n) (fold sift [1..<Suc n] rs)" by simp
    also have "\<dots> = sift (length (take (Suc n) rs)) (sort_key rgBase (take (Suc n) rs) @ rs ! Suc n # drop (Suc (Suc n)) rs)"
      using Suc d by simp
    also have "\<dots> = sort_key rgBase (take (Suc n) rs @ [rs ! Suc n]) @ drop (Suc (Suc n)) rs" by (rule sift_sort_key)
    finally show ?case using Suc.prems by (simp add: take_Suc_conv_app_nth)
  qed
  from this [of "length rs - 1"] show ?thesis by (simp add: sortRanges_def Cons)
qed (simp add: sortRanges_def)

section \<open>What the check accepts\<close>

definition range_ok :: "AcknowledgedRange \<Rightarrow> bool" where
  "range_ok r \<longleftrightarrow> rgBase r \<le> rgLast r \<and> unat (rgLast r) < 2 ^ 64 - 1"

lemma chain_span:
  "rs \<noteq> [] \<Longrightarrow> \<not> has_gap rs \<Longrightarrow> sum_list (map (\<lambda>r. rgLast r - rgBase r + 1) rs) = rgLast (last rs) + 1 - rgBase (hd rs)"
proof (induction rs rule: has_gap.induct)
  case (1 r r' rs)
  then show ?case by (simp add: algebra_simps)
qed simp_all

lemma chain_bases:
  "\<not> has_gap rs \<Longrightarrow> \<forall>r \<in> set rs. range_ok r \<Longrightarrow> sorted_wrt (<) (map rgBase rs)"
proof (induction rs rule: has_gap.induct)
  case (1 r r' rs)
  have "unat (rgLast r + 1) = unat (rgLast r) + 1" using 1(3) unat_add_u64 [of "rgLast r" 1] by (simp add: range_ok_def)
  then have "rgBase r < rgBase r'" using 1(2,3) by (auto simp: range_ok_def word_less_nat_alt word_le_nat_alt)
  then show ?case using 1 by (auto intro: order_less_trans)
qed simp_all

lemma chain_sorted:
  assumes "\<not> has_gap chain" "\<forall>r \<in> set rs. range_ok r" "mset chain = mset rs"
  shows "sort_key rgBase rs = chain"
proof -
  have "set chain = set rs" using assms(3) by (metis set_mset_mset)
  then have srt: "sorted_wrt (<) (map rgBase chain)" using chain_bases assms(1,2) by blast
  then have "distinct (map rgBase chain)" "sorted (map rgBase chain)" by (simp_all add: strict_sorted_iff)
  then show ?thesis using assms(3) \<open>set chain = set rs\<close> by (intro sort_key_inj_key_eq) (simp_all add: distinct_map)
qed

lemma mset_sum: "mset xs = mset ys \<Longrightarrow> sum_list (map f xs) = sum_list (map f (ys :: 'a list)) " for f :: "'a \<Rightarrow> u64"
  by (metis mset_map sum_mset_sum_list)

lemma gap_short: "\<not> length rs > 1 \<Longrightarrow> \<not> has_gap rs"
  by (cases rs rule: has_gap.cases) auto

text \<open>
  C39. The check of the producer benchmark is exact: it passes if and only if in every partition the acknowledged
  ranges, in whatever order the workers recorded them, can be put one after the other without a gap or an
  overlap, and the log end has advanced by exactly their span. The orders in which the two maps are
  iterated over do not matter.
\<close>

theorem verification_exact:
  assumes "\<forall>r \<in> set rs. range_ok r" "set order = rgPartition ` set rs" "set order' = rgPartition ` set rs"
  shows "verify_ranges order order' initial final rs = None \<longleftrightarrow>
    (\<forall>part \<in> rgPartition ` set rs. \<exists>chain. mset chain = mset (ranges_of part rs) \<and> \<not> has_gap chain \<and>
       get_offset final part = get_offset initial part + (rgLast (last chain) + 1 - rgBase (hd chain)))"
proof -
  let ?n = "\<lambda>r. rgLast r - rgBase r + 1 :: u64"
  have part: "get_offset final p - get_offset initial p = recordsPerPartition p rs \<and>
      \<not> (length (ranges_of p rs) > 1 \<and> has_gap (sortRanges (ranges_of p rs))) \<longleftrightarrow>
      (\<exists>chain. mset chain = mset (ranges_of p rs) \<and> \<not> has_gap chain \<and>
        get_offset final p = get_offset initial p + (rgLast (last chain) + 1 - rgBase (hd chain)))" (is "?L \<longleftrightarrow> ?R")
    if p: "p \<in> rgPartition ` set rs" for p
  proof -
    let ?rs = "ranges_of p rs"
    have ok: "\<forall>r \<in> set ?rs. range_ok r" using assms(1) by (simp add: ranges_of_def)
    have ne: "?rs \<noteq> []" using p by (auto simp: ranges_of_def filter_empty_conv)
    have span: "recordsPerPartition p rs = rgLast (last c) + 1 - rgBase (hd c)" if c: "mset c = mset ?rs" "\<not> has_gap c" for c
    proof -
      have "c \<noteq> []" using c(1) ne by auto
      then show ?thesis using chain_span [OF _ c(2)] mset_sum [OF c(1), of ?n] by (simp add: recordsPerPartition_def)
    qed
    show ?thesis
    proof
      assume L: ?L
      have "\<not> has_gap (sort_key rgBase ?rs)"
        using L gap_short [of "sort_key rgBase ?rs"] by (auto simp: sortRanges_sort)
      then show ?R using L span [of "sort_key rgBase ?rs"] by (intro exI [of _ "sort_key rgBase ?rs"]) (simp add: algebra_simps)
    next
      assume ?R
      then obtain c where c: "mset c = mset ?rs" "\<not> has_gap c" "get_offset final p = get_offset initial p + (rgLast (last c) + 1 - rgBase (hd c))" by blast
      then show ?L using chain_sorted [OF c(2) ok c(1)] span [OF c(1,2)] by (simp add: sortRanges_sort)
    qed
  qed
  have find_none: "verify_ranges order order' initial final rs = None \<longleftrightarrow>
      (\<forall>p \<in> set order. get_offset final p - get_offset initial p = recordsPerPartition p rs) \<and>
      (\<forall>p \<in> set order'. \<not> (length (ranges_of p rs) > 1 \<and> has_gap (sortRanges (ranges_of p rs))))"
  proof -
    have "verify_ranges order order' initial final rs = None \<longleftrightarrow>
        find (\<lambda>part. get_offset final part - get_offset initial part \<noteq> recordsPerPartition part rs) order = None \<and>
        find (\<lambda>part. length (ranges_of part rs) > 1 \<and> has_gap (sortRanges (ranges_of part rs))) order' = None"
      by (simp add: verify_ranges_def split: option.splits)
    then show ?thesis unfolding find_None_iff by blast
  qed
  have "verify_ranges order order' initial final rs = None \<longleftrightarrow>
      (\<forall>p \<in> rgPartition ` set rs. get_offset final p - get_offset initial p = recordsPerPartition p rs \<and>
        \<not> (length (ranges_of p rs) > 1 \<and> has_gap (sortRanges (ranges_of p rs))))"
    unfolding find_none assms(2,3) by blast
  then show ?thesis using part by simp
qed

theorem verification_exact_witness:
  "verify_ranges [0] [0] [0 \<mapsto> 5] [0 \<mapsto> 9] [\<lparr>rgPartition = 0, rgBase = 7, rgLast = 8\<rparr>, \<lparr>rgPartition = 0, rgBase = 5, rgLast = 6\<rparr>] = None"
proof -
  let ?a = "\<lparr>rgPartition = 0, rgBase = 7, rgLast = 8\<rparr> :: AcknowledgedRange" and ?b = "\<lparr>rgPartition = 0, rgBase = 5, rgLast = 6\<rparr> :: AcknowledgedRange"
  have ok: "\<forall>r \<in> set [?a, ?b]. range_ok r" by (simp add: range_ok_def)
  have "\<forall>part \<in> rgPartition ` set [?a, ?b]. \<exists>chain. mset chain = mset (ranges_of part [?a, ?b]) \<and> \<not> has_gap chain \<and>
      get_offset [0 \<mapsto> 9] part = get_offset [0 \<mapsto> 5] part + (rgLast (last chain) + 1 - rgBase (hd chain))"
    by (auto simp: ranges_of_def get_offset_def intro!: exI [of _ "[?b, ?a]"])
  then show ?thesis using verification_exact [OF ok, of "[0]" "[0]" "[0 \<mapsto> 5]" "[0 \<mapsto> 9]"] by simp
qed

end
