(* ===== verification/Bench_Producer.thy ===== *)
theory Bench_Producer
  imports Grpc_Handlers Bench_Latency Bench_Ranges
begin

text \<open>
  The producer benchmark (\<^verbatim>\<open>internal/bench/producer.go\<close>): any number of workers that share counters. A worker's
  loop is cut into steps at its accesses to shared state; a schedule says which worker moves next and what
  it sees of its surroundings - the clock, the caller's context, a random draw, the answer to its request.
  Counters are unbounded integers (the code's have 64 bits and count records), rates are real numbers. The
  request timeout shows only as an answer; batch sizes are positive, as the command demands.
\<close>

section \<open>Results and errors\<close>

record SystemMetadata =
  RunID :: gostring
  RunNumber :: int
  Warmup :: bool
  Commit :: gostring
  Dirty :: bool
  BuildTime :: gostring
  GoVersion :: gostring
  OSName :: gostring
  Arch :: gostring
  BrokerVersion :: gostring

record ProducerResult =
  prMetadata :: SystemMetadata
  prResTopic :: gostring
  prPartitions :: u32
  prPartitionMode :: gostring
  prFlushMode :: gostring
  prRequestedRecords :: int
  prAcknowledgedRecords :: int
  prFailedRecords :: int
  prRPCCount :: int
  prRecordSizeBytes :: int
  prBatchSize :: int
  prConcurrency :: int
  prDurationSeconds :: real
  prMessagesPerSecond :: real
  prPayloadMiBPerSecond :: real
  prLatency :: LatencyReport
  prErrors :: "code \<rightharpoonup> int"

text \<open>The error of a request: the context's own, or one that carries a status.\<close>

datatype client_error = ContextCanceled | RpcStatus code

fun error_code :: "client_error \<Rightarrow> code" where
  "error_code ContextCanceled = Unknown"
| "error_code (RpcStatus c) = c"

definition count_error :: "client_error \<Rightarrow> (code \<rightharpoonup> int) \<Rightarrow> (code \<rightharpoonup> int)" where
  "count_error err m = (let k = error_code err in m(k \<mapsto> (case m k of None \<Rightarrow> 0 | Some n \<Rightarrow> n) + 1))"

definition with_canceled :: "int \<Rightarrow> (code \<rightharpoonup> int) \<Rightarrow> (code \<rightharpoonup> int)" where
  "with_canceled n m = (if n > 0 then m(Canceled \<mapsto> n) else m)"

section \<open>The benchmark\<close>

record ProducerBench =
  prodTopic :: gostring
  prodMsgSize :: int
  prodTotal :: int
  prodDuration :: int
  prodConcurrency :: int
  prodBatchSize :: int
  prodPartition :: int
  prodFailFast :: bool
  prodFlushMode :: gostring
  prodMetadata :: SystemMetadata
  prodSampler :: Sampler
  prodNextRecord :: int
  prodAcknowledged :: int
  prodFailed :: int
  prodRpcCount :: int
  prodCanceled :: int
  prodRanges :: "AcknowledgedRange list"
  prodErrs :: "code \<rightharpoonup> int"
  prodFirstErr :: "client_error option"

definition NewProducerBench ::
  "gostring \<Rightarrow> int \<Rightarrow> int \<Rightarrow> int \<Rightarrow> int \<Rightarrow> int \<Rightarrow> int \<Rightarrow> bool \<Rightarrow> gostring \<Rightarrow> SystemMetadata \<Rightarrow> ProducerBench" where
  "NewProducerBench topic msgSize records duration concurrency batchSize part failFast mode meta =
     \<lparr>prodTopic = topic, prodMsgSize = msgSize, prodTotal = records, prodDuration = duration, prodConcurrency = concurrency,
      prodBatchSize = batchSize, prodPartition = part, prodFailFast = failFast, prodFlushMode = mode, prodMetadata = meta,
      prodSampler = NewSampler 1000000, prodNextRecord = 0, prodAcknowledged = 0, prodFailed = 0, prodRpcCount = 0,
      prodCanceled = 0, prodRanges = [], prodErrs = Map.empty, prodFirstErr = None\<rparr>"

text \<open>
  Where a worker is: before the look at the context, before its claim, before the choice of a partition, in a
  request, before the cancellation, or gone.
\<close>

datatype pworker = PReady | PChecked | PClaimed int | PWaiting ProduceRequest int | PCancelling | PGone

text \<open>The benchmark with the variables of \<^verbatim>\<open>Run\<close>.\<close>

record ProducerState =
  psBench :: ProducerBench
  psPartitionCount :: u32
  psStart :: int
  psCounter :: u64
  psStopped :: bool
  psWorkers :: "pworker list"

record ptick =
  ptNow :: int
  ptDone :: bool
  ptMillis :: "nat \<Rightarrow> i64"
  ptDraw :: u64
  ptAnswer :: "client_error + ProduceResponse"

definition bench_records :: "nat \<Rightarrow> int \<Rightarrow> (nat \<Rightarrow> i64) \<Rightarrow> ProtoRecord list" where
  "bench_records n msgSize millis =
     map (\<lambda>j. \<lparr>pbKey = None, pbValue = Some (replicate (nat msgSize) 0x78), pbHeaders = [], pbTimestamp = millis j\<rparr>) [0..<n]"

definition producer_claim :: "int \<Rightarrow> int \<Rightarrow> ProducerBench \<Rightarrow> pworker \<times> ProducerBench" where
  "producer_claim now start b =
     (if prodDuration b > 0 then
        (if now - start \<ge> prodDuration b then (PGone, b)
         else (PClaimed (prodBatchSize b), b\<lparr>prodNextRecord := prodNextRecord b + prodBatchSize b\<rparr>))
      else
      let startIdx = prodNextRecord b;
          b = b\<lparr>prodNextRecord := startIdx + prodBatchSize b\<rparr> in
      if startIdx \<ge> prodTotal b then (PGone, b)
      else
      let remaining = prodTotal b - startIdx in
      (PClaimed (if remaining < prodBatchSize b then remaining else prodBatchSize b), b))"

definition producer_route :: "ProducerState \<Rightarrow> u32 \<times> ProducerState" where
  "producer_route s =
     (if prodPartition (psBench s) \<noteq> -1 then (word_of_int (prodPartition (psBench s)), s)
      else (ucast (psCounter s mod ucast (psPartitionCount s)), s\<lparr>psCounter := psCounter s + 1\<rparr>))"

definition producer_answer :: "ptick \<Rightarrow> bool \<Rightarrow> ProduceRequest \<Rightarrow> int \<Rightarrow> ProducerBench \<Rightarrow> pworker \<times> ProducerBench" where
  "producer_answer t ended req reqStart b =
     (let n = int (length (prRecords req));
          b = b\<lparr>prodRpcCount := prodRpcCount b + 1\<rparr> in
      case ptAnswer t of
        Inl err \<Rightarrow>
          if err = ContextCanceled \<and> ended then (PReady, b\<lparr>prodCanceled := prodCanceled b + 1\<rparr>)
          else
          (if prodFailFast b then PCancelling else PReady,
           b\<lparr>prodFailed := prodFailed b + n, prodErrs := count_error err (prodErrs b),
             prodFirstErr := (case prodFirstErr b of None \<Rightarrow> Some err | Some x \<Rightarrow> Some x)\<rparr>)
      | Inr resp \<Rightarrow>
          (PReady,
           b\<lparr>prodSampler := SamplerAdd (ptDraw t) (word_of_int (ptNow t - reqStart)) (prodSampler b),
             prodAcknowledged := prodAcknowledged b + n,
             prodRanges := prodRanges b @ [\<lparr>rgPartition = prPartition req, rgBase = prBaseOffset resp, rgLast = prLastOffset resp\<rparr>]\<rparr>))"

text \<open>One step of a worker; one that is gone has none.\<close>

fun producer_move :: "ptick \<Rightarrow> pworker \<Rightarrow> ProducerState \<Rightarrow> (pworker \<times> ProducerState) option" where
  "producer_move t PReady s = Some (if psStopped s \<or> ptDone t then PGone else PChecked, s)"
| "producer_move t PChecked s =
     (case producer_claim (ptNow t) (psStart s) (psBench s) of (w, b) \<Rightarrow> Some (w, s\<lparr>psBench := b\<rparr>))"
| "producer_move t (PClaimed n) s =
     (case producer_route s of (part, s) \<Rightarrow>
        Some (PWaiting \<lparr>prTopic = prodTopic (psBench s), prPartition = part,
                prRecords = bench_records (nat n) (prodMsgSize (psBench s)) (ptMillis t)\<rparr> (ptNow t), s))"
| "producer_move t (PWaiting req reqStart) s =
     (case producer_answer t (psStopped s \<or> ptDone t) req reqStart (psBench s) of (w, b) \<Rightarrow> Some (w, s\<lparr>psBench := b\<rparr>))"
| "producer_move t PCancelling s = Some (PGone, s\<lparr>psStopped := True\<rparr>)"
| "producer_move t PGone s = None"

definition producer_step :: "nat \<times> ptick \<Rightarrow> ProducerState \<Rightarrow> ProducerState option" where
  "producer_step it s =
     (case it of (i, t) \<Rightarrow>
        if i < length (psWorkers s) then
          (case producer_move t (psWorkers s ! i) s of
             None \<Rightarrow> None
           | Some (w, s') \<Rightarrow> Some (s'\<lparr>psWorkers := (psWorkers s)[i := w]\<rparr>))
        else None)"

fun producer_steps :: "(nat \<times> ptick) list \<Rightarrow> ProducerState \<Rightarrow> ProducerState option" where
  "producer_steps [] s = Some s"
| "producer_steps (it # its) s = (case producer_step it s of None \<Rightarrow> None | Some s' \<Rightarrow> producer_steps its s')"

definition producer_start :: "u32 \<Rightarrow> int \<Rightarrow> ProducerBench \<Rightarrow> ProducerState" where
  "producer_start partitionCount start b =
     \<lparr>psBench = b, psPartitionCount = partitionCount, psStart = start, psCounter = 0, psStopped = False,
      psWorkers = replicate (nat (prodConcurrency b)) PReady\<rparr>"

definition producer_done :: "ProducerState \<Rightarrow> bool" where
  "producer_done s = list_all (\<lambda>w. w = PGone) (psWorkers s)"

section \<open>The run\<close>

definition end_offsets :: "TopicMetadata \<Rightarrow> (u32 \<rightharpoonup> u64)" where
  "end_offsets t = map_of (rev (map (\<lambda>p. (pmPartitionId p, pmLogEndOffset p)) (tmPartitions t)))"

datatype producer_error =
    DescribeFailed client_error
  | NoPartitions
  | PartitionOutOfBounds int
  | FailFast client_error
  | VerificationFailed verify_error

definition per_second :: "int \<Rightarrow> real \<Rightarrow> real" where
  "per_second nanos x = (if nanos > 0 then x / (of_int nanos / 1000000000) else 0)"

definition producer_result :: "u32 \<Rightarrow> int \<Rightarrow> ProducerBench \<Rightarrow> ProducerResult" where
  "producer_result partitionCount nanos b =
     \<lparr>prMetadata = prodMetadata b, prResTopic = prodTopic b, prPartitions = partitionCount,
      prPartitionMode = (if prodPartition b \<noteq> -1 then str ''explicit'' else str ''round-robin''), prFlushMode = prodFlushMode b,
      prRequestedRecords = prodTotal b, prAcknowledgedRecords = prodAcknowledged b, prFailedRecords = prodFailed b,
      prRPCCount = prodRpcCount b, prRecordSizeBytes = prodMsgSize b, prBatchSize = prodBatchSize b, prConcurrency = prodConcurrency b,
      prDurationSeconds = of_int nanos / 1000000000, prMessagesPerSecond = per_second nanos (of_int (prodAcknowledged b)),
      prPayloadMiBPerSecond = per_second nanos (of_int (prodAcknowledged b) * of_int (prodMsgSize b) / (1024 * 1024)),
      prLatency = GetReport (prodSampler b), prErrors = with_canceled (prodCanceled b) (prodErrs b)\<rparr>"

text \<open>The part after the workers: the offsets are verified, then reported.\<close>

definition producer_verified ::
  "client_error + TopicMetadata \<Rightarrow> u32 list \<Rightarrow> u32 list \<Rightarrow> (u32 \<rightharpoonup> u64) \<Rightarrow> u32 \<Rightarrow> int \<times> int \<Rightarrow> ProducerBench \<Rightarrow>
   (producer_error + ProducerResult) option" where
  "producer_verified final_desc order order' initial partitionCount clock b =
     (case final_desc of
        Inl err \<Rightarrow> Some (Inl (DescribeFailed err))
      | Inr topic \<Rightarrow>
          (case verify_ranges order order' initial (end_offsets topic) (prodRanges b) of
             Some err \<Rightarrow> Some (Inl (VerificationFailed err))
           | None \<Rightarrow> Some (Inr (producer_result partitionCount (snd clock - fst clock) b))))"

text \<open>
  \<open>Run\<close>, given the two descriptions of the topic, the schedule of the workers, the times of start and end and
  the orders in which the two loops over maps go. It has no result while a worker is not gone.
\<close>

definition ProducerRun ::
  "client_error + TopicMetadata \<Rightarrow> client_error + TopicMetadata \<Rightarrow> (nat \<times> ptick) list \<Rightarrow> int \<times> int \<Rightarrow> u32 list \<Rightarrow> u32 list \<Rightarrow>
   ProducerBench \<Rightarrow> (producer_error + ProducerResult) option" where
  "ProducerRun desc final_desc sched clock order order' b =
     (case desc of
        Inl err \<Rightarrow> Some (Inl (DescribeFailed err))
      | Inr topic \<Rightarrow>
          let partitionCount = tmPartitionCount topic in
          if partitionCount = 0 then Some (Inl NoPartitions)
          else if prodPartition b \<noteq> -1 \<and> (prodPartition b < 0 \<or> partitionCount \<le> word_of_int (prodPartition b))
          then Some (Inl (PartitionOutOfBounds (prodPartition b)))
          else
          (case producer_steps sched (producer_start partitionCount (fst clock) b) of
             None \<Rightarrow> None
           | Some s \<Rightarrow>
               if \<not> producer_done s then None
               else
               let b = psBench s in
               (case prodFirstErr b of
                  Some err \<Rightarrow> if prodFailFast b then Some (Inl (FailFast err)) else
                    producer_verified final_desc order order' (end_offsets topic) partitionCount clock b
                | None \<Rightarrow> producer_verified final_desc order order' (end_offsets topic) partitionCount clock b)))"

section \<open>Termination\<close>

text \<open>What is left to do: four steps for every batch not yet claimed, and what each worker still has before it is gone.\<close>

definition batches_left :: "ProducerBench \<Rightarrow> nat" where
  "batches_left b = nat ((prodTotal b - prodNextRecord b + prodBatchSize b - 1) div prodBatchSize b)"

fun pworker_left :: "pworker \<Rightarrow> nat" where
  "pworker_left PReady = 2"
| "pworker_left PChecked = 1"
| "pworker_left (PClaimed n) = 4"
| "pworker_left (PWaiting req reqStart) = 3"
| "pworker_left PCancelling = 1"
| "pworker_left PGone = 0"

definition producer_left :: "ProducerState \<Rightarrow> nat" where
  "producer_left s = 4 * batches_left (psBench s) + sum_list (map pworker_left (psWorkers s))"

definition count_mode :: "ProducerBench \<Rightarrow> bool" where
  "count_mode b = (prodDuration b \<le> 0 \<and> 0 < prodBatchSize b)"

lemma sum_list_map_update:
  fixes f :: "'a \<Rightarrow> 'b::ab_group_add"
  shows "i < length xs \<Longrightarrow> sum_list (map f (xs[i := x])) = sum_list (map f xs) - f (xs ! i) + f x"
  by (induction xs arbitrary: i) (auto split: nat.splits simp: algebra_simps)

lemma batches_left_claim:
  assumes "0 < prodBatchSize b" "prodNextRecord b < prodTotal b"
  shows "batches_left b = Suc (batches_left (b\<lparr>prodNextRecord := prodNextRecord b + prodBatchSize b\<rparr>))"
proof -
  let ?k = "prodBatchSize b" and ?d = "prodTotal b - prodNextRecord b"
  have "(?d + ?k - 1) div ?k = (?d - 1) div ?k + 1" using assms div_add_self2 [of ?k "?d - 1"] by (simp add: algebra_simps)
  moreover have "0 \<le> (?d - 1) div ?k" using assms by (simp add: pos_imp_zdiv_nonneg_iff)
  ultimately show ?thesis by (simp add: batches_left_def algebra_simps nat_add_distrib)
qed

lemma batches_left_mono:
  "0 < prodBatchSize b \<Longrightarrow> batches_left (b\<lparr>prodNextRecord := prodNextRecord b + prodBatchSize b\<rparr>) \<le> batches_left b"
  using zdiv_mono1 [of "prodTotal b - prodNextRecord b - 1" "prodTotal b - prodNextRecord b + prodBatchSize b - 1" "prodBatchSize b"]
  by (simp add: batches_left_def nat_mono)


text \<open>Every step of every worker takes off at least one.\<close>

lemma producer_move_left:
  assumes "count_mode (psBench s)" "producer_move t w s = Some (w', s')"
  shows "count_mode (psBench s') \<and> 4 * batches_left (psBench s') + pworker_left w' < 4 * batches_left (psBench s) + pworker_left w"
  using assms batches_left_claim [of "psBench s"] batches_left_mono [of "psBench s"]
  by (cases "(t, w, s)" rule: producer_move.cases)
    (auto simp: count_mode_def producer_claim_def producer_route_def producer_answer_def Let_def batches_left_def split: if_splits sum.splits prod.splits)

lemma producer_move_workers: "producer_move t w s = Some (w', s') \<Longrightarrow> psWorkers s' = psWorkers s"
  by (cases "(t, w, s)" rule: producer_move.cases) (auto simp: producer_route_def split: if_splits prod.splits)

lemma producer_stepE:
  assumes "producer_step (i, t) s = Some s'"
  obtains w s'' where "i < length (psWorkers s)" "producer_move t (psWorkers s ! i) s = Some (w, s'')"
    "s' = s''\<lparr>psWorkers := (psWorkers s)[i := w]\<rparr>"
  using assms by (auto simp: producer_step_def split: if_splits option.splits)

lemma sum_list_nat_update:
  "i < length xs \<Longrightarrow> sum_list (map f (xs[i := x])) + f (xs ! i) = sum_list (map f xs) + (f x :: nat)"
  by (induction xs arbitrary: i) (auto split: nat.splits)

lemma producer_step_left:
  assumes "count_mode (psBench s)" "producer_step it s = Some s'"
  shows "count_mode (psBench s') \<and> producer_left s' < producer_left s"
proof -
  obtain i t where it: "it = (i, t)" by (cases it)
  obtain w s'' where i: "i < length (psWorkers s)" and m: "producer_move t (psWorkers s ! i) s = Some (w, s'')"
    and s': "s' = s''\<lparr>psWorkers := (psWorkers s)[i := w]\<rparr>" using assms(2) unfolding it by (rule producer_stepE)
  show ?thesis using producer_move_left [OF assms(1) m] sum_list_nat_update [OF i, of pworker_left w] by (simp add: s' producer_left_def)
qed

lemma producer_steps_left:
  "count_mode (psBench s) \<Longrightarrow> producer_steps its s = Some s' \<Longrightarrow> length its + producer_left s' \<le> producer_left s"
proof (induction its arbitrary: s)
  case (Cons it its)
  then show ?case using producer_step_left [of s it] by (fastforce split: option.splits)
qed simp

lemma producer_step_enabled: "\<not> producer_done s \<Longrightarrow> \<exists>i < length (psWorkers s). \<forall>t. producer_step (i, t) s \<noteq> None"
proof -
  assume "\<not> producer_done s"
  then obtain i where i: "i < length (psWorkers s)" "psWorkers s ! i \<noteq> PGone" by (auto simp: producer_done_def list_all_length)
  have "producer_move t (psWorkers s ! i) s \<noteq> None" for t using i(2) by (cases "psWorkers s ! i") (auto split: prod.splits)
  with i(1) show ?thesis by (auto simp: producer_step_def split: option.splits)
qed

section \<open>Accounting\<close>

text \<open>Records claimed by a worker and not yet accounted for.\<close>

fun pworker_holds :: "pworker \<Rightarrow> int" where
  "pworker_holds (PClaimed n) = n"
| "pworker_holds (PWaiting req reqStart) = int (length (prRecords req))"
| "pworker_holds w = 0"

definition claimed :: "ProducerBench \<Rightarrow> int" where
  "claimed b = min (prodNextRecord b) (prodTotal b)"

text \<open>Nothing is lost while no request is cancelled: what was claimed is acknowledged, failed, or in a worker's hands.\<close>

definition producer_inv :: "ProducerState \<Rightarrow> bool" where
  "producer_inv s =
     (let b = psBench s in
      count_mode b \<and> \<not> prodFailFast b \<and> \<not> psStopped s \<and> prodCanceled b = 0 \<and> 0 \<le> prodNextRecord b \<and> 0 \<le> prodTotal b \<and>
      PCancelling \<notin> set (psWorkers s) \<and> (\<forall>n. PClaimed n \<in> set (psWorkers s) \<longrightarrow> 0 \<le> n) \<and>
      (PGone \<in> set (psWorkers s) \<longrightarrow> prodTotal b \<le> prodNextRecord b) \<and>
      prodAcknowledged b + prodFailed b + sum_list (map pworker_holds (psWorkers s)) = claimed b)"

lemma producer_move_inv:
  assumes "producer_inv s" "\<not> ptDone t" "w \<in> set (psWorkers s)" "producer_move t w s = Some (w', s')"
  shows "count_mode (psBench s') \<and> \<not> prodFailFast (psBench s') \<and> \<not> psStopped s' \<and> prodCanceled (psBench s') = 0 \<and>
    prodTotal (psBench s') = prodTotal (psBench s) \<and> prodNextRecord (psBench s) \<le> prodNextRecord (psBench s') \<and>
    w' \<noteq> PCancelling \<and> (\<forall>n. w' = PClaimed n \<longrightarrow> 0 \<le> n) \<and> (w' = PGone \<longrightarrow> prodTotal (psBench s') \<le> prodNextRecord (psBench s')) \<and>
    prodAcknowledged (psBench s') + prodFailed (psBench s') + pworker_holds w' - claimed (psBench s') =
    prodAcknowledged (psBench s) + prodFailed (psBench s) + pworker_holds w - claimed (psBench s)"
  using assms
  by (cases "(t, w, s)" rule: producer_move.cases)
    (auto simp: producer_inv_def count_mode_def claimed_def producer_claim_def producer_route_def producer_answer_def bench_records_def
      Let_def min_def split: if_splits sum.splits prod.splits)


lemma producer_step_inv:
  assumes "producer_inv s" "\<not> ptDone t" "producer_step (i, t) s = Some s'"
  shows "producer_inv s'"
proof -
  obtain w s'' where i: "i < length (psWorkers s)" and m: "producer_move t (psWorkers s ! i) s = Some (w, s'')"
    and s': "s' = s''\<lparr>psWorkers := (psWorkers s)[i := w]\<rparr>" using assms(3) by (rule producer_stepE)
  note mv = producer_move_inv [OF assms(1,2) nth_mem [OF i] m]
  have sub: "set (psWorkers s') \<subseteq> insert w (set (psWorkers s))" by (simp add: s' set_update_subset_insert)
  have "sum_list (map pworker_holds (psWorkers s')) = sum_list (map pworker_holds (psWorkers s)) - pworker_holds (psWorkers s ! i) + pworker_holds w"
    using sum_list_map_update [OF i, of pworker_holds w] by (simp add: s')
  moreover have "psBench s' = psBench s''" "psStopped s' = psStopped s''" by (simp_all add: s')
  ultimately show ?thesis using assms(1) mv sub unfolding producer_inv_def Let_def by (auto 0 2)
qed

lemma producer_steps_inv:
  "producer_inv s \<Longrightarrow> \<forall>it \<in> set its. \<not> ptDone (snd it) \<Longrightarrow> producer_steps its s = Some s' \<Longrightarrow>
   producer_inv s' \<and> prodTotal (psBench s') = prodTotal (psBench s) \<and> length (psWorkers s') = length (psWorkers s)"
proof (induction its arbitrary: s)
  case (Cons it its)
  obtain i t where it: "it = (i, t)" by (cases it)
  obtain u where u: "producer_step (i, t) s = Some u" "producer_steps its u = Some s'" using Cons.prems(3) by (auto simp: it split: option.splits)
  have d: "\<not> ptDone t" using Cons.prems(2) by (simp add: it)
  have "prodTotal (psBench u) = prodTotal (psBench s) \<and> length (psWorkers u) = length (psWorkers s)"
  proof (rule producer_stepE [OF u(1)])
    fix w s''
    assume "i < length (psWorkers s)" "producer_move t (psWorkers s ! i) s = Some (w, s'')" "u = s''\<lparr>psWorkers := (psWorkers s)[i := w]\<rparr>"
    then show ?thesis using producer_move_inv [OF Cons.prems(1) d nth_mem, of i w s''] by simp
  qed
  then show ?case using Cons.IH [OF producer_step_inv [OF Cons.prems(1) d u(1)] _ u(2)] Cons.prems(2) by simp
qed simp

lemma producer_done_holds: "producer_done s \<Longrightarrow> sum_list (map pworker_holds (psWorkers s)) = 0"
proof -
  have "list_all (\<lambda>w. w = PGone) ws \<Longrightarrow> sum_list (map pworker_holds ws) = 0" for ws by (induction ws) auto
  then show "producer_done s \<Longrightarrow> ?thesis" by (simp add: producer_done_def)
qed

section \<open>Properties\<close>



section \<open>A run\<close>

text \<open>Two workers and three records in batches of two: one batch is acknowledged, the other fails.\<close>

definition sample_meta :: SystemMetadata where
  "sample_meta = \<lparr>RunID = [], RunNumber = 1, Warmup = False, Commit = [], Dirty = False, BuildTime = [], GoVersion = [],
     OSName = [], Arch = [], BrokerVersion = []\<rparr>"

definition sample_producer :: ProducerBench where
  "sample_producer = NewProducerBench (str ''t'') 1 3 0 2 2 (-1) False (str ''sync'') sample_meta"

definition sample_tick :: "client_error + ProduceResponse \<Rightarrow> ptick" where
  "sample_tick r = \<lparr>ptNow = 0, ptDone = False, ptMillis = (\<lambda>_. 0), ptDraw = 0, ptAnswer = r\<rparr>"

definition sample_schedule :: "(nat \<times> ptick) list" where
  "sample_schedule =
     (let acked = sample_tick (Inr \<lparr>prBaseOffset = 0, prLastOffset = 1, prRecordCount = 2\<rparr>);
          failed = sample_tick (Inl (RpcStatus Unavailable)) in
      [(0, acked), (1, acked), (1, acked), (0, acked), (0, acked), (1, acked), (1, failed), (0, acked),
       (0, acked), (1, acked), (1, acked), (0, acked)])"

definition sample_producer_end :: ProducerState where
  "sample_producer_end = the (producer_steps sample_schedule (producer_start 1 0 sample_producer))"

lemmas sample_producer_simps = sample_producer_end_def sample_schedule_def sample_tick_def sample_producer_def sample_meta_def
  producer_start_def NewProducerBench_def producer_step_def producer_claim_def producer_route_def producer_answer_def
  producer_done_def bench_records_def numeral_2_eq_2

lemma sample_producer_ends:
  "producer_steps sample_schedule (producer_start 1 0 sample_producer) = Some sample_producer_end"
  "producer_done sample_producer_end"
  by (simp_all add: sample_producer_simps Let_def)



end
