(* ===== verification/Bench_Consumer.thy ===== *)
theory Bench_Consumer
  imports Bench_Producer
begin

text \<open>
  The consumer benchmark (\<^verbatim>\<open>internal/bench/consumer.go\<close>): workers that take partitions from a channel and read
  each of them, and share the count of the records consumed. The loop of a worker is cut into steps at its accesses to
  shared state, the load and the swap of \<open>claimConsumed\<close> among them; a schedule orders the steps as for the
  producer.
\<close>

section \<open>The benchmark\<close>

datatype consumer_error =
    CDescribeFailed client_error
  | CNoPartitions
  | CPartitionOutOfBounds int
  | RpcFailed client_error
  | IdleTimeout u32
  | OffsetContinuity u32 u64 u64
  | Exhausted int

record ConsumerBench =
  consTopic :: gostring
  consPartition :: int
  consTarget :: int
  consDuration :: int
  consMaxFetchBytes :: int
  consConcurrency :: int
  consOffset :: u64
  consIdleTimeout :: int
  consMetadata :: SystemMetadata
  consSampler :: Sampler
  consObserved :: int
  consCounted :: int
  consOvershoot :: int
  consBytes :: int
  consRpcCount :: int
  consFailed :: int
  consCanceled :: int
  consErrs :: "code \<rightharpoonup> int"
  consFirstErr :: "consumer_error option"

definition NewConsumerBench ::
  "gostring \<Rightarrow> int \<Rightarrow> int \<Rightarrow> int \<Rightarrow> int \<Rightarrow> int \<Rightarrow> u64 \<Rightarrow> int \<Rightarrow> SystemMetadata \<Rightarrow> ConsumerBench" where
  "NewConsumerBench topic part target duration maxFetchBytes concurrency offset idleTimeout meta =
     \<lparr>consTopic = topic, consPartition = part, consTarget = target, consDuration = duration, consMaxFetchBytes = maxFetchBytes,
      consConcurrency = concurrency, consOffset = offset, consIdleTimeout = idleTimeout, consMetadata = meta,
      consSampler = NewSampler 1000000, consObserved = 0, consCounted = 0, consOvershoot = 0, consBytes = 0, consRpcCount = 0,
      consFailed = 0, consCanceled = 0, consErrs = Map.empty, consFirstErr = None\<rparr>"

text \<open>The variables of the inner loop.\<close>

record cursor =
  cuPart :: u32
  cuOffset :: u64
  cuActivity :: int

text \<open>
  Where a worker is: before the look at the context, before it takes a partition, at the head of the inner
  loop, in a request, before the load and before the swap of the count, before the other counters, in one of
  the two pauses, before the cancellation, or gone.
\<close>

datatype cworker =
    CReady
  | CTaking
  | CLoop cursor
  | CFetching cursor FetchRequest int
  | CLoading cursor "ProtoStoredRecord list" u64
  | CSwapping cursor "ProtoStoredRecord list" u64 int
  | CCounting cursor "ProtoStoredRecord list" u64 int
  | CPausing nat cursor
  | CCancelling
  | CGone

record ConsumerState =
  csBench :: ConsumerBench
  csStart :: int
  csStopped :: bool
  csChannel :: "u32 list"
  csWorkers :: "cworker list"

text \<open>\<open>ctDoneFirst\<close> is the choice of a \<^verbatim>\<open>select\<close> where the end of the context is ready beside another case.\<close>

record ctick =
  ctNow :: int
  ctDone :: bool
  ctDoneFirst :: bool
  ctDraw :: u64
  ctAnswer :: "client_error + FetchResponse"

definition crash :: "consumer_error \<Rightarrow> ConsumerBench \<Rightarrow> ConsumerBench" where
  "crash err b = b\<lparr>consFirstErr := (case consFirstErr b of None \<Rightarrow> Some err | Some x \<Rightarrow> Some x)\<rparr>"

fun out_of_order :: "u64 \<Rightarrow> ProtoStoredRecord list \<Rightarrow> (u64 \<times> u64) option" where
  "out_of_order expected [] = None"
| "out_of_order expected (r # rs) = (if psOffset r \<noteq> expected then Some (expected, psOffset r) else out_of_order (expected + 1) rs)"

definition payload_bytes :: "ProtoStoredRecord list \<Rightarrow> int" where
  "payload_bytes rs = sum_list (map (\<lambda>r. int (olen (psKey r) + olen (psValue r))) rs)"

definition accept_count :: "int \<Rightarrow> int \<Rightarrow> int \<Rightarrow> int" where
  "accept_count target current recordsReturned =
     (if current + recordsReturned > target then target - current else recordsReturned)"

section \<open>The steps\<close>

definition fetch_request :: "ConsumerBench \<Rightarrow> cursor \<Rightarrow> FetchRequest" where
  "fetch_request b cu = \<lparr>frTopic = consTopic b, frPartition = cuPart cu, frOffset = cuOffset cu, frMaxBytes = word_of_int (consMaxFetchBytes b)\<rparr>"

definition consumer_head :: "int \<Rightarrow> int \<Rightarrow> cursor \<Rightarrow> ConsumerBench \<Rightarrow> cworker \<times> ConsumerBench" where
  "consumer_head now start cu b =
     (if consDuration b > 0 \<and> now - start \<ge> consDuration b then (CGone, b)
      else if consDuration b \<le> 0 \<and> consCounted b \<ge> consTarget b then (CGone, b)
      else if now - cuActivity cu > consIdleTimeout b then (CCancelling, crash (IdleTimeout (cuPart cu)) b)
      else (CFetching cu (fetch_request b cu) now, b))"

text \<open>The end of the inner loop's body: on to the next partition, another round, or a pause before it.\<close>

definition consumer_tail :: "ConsumerBench \<Rightarrow> cursor \<Rightarrow> bool \<Rightarrow> u64 \<Rightarrow> cworker" where
  "consumer_tail b cu none logEnd =
     (if cuOffset cu \<ge> logEnd then
        (if consDuration b > 0 then
           (let cu = cu\<lparr>cuOffset := consOffset b\<rparr> in if none then CPausing 2 cu else CLoop cu)
         else CReady)
      else if none then CPausing 1 cu else CLoop cu)"

definition consumer_answer :: "ctick \<Rightarrow> bool \<Rightarrow> cursor \<Rightarrow> int \<Rightarrow> ConsumerBench \<Rightarrow> cworker \<times> ConsumerBench" where
  "consumer_answer t ended cu reqStart b =
     (let b = b\<lparr>consRpcCount := consRpcCount b + 1\<rparr> in
      case ctAnswer t of
        Inl err \<Rightarrow>
          if err = ContextCanceled \<and> ended then (CGone, b\<lparr>consCanceled := consCanceled b + 1\<rparr>)
          else (CCancelling, crash (RpcFailed err) (b\<lparr>consFailed := consFailed b + 1, consErrs := count_error err (consErrs b)\<rparr>))
      | Inr resp \<Rightarrow>
          let b = b\<lparr>consSampler := SamplerAdd (ctDraw t) (word_of_int (ctNow t - reqStart)) (consSampler b)\<rparr> in
          if frRecords resp = [] then (consumer_tail b cu True (frLogEndOffset resp), b)
          else
          (case out_of_order (cuOffset cu) (frRecords resp) of
             Some (expected, got) \<Rightarrow> (CCancelling, crash (OffsetContinuity (cuPart cu) expected got) b)
           | None \<Rightarrow> (CLoading (cu\<lparr>cuActivity := ctNow t\<rparr>) (frRecords resp) (frLogEndOffset resp), b)))"

definition consumer_count :: "ProtoStoredRecord list \<Rightarrow> int \<Rightarrow> ConsumerBench \<Rightarrow> ConsumerBench" where
  "consumer_count records accepted b =
     b\<lparr>consObserved := consObserved b + int (length records), consOvershoot := consOvershoot b + (int (length records) - accepted),
       consBytes := consBytes b + payload_bytes (take (nat accepted) records)\<rparr>"

fun consumer_move :: "ctick \<Rightarrow> cworker \<Rightarrow> ConsumerState \<Rightarrow> (cworker \<times> ConsumerState) option" where
  "consumer_move t CReady s = Some (if csStopped s \<or> ctDone t then CGone else CTaking, s)"
| "consumer_move t CTaking s =
     (if (csStopped s \<or> ctDone t) \<and> ctDoneFirst t then Some (CGone, s)
      else
      case csChannel s of
        [] \<Rightarrow> Some (CGone, s)
      | p # ps \<Rightarrow> Some (CLoop \<lparr>cuPart = p, cuOffset = consOffset (csBench s), cuActivity = ctNow t\<rparr>, s\<lparr>csChannel := ps\<rparr>))"
| "consumer_move t (CLoop cu) s =
     (case consumer_head (ctNow t) (csStart s) cu (csBench s) of (w, b) \<Rightarrow> Some (w, s\<lparr>csBench := b\<rparr>))"
| "consumer_move t (CFetching cu req reqStart) s =
     (case consumer_answer t (csStopped s \<or> ctDone t) cu reqStart (csBench s) of (w, b) \<Rightarrow> Some (w, s\<lparr>csBench := b\<rparr>))"
| "consumer_move t (CLoading cu records logEnd) s =
     (let current = consCounted (csBench s) in
      Some (if current \<ge> consTarget (csBench s) then CCounting cu records logEnd 0 else CSwapping cu records logEnd current, s))"
| "consumer_move t (CSwapping cu records logEnd current) s =
     (let b = csBench s; accepted = accept_count (consTarget b) current (int (length records)) in
      if consCounted b = current then Some (CCounting cu records logEnd accepted, s\<lparr>csBench := b\<lparr>consCounted := current + accepted\<rparr>\<rparr>)
      else Some (CLoading cu records logEnd, s))"
| "consumer_move t (CCounting cu records logEnd accepted) s =
     Some (consumer_tail (csBench s) (cu\<lparr>cuOffset := psOffset (last records) + 1\<rparr>) False logEnd,
       s\<lparr>csBench := consumer_count records accepted (csBench s)\<rparr>)"
| "consumer_move t (CPausing n cu) s =
     Some (if (csStopped s \<or> ctDone t) \<and> ctDoneFirst t then CGone else if n > 1 then CPausing (n - 1) cu else CLoop cu, s)"
| "consumer_move t CCancelling s = Some (CGone, s\<lparr>csStopped := True\<rparr>)"
| "consumer_move t CGone s = None"

definition consumer_step :: "nat \<times> ctick \<Rightarrow> ConsumerState \<Rightarrow> ConsumerState option" where
  "consumer_step it s =
     (case it of (i, t) \<Rightarrow>
        if i < length (csWorkers s) then
          (case consumer_move t (csWorkers s ! i) s of
             None \<Rightarrow> None
           | Some (w, s') \<Rightarrow> Some (s'\<lparr>csWorkers := (csWorkers s)[i := w]\<rparr>))
        else None)"

fun consumer_steps :: "(nat \<times> ctick) list \<Rightarrow> ConsumerState \<Rightarrow> ConsumerState option" where
  "consumer_steps [] s = Some s"
| "consumer_steps (it # its) s = (case consumer_step it s of None \<Rightarrow> None | Some s' \<Rightarrow> consumer_steps its s')"

definition consumer_start :: "u32 list \<Rightarrow> int \<Rightarrow> ConsumerBench \<Rightarrow> ConsumerState" where
  "consumer_start parts start b =
     (let numWorkers = (if consConcurrency b > int (length parts) then int (length parts) else consConcurrency b);
          numWorkers = (if numWorkers \<le> 0 then 1 else numWorkers) in
      \<lparr>csBench = b, csStart = start, csStopped = False, csChannel = parts, csWorkers = replicate (nat numWorkers) CReady\<rparr>)"

definition consumer_done :: "ConsumerState \<Rightarrow> bool" where
  "consumer_done s = list_all (\<lambda>w. w = CGone) (csWorkers s)"

section \<open>The run\<close>

record ConsumerResult =
  crMetadata :: SystemMetadata
  crTopic :: gostring
  crPartitionMode :: gostring
  crTargetRecords :: int
  crObservedRecords :: int
  crCountedRecords :: int
  crOvershootRecords :: int
  crRPCCount :: int
  crMaxFetchBytes :: int
  crConcurrency :: int
  crDurationSeconds :: real
  crMessagesPerSecond :: real
  crPayloadMiBPerSecond :: real
  crLatency :: LatencyReport
  crErrors :: "code \<rightharpoonup> int"

definition consumer_result :: "int \<Rightarrow> ConsumerBench \<Rightarrow> ConsumerResult" where
  "consumer_result nanos b =
     \<lparr>crMetadata = consMetadata b, crTopic = consTopic b,
      crPartitionMode = (if consPartition b \<noteq> -1 then str ''single'' else str ''all-partitions''),
      crTargetRecords = consTarget b, crObservedRecords = consObserved b, crCountedRecords = consCounted b,
      crOvershootRecords = consOvershoot b, crRPCCount = consRpcCount b, crMaxFetchBytes = consMaxFetchBytes b,
      crConcurrency = consConcurrency b, crDurationSeconds = of_int nanos / 1000000000,
      crMessagesPerSecond = per_second nanos (of_int (consCounted b)),
      crPayloadMiBPerSecond = per_second nanos (of_int (consBytes b) / (1024 * 1024)),
      crLatency = GetReport (consSampler b), crErrors = with_canceled (consCanceled b) (consErrs b)\<rparr>"

text \<open>The checks after the workers.\<close>

definition consumer_finish :: "int \<Rightarrow> ConsumerBench \<Rightarrow> consumer_error + ConsumerResult" where
  "consumer_finish nanos b =
     (if consDuration b = 0 \<and> consCounted b < consTarget b then Inl (Exhausted (consCounted b))
      else case consFirstErr b of Some err \<Rightarrow> Inl err | None \<Rightarrow> Inr (consumer_result nanos b))"

definition ConsumerRun ::
  "client_error + TopicMetadata \<Rightarrow> (nat \<times> ctick) list \<Rightarrow> int \<times> int \<Rightarrow> ConsumerBench \<Rightarrow> (consumer_error + ConsumerResult) option" where
  "ConsumerRun desc sched clock b =
     (case desc of
        Inl err \<Rightarrow> Some (Inl (CDescribeFailed err))
      | Inr topic \<Rightarrow>
          let partitionCount = tmPartitionCount topic in
          if partitionCount = 0 then Some (Inl CNoPartitions)
          else if consPartition b \<noteq> -1 \<and> (consPartition b < 0 \<or> partitionCount \<le> word_of_int (consPartition b))
          then Some (Inl (CPartitionOutOfBounds (consPartition b)))
          else
          let parts = (if consPartition b \<noteq> -1 then [word_of_int (consPartition b)] else map of_nat [0..<unat partitionCount]) in
          (case consumer_steps sched (consumer_start parts (fst clock) b) of
             None \<Rightarrow> None
           | Some s \<Rightarrow> if consumer_done s then Some (consumer_finish (snd clock - fst clock) (csBench s)) else None))"

section \<open>Counting\<close>

text \<open>Records a worker has claimed, and those beyond the target, before it adds them to the counters.\<close>

fun cworker_accepted :: "cworker \<Rightarrow> int" where
  "cworker_accepted (CCounting cu records logEnd accepted) = accepted"
| "cworker_accepted w = 0"

text \<open>What a worker knows: an amount it claimed is within its answer, and is all of it unless the target is met.\<close>

fun cworker_ok :: "int \<Rightarrow> int \<Rightarrow> cworker \<Rightarrow> bool" where
  "cworker_ok target counted (CSwapping cu records logEnd current) = (current < target)"
| "cworker_ok target counted (CCounting cu records logEnd accepted) =
     (0 \<le> accepted \<and> accepted \<le> int (length records) \<and> (accepted < int (length records) \<longrightarrow> counted = target))"
| "cworker_ok target counted w = True"

definition consumer_inv :: "ConsumerState \<Rightarrow> bool" where
  "consumer_inv s =
     (let b = csBench s in
      consCounted b \<le> consTarget b \<and> 0 \<le> consOvershoot b \<and> (0 < consOvershoot b \<longrightarrow> consCounted b = consTarget b) \<and>
      consObserved b + sum_list (map cworker_accepted (csWorkers s)) = consCounted b + consOvershoot b \<and>
      list_all (cworker_ok (consTarget b) (consCounted b)) (csWorkers s))"

lemma consumer_tail_neutral [simp]: "cworker_accepted (consumer_tail b cu none logEnd) = 0" "cworker_ok target counted (consumer_tail b cu none logEnd)"
  by (simp_all add: consumer_tail_def Let_def)

lemma crash_counters [simp]:
  "consCounted (crash err b) = consCounted b" "consTarget (crash err b) = consTarget b" "consObserved (crash err b) = consObserved b"
  "consOvershoot (crash err b) = consOvershoot b"
  by (simp_all add: crash_def)

text \<open>The claims of the other workers stay true when the count grows, since it stops at the target.\<close>

lemma cworker_ok_mono: "cworker_ok target c w \<Longrightarrow> c \<le> c' \<Longrightarrow> c' \<le> target \<Longrightarrow> cworker_ok target c' w"
  by (cases w) auto

lemma consumer_move_inv:
  assumes "consumer_inv s" "w \<in> set (csWorkers s)" "consumer_move t w s = Some (w', s')"
  shows "consTarget (csBench s') = consTarget (csBench s) \<and> consCounted (csBench s) \<le> consCounted (csBench s') \<and>
    consCounted (csBench s') \<le> consTarget (csBench s) \<and> 0 \<le> consOvershoot (csBench s') \<and>
    (0 < consOvershoot (csBench s') \<longrightarrow> consCounted (csBench s') = consTarget (csBench s)) \<and>
    cworker_ok (consTarget (csBench s)) (consCounted (csBench s')) w' \<and>
    consObserved (csBench s') + cworker_accepted w' - consCounted (csBench s') - consOvershoot (csBench s') =
    consObserved (csBench s) + cworker_accepted w - consCounted (csBench s) - consOvershoot (csBench s)"
proof -
  have "cworker_ok (consTarget (csBench s)) (consCounted (csBench s)) w"
    using assms(1,2) by (auto simp: consumer_inv_def Let_def list_all_iff)
  then show ?thesis using assms(1,3)
    by (cases "(t, w, s)" rule: consumer_move.cases)
      (auto simp: consumer_inv_def consumer_head_def consumer_answer_def consumer_count_def accept_count_def Let_def
        split: if_splits sum.splits prod.splits option.splits list.splits)
qed


lemma consumer_step_inv:
  assumes "consumer_inv s" "consumer_step it s = Some s'"
  shows "consumer_inv s' \<and> consTarget (csBench s') = consTarget (csBench s)"
proof -
  obtain i t w s'' where i: "i < length (csWorkers s)" and m: "consumer_move t (csWorkers s ! i) s = Some (w, s'')"
    and s': "s' = s''\<lparr>csWorkers := (csWorkers s)[i := w]\<rparr>"
    using assms(2) by (auto simp: consumer_step_def split: prod.splits if_splits option.splits)
  note mv = consumer_move_inv [OF assms(1) nth_mem [OF i] m]
  have "list_all (cworker_ok (consTarget (csBench s)) (consCounted (csBench s''))) (csWorkers s)"
    using assms(1) mv cworker_ok_mono by (auto simp: consumer_inv_def Let_def list_all_iff)
  with mv have "list_all (cworker_ok (consTarget (csBench s)) (consCounted (csBench s''))) ((csWorkers s)[i := w])"
    using set_update_subset_insert [of "csWorkers s" i w] by (auto simp: list_all_iff)
  then show ?thesis using assms(1) mv sum_list_map_update [OF i, of cworker_accepted w] by (simp add: s' consumer_inv_def Let_def)
qed

lemma consumer_steps_inv:
  "consumer_inv s \<Longrightarrow> consumer_steps its s = Some s' \<Longrightarrow> consumer_inv s' \<and> consTarget (csBench s') = consTarget (csBench s)"
proof (induction its arbitrary: s)
  case (Cons it its)
  then show ?case using consumer_step_inv [of s it] by (fastforce split: option.splits)
qed simp

lemma consumer_start_inv:
  "0 \<le> consTarget b \<Longrightarrow> consObserved b = 0 \<Longrightarrow> consCounted b = 0 \<Longrightarrow> consOvershoot b = 0 \<Longrightarrow> consumer_inv (consumer_start parts start b)"
  by (simp add: consumer_inv_def consumer_start_def Let_def list_all_iff sum_list_replicate)

lemma consumer_done_accepted: "consumer_done s \<Longrightarrow> sum_list (map cworker_accepted (csWorkers s)) = 0"
proof -
  have "list_all (\<lambda>w. w = CGone) ws \<Longrightarrow> sum_list (map cworker_accepted ws) = 0" for ws by (induction ws) auto
  then show "consumer_done s \<Longrightarrow> ?thesis" by (simp add: consumer_done_def)
qed

section \<open>Properties\<close>

text \<open>
  C38. However the workers are interleaved, and whatever the broker answers, a consumer benchmark counts each
  record it observed exactly once as counted or as overshoot, and the count is the smaller of the target and
  the number observed: the compare-and-swap of \<open>claimConsumed\<close> loses no record and never passes the target.
  This holds with a duration as well, where the command says that the target is ignored.
\<close>

theorem consumer_counts_exactly:
  assumes "b = NewConsumerBench topic part target dur maxBytes conc off idle meta" "0 \<le> target"
    and "consumer_steps sched (consumer_start parts start b) = Some s" "consumer_done s"
  shows "consCounted (csBench s) = min target (consObserved (csBench s)) \<and>
    consObserved (csBench s) = consCounted (csBench s) + consOvershoot (csBench s)"
proof -
  have "consumer_inv (consumer_start parts start b)" using assms(1,2) by (simp add: consumer_start_inv NewConsumerBench_def)
  from consumer_steps_inv [OF this assms(3)] have "consumer_inv s" "consTarget (csBench s) = target"
    using assms(1) by (simp_all add: consumer_start_def NewConsumerBench_def Let_def)
  then show ?thesis using consumer_done_accepted [OF assms(4)] by (auto simp: consumer_inv_def Let_def min_def)
qed

section \<open>A run\<close>

text \<open>Two workers on two partitions and a target of two: both load the count before either swaps it.\<close>

definition sample_consumer :: ConsumerBench where
  "sample_consumer = NewConsumerBench (str ''t'') (-1) 2 0 1024 2 0 1000 sample_meta"

definition sample_fetched :: ctick where
  "sample_fetched = \<lparr>ctNow = 0, ctDone = False, ctDoneFirst = False, ctDraw = 0,
     ctAnswer = Inr \<lparr>frRecords = [\<lparr>psOffset = 0, psTimestamp = 0, psKey = None, psValue = Some [120], psHeaders = []\<rparr>,
       \<lparr>psOffset = 1, psTimestamp = 0, psKey = None, psValue = Some [120], psHeaders = []\<rparr>], frEarliestOffset = 0, frLogEndOffset = 2\<rparr>\<rparr>"

definition sample_consumption :: "(nat \<times> ctick) list" where
  "sample_consumption = map (\<lambda>i. (i, sample_fetched)) [0, 1, 0, 1, 0, 1, 0, 1, 0, 1, 0, 1, 1, 0, 1, 0, 1, 0, 1]"

definition sample_consumer_end :: ConsumerState where
  "sample_consumer_end = the (consumer_steps sample_consumption (consumer_start [0, 1] 0 sample_consumer))"

lemma sample_consumer_ends:
  "consumer_steps sample_consumption (consumer_start [0, 1] 0 sample_consumer) = Some sample_consumer_end"
  "consumer_done sample_consumer_end" "consObserved (csBench sample_consumer_end) = 4"
  by (simp_all add: sample_consumer_end_def sample_consumption_def sample_fetched_def sample_consumer_def NewConsumerBench_def
    consumer_start_def consumer_step_def consumer_head_def consumer_answer_def consumer_count_def consumer_tail_def consumer_done_def
    accept_count_def fetch_request_def numeral_2_eq_2 Let_def)

theorem consumer_counts_exactly_witness:
  "consCounted (csBench sample_consumer_end) = 2 \<and> consOvershoot (csBench sample_consumer_end) = 2"
  using consumer_counts_exactly [OF sample_consumer_def _ sample_consumer_ends(1,2)] sample_consumer_ends(3) by simp

text \<open>
  A run without a duration that stops short reports that the partitions are exhausted, whatever error stopped it.
\<close>

lemma first_error_masked:
  "consDuration b = 0 \<Longrightarrow> consCounted b < consTarget b \<Longrightarrow> consFirstErr b = Some err \<Longrightarrow>
   consumer_finish nanos b = Inl (Exhausted (consCounted b))"
  by (simp add: consumer_finish_def)

end
