(* ===== verification/Client_Commands.thy ===== *)
theory Client_Commands
  imports Bench_Consumer
begin

unbundle bit_operations_syntax

text \<open>
  The client commands (\<^verbatim>\<open>cmd/producer\<close>, \<^verbatim>\<open>cmd/bench_producer\<close>, \<^verbatim>\<open>cmd/bench_consumer\<close>): the checks of the flags before
  anything is sent, the choice of a partition for a record, and the exit status. What they print is left out.
\<close>

section \<open>Routing a record\<close>

text \<open>The 32-bit FNV-1a hash of \<^verbatim>\<open>hash/fnv\<close>.\<close>

definition fnv32a :: "bytes \<Rightarrow> u32" where
  "fnv32a bs = fold (\<lambda>b h. (h XOR ucast b) * 16777619) bs 2166136261"

datatype route_error = NoSuchPartition int | ZeroPartitions

text \<open>The number \<^verbatim>\<open>rand.Intn\<close> returns is an argument.\<close>

definition route_record :: "u32 \<Rightarrow> int \<Rightarrow> gostring \<Rightarrow> u32 \<Rightarrow> route_error + u32" where
  "route_record drawn part key partitionCount =
     (if partitionCount = 0 then Inl ZeroPartitions
      else if part \<noteq> -1 then
        (if part < 0 \<or> partitionCount \<le> word_of_int part then Inl (NoSuchPartition part) else Inr (word_of_int part))
      else if key \<noteq> [] then Inr (fnv32a key mod partitionCount)
      else Inr drawn)"

section \<open>Flags\<close>

definition bench_producer_flags :: "gostring \<Rightarrow> int \<Rightarrow> int \<Rightarrow> int \<Rightarrow> int \<Rightarrow> int \<Rightarrow> bool" where
  "bench_producer_flags topic msgSize cnt duration concurrency batchSize =
     (topic \<noteq> [] \<and> \<not> msgSize \<le> 0 \<and> \<not> (duration \<le> 0 \<and> cnt \<le> 0) \<and> \<not> concurrency \<le> 0 \<and> \<not> batchSize \<le> 0)"

text \<open>The partition the consumer reads, when the flags are accepted.\<close>

definition bench_consumer_flags :: "gostring \<Rightarrow> int \<Rightarrow> bool \<Rightarrow> int \<Rightarrow> int \<Rightarrow> int \<Rightarrow> int \<Rightarrow> int option" where
  "bench_consumer_flags topic part allPartitions cnt duration maxFetchBytes concurrency =
     (if topic = [] \<or> duration \<le> 0 \<and> cnt \<le> 0 \<or> maxFetchBytes \<le> 0 \<or> concurrency \<le> 0 then None
      else if part \<noteq> -1 then Some part
      else if \<not> allPartitions then None
      else Some (-1))"

definition bench_producer_exit :: "producer_error + ProducerResult \<Rightarrow> int" where
  "bench_producer_exit r = (case r of Inl err \<Rightarrow> 1 | Inr res \<Rightarrow> if prFailedRecords res > 0 then 1 else 0)"

section \<open>Facts\<close>

text \<open>A partition chosen for a record is one of the topic's, and one key always goes to the same.\<close>

lemma route_record_bound:
  assumes "drawn < partitionCount" "route_record drawn part key partitionCount = Inr p"
  shows "p < partitionCount"
  using assms by (auto simp: route_record_def not_le word_less_nat_alt unat_mod unat_gt_0 split: if_splits)

lemma route_record_stable: "key \<noteq> [] \<Longrightarrow> route_record d (-1) key n = route_record d' (-1) key n"
  by (simp add: route_record_def)

text \<open>The reference value of the hash for the string \<open>foobar\<close>.\<close>

lemma fnv32a_foobar: "fnv32a (str ''foobar'') = 0xbf9cf968"
  by (simp add: fnv32a_def) code_simp

text \<open>Accepted flags are those the termination of a counting run needs.\<close>

lemma bench_producer_flags_count_mode:
  "bench_producer_flags topic msgSize cnt duration concurrency batchSize \<Longrightarrow> duration \<le> 0 \<Longrightarrow>
   count_mode (NewProducerBench topic msgSize cnt duration concurrency batchSize part failFast mode meta) \<and> 0 < cnt"
  by (simp add: bench_producer_flags_def count_mode_def NewProducerBench_def)

end
