(* ===== verification/Spec2Isabelle.thy ===== *)
theory Spec2Isabelle
  imports Interleaving Process_Contract Client_Commands
begin

text \<open>
  A verification of the message broker: a single process that stores records in partitioned logs on disk, keeps the
  offsets of consumer groups, and serves both over gRPC, with the benchmark clients that measure it.

  \<^bold>\<open>How the parts interact.\<close> A request reaches a handler, which looks its partition up in the topic manager and calls
  the partition log. The log forwards to a segment store, which writes batches to files. Commits go to the
  offset store, one append-only file. A retention worker deletes old segments. On start the manager reads
  \<^verbatim>\<open>topics.json\<close> and every store recovers from its files.

  \<^bold>\<open>Theories and sources.\<close>
  \<^item> \<^verbatim>\<open>Broker_Prelude\<close>, \<^verbatim>\<open>Disk\<close>: types, shared lemmas, and files with volatile and durable contents, where
    any call may fail and power may be lost.
  \<^item> \<^verbatim>\<open>Record_Format\<close>, \<^verbatim>\<open>Segment\<close>, \<^verbatim>\<open>Log_Store\<close>, then \<^verbatim>\<open>Log_Invariant\<close> to \<^verbatim>\<open>Log_Contract\<close>: \<^verbatim>\<open>internal/storage\<close>. A store is a
    record with the fields of \<^verbatim>\<open>Store\<close>; \<open>Append\<close>, \<open>Read\<close>, \<open>OpenStore\<close>, \<open>ApplyRetention\<close> and \<open>Close\<close> are functions on it and the
    disk. \<^verbatim>\<open>Partition_Log\<close>: \<^verbatim>\<open>internal/partition\<close>.
  \<^item> \<^verbatim>\<open>Offset_Store\<close>, \<^verbatim>\<open>Offset_Contract\<close>: \<^verbatim>\<open>internal/offsets\<close>.
  \<^item> \<^verbatim>\<open>Json\<close>, \<^verbatim>\<open>Topic_Manager\<close>, \<^verbatim>\<open>Topic_Metadata\<close>, \<^verbatim>\<open>Topic_Contract\<close>: \<^verbatim>\<open>internal/topic\<close>.
  \<^item> \<^verbatim>\<open>Grpc_Handlers\<close>, \<^verbatim>\<open>Log_Service\<close>, \<^verbatim>\<open>Interleaving\<close>: the handlers of \<^verbatim>\<open>internal/grpcserver\<close>, with what other requests do
    in the gaps between their calls as an argument.
  \<^item> \<^verbatim>\<open>Config\<close>, \<^verbatim>\<open>Go_Text\<close>, \<^verbatim>\<open>Config_Load\<close>: \<^verbatim>\<open>internal/config\<close> and the text functions of the standard library it uses.
    \<^verbatim>\<open>Broker_Lifecycle\<close>, \<^verbatim>\<open>Process_Contract\<close>: \<^verbatim>\<open>internal/broker\<close>.
  \<^item> \<^verbatim>\<open>Broker_Spec\<close>, \<^verbatim>\<open>Broker_Refinement\<close>, \<^verbatim>\<open>Broker_Run\<close>, \<^verbatim>\<open>Broker_Contract\<close>: the abstract broker, maps from topics to lists of
    records and from groups to offsets, and its runs.
  \<^item> \<^verbatim>\<open>Bench_Latency\<close>, \<^verbatim>\<open>Bench_Ranges\<close>, \<^verbatim>\<open>Bench_Producer\<close>, \<^verbatim>\<open>Bench_Consumer\<close>: \<^verbatim>\<open>internal/bench\<close>. \<^verbatim>\<open>Client_Commands\<close>: \<^verbatim>\<open>cmd\<close>.

  \<^bold>\<open>What is shown.\<close> The storage: round trip and corruption detection of the format, the invariant of the store under
  every pattern of failures, exact reads, recovery, retention, and what survives crashes and power loss. The
  offset store and the manager: atomicity of commits and creations, recovery. The broker: every run
  refines the abstract broker, acknowledged records and offsets are durable, and the handlers are right under
  interference. The process: accepted configurations are valid, start and shutdown. The clients: a
  counting producer run ends and accounts for every record, the consumer counts each record once under every
  interleaving, the verification of ranges and the percentiles are exact.

  \<^bold>\<open>Bounds.\<close> Machine words have the code's width in formats, offsets, sizes and durations. There is no fuel: the
  loops over files and texts are proved to terminate by what is left of them. The counters of the benchmarks are
  unbounded integers; milliseconds and rates are real numbers. A worker of a benchmark is cut into steps at its accesses
  to shared state; updates that only add to counters nobody reads meanwhile share a step.

  \<^bold>\<open>Not modelled.\<close> The set-up of the gRPC and HTTP servers, the Prometheus collectors and the logger call libraries and keep
  no state the broker depends on, apart from the readiness flag, which is in the process. The remaining commands read
  flags and print. The generated protocol code follows from \<^verbatim>\<open>broker.proto\<close>. The YAML decoder is third-party code and an
  argument of \<open>Load\<close>. That a consumer run ends is not claimed: it depends on the clock and on the broker's answers.
\<close>

end
